(* ===== verification/Prelude.thy ===== *)
theory Prelude
  imports Main "HOL-Library.Word" "HOL-Library.List_Lexorder"
begin

text \<open>
  What the components share: byte strings with their lexicographic order, C strings,
  ordered maps and sets as strictly sorted lists (the model of \<^verbatim>\<open>std::map\<close> and
  \<^verbatim>\<open>std::set\<close>, whose iteration order is the key order), sorting with removal of
  duplicates, and the interface of a join (a semilattice on a carrier) with the
  convergence lemma every merge of the library rests on.
\<close>

named_theorems om_simps \<open>lookup and membership after an operation on an ordered map or set\<close>
named_theorems om_wf \<open>operations that keep an ordered map or set strictly sorted\<close>

section \<open>Byte strings\<close>

type_synonym byte = "8 word"
type_synonym bytes = "8 word list"

lemma unat_word_of_nat: "k < 2 ^ LENGTH('a) \<Longrightarrow> unat (word_of_nat k :: 'a::len word) = k"
  by (simp add: unat_of_nat)

text \<open>A string literal of the source, as its bytes.\<close>

definition ascii :: "string \<Rightarrow> bytes" where
  "ascii s = map of_char s"

text \<open>\<^verbatim>\<open>std::to_string\<close> of an unsigned number.\<close>

fun to_string :: "nat \<Rightarrow> bytes" where
  "to_string n =
     (if n < 10 then [48 + word_of_nat n] else to_string (n div 10) @ [48 + word_of_nat (n mod 10)])"

declare to_string.simps [simp del]

text \<open>What a C API sees of a byte string: it stops at the first NUL.\<close>

definition c_str :: "bytes \<Rightarrow> bytes" where
  "c_str s = takeWhile (\<lambda>c. c \<noteq> 0) s"

definition nul_free :: "bytes \<Rightarrow> bool" where
  "nul_free s \<longleftrightarrow> 0 \<notin> set s"

lemma c_str_id [simp]: "nul_free s \<Longrightarrow> c_str s = s"
  unfolding c_str_def nul_free_def by (induction s) auto

lemma nul_free_c_str [simp]: "nul_free (c_str s)"
  unfolding c_str_def nul_free_def by (auto dest: set_takeWhileD)

lemma nul_free_Nil [simp]: "nul_free []"
  by (simp add: nul_free_def)

lemma nul_free_append [simp]: "nul_free (a @ b) \<longleftrightarrow> nul_free a \<and> nul_free b"
  by (auto simp: nul_free_def)

lemma nul_free_Cons [simp]: "nul_free (c # s) \<longleftrightarrow> c \<noteq> 0 \<and> nul_free s"
  by (auto simp: nul_free_def)

lemma of_char_word_inj: "(of_char c :: 8 word) = of_char d \<longleftrightarrow> c = d"
proof
  assume eq: "(of_char c :: 8 word) = of_char d"
  have conv: "(of_char x :: 8 word) = word_of_nat (of_char x)" for x
    by (cases x) simp
  have "of_char c mod (256::nat) = of_char d mod 256"
    using arg_cong [OF eq, of unat] by (simp add: conv unat_of_nat)
  then show "c = d" by simp
qed simp

lemma ascii_inject [simp]: "ascii s = ascii t \<longleftrightarrow> s = t"
  unfolding ascii_def by (auto simp: of_char_word_inj inj_on_def intro: map_injective)

lemma nul_free_ascii: "CHR 0x00 \<notin> set s \<Longrightarrow> nul_free (ascii s)"
proof -
  have "(of_char (CHR 0x00) :: 8 word) = 0" by simp
  then have "(of_char c :: 8 word) = 0 \<longleftrightarrow> c = CHR 0x00" for c
    using of_char_word_inj [of c "CHR 0x00"] by simp
  then show "CHR 0x00 \<notin> set s \<Longrightarrow> nul_free (ascii s)"
    by (fastforce simp: nul_free_def ascii_def)
qed

lemma ascii_eq_Nil [simp]: "ascii s = [] \<longleftrightarrow> s = []"
  by (simp add: ascii_def)

lemma ascii_Nil [simp]: "ascii [] = []"
  by (simp add: ascii_def)


section \<open>Sorting, duplicates removed\<close>

text \<open>\<^verbatim>\<open>std::sort\<close> followed by \<^verbatim>\<open>erase(unique(...))\<close>.\<close>

definition sort_unique :: "'a::linorder list \<Rightarrow> 'a list" where
  "sort_unique xs = remdups_adj (sort xs)"

lemma set_sort_unique [simp]: "set (sort_unique xs) = set xs"
  by (simp add: sort_unique_def)

lemma strict_sorted_remdups_adj: "sorted xs \<Longrightarrow> sorted_wrt (<) (remdups_adj xs)"
  by (induction xs rule: remdups_adj.induct) (auto simp: order_less_le)

lemma strict_sorted_sort_unique [simp]: "sorted_wrt (<) (sort_unique xs)"
  by (simp add: sort_unique_def strict_sorted_remdups_adj)

lemma strict_sorted_set_eq:
  "sorted_wrt (<) (xs :: 'a::linorder list) \<Longrightarrow> sorted_wrt (<) ys \<Longrightarrow> set xs = set ys \<Longrightarrow> xs = ys"
  by (simp add: strict_sorted_equal)

lemma set_filter_Some: "set (List.map_filter g xs) = {y. \<exists>x \<in> set xs. g x = Some y}"
  by (induction xs) (auto simp: List.map_filter_def split: option.splits)

lemma sort_unique_cong: "set xs = set ys \<Longrightarrow> sort_unique xs = sort_unique ys"
  by (rule strict_sorted_set_eq) simp_all

lemma sort_unique_id: "sorted_wrt (<) xs \<Longrightarrow> sort_unique xs = xs"
  by (rule strict_sorted_set_eq) simp_all

lemma length_sort_unique_le: "length (sort_unique xs) \<le> length xs"
  unfolding sort_unique_def by (metis length_sort remdups_adj_length)

section \<open>Ordered maps and sets\<close>

text \<open>
  A \<^verbatim>\<open>std::map\<close> is a list of pairs with strictly increasing keys: iteration visits
  the keys in order. \<open>om_put\<close> is \<open>m[k] = v\<close>, \<open>om_emplace\<close> is \<^verbatim>\<open>emplace\<close> (no
  effect on a key that is there), \<open>map_of\<close> is \<^verbatim>\<open>find\<close>. A \<^verbatim>\<open>std::set\<close> is a
  strictly increasing list.
\<close>

type_synonym ('k, 'v) omap = "('k \<times> 'v) list"

definition om_ok :: "('k::linorder, 'v) omap \<Rightarrow> bool" where
  "om_ok m \<longleftrightarrow> sorted_wrt (<) (map fst m)"

fun om_put :: "'k::linorder \<Rightarrow> 'v \<Rightarrow> ('k, 'v) omap \<Rightarrow> ('k, 'v) omap" where
  "om_put k v [] = [(k, v)]"
| "om_put k v ((a, b) # m) =
     (if k < a then (k, v) # (a, b) # m
      else if k = a then (k, v) # m
      else (a, b) # om_put k v m)"

definition om_emplace :: "'k::linorder \<Rightarrow> 'v \<Rightarrow> ('k, 'v) omap \<Rightarrow> ('k, 'v) omap" where
  "om_emplace k v m = (case map_of m k of None \<Rightarrow> om_put k v m | Some _ \<Rightarrow> m)"

definition om_erase :: "'k \<Rightarrow> ('k, 'v) omap \<Rightarrow> ('k, 'v) omap" where
  "om_erase k m = filter (\<lambda>kv. fst kv \<noteq> k) m"

definition om_keys :: "('k, 'v) omap \<Rightarrow> 'k list" where
  "om_keys m = map fst m"

fun os_insert :: "'a::linorder \<Rightarrow> 'a list \<Rightarrow> 'a list" where
  "os_insert x [] = [x]"
| "os_insert x (y # ys) =
     (if x < y then x # y # ys else if x = y then y # ys else y # os_insert x ys)"

definition os_of :: "'a::linorder list \<Rightarrow> 'a list" where
  "os_of xs = fold os_insert xs []"

definition os_union :: "'a::linorder list \<Rightarrow> 'a list \<Rightarrow> 'a list" where
  "os_union s xs = fold os_insert xs s"

lemma om_ok_Nil [om_wf, simp]: "om_ok []"
  by (simp add: om_ok_def)

lemma om_ok_Cons: "om_ok (kv # m) \<longleftrightarrow> (\<forall>k \<in> fst ` set m. fst kv < k) \<and> om_ok m"
  by (auto simp: om_ok_def)

lemma om_ok_single [om_wf, simp]: "om_ok [kv]"
  by (simp add: om_ok_def)

lemma fst_set_om_put: "fst ` set (om_put k v m) = insert k (fst ` set m)"
  by (induction k v m rule: om_put.induct) auto

lemma om_ok_put [om_wf, simp]: "om_ok m \<Longrightarrow> om_ok (om_put k v m)"
  by (induction k v m rule: om_put.induct) (auto simp: om_ok_Cons fst_set_om_put)

lemma map_of_om_put [om_simps, simp]: "om_ok m \<Longrightarrow> map_of (om_put k v m) = (map_of m)(k \<mapsto> v)"
proof (induction k v m rule: om_put.induct)
  case (2 k v a b m)
  then show ?case by (auto simp: om_ok_Cons fun_eq_iff)
qed simp

lemma om_ok_distinct: "om_ok m \<Longrightarrow> distinct (map fst m)"
  by (simp add: om_ok_def strict_sorted_iff)

lemma om_ok_emplace [om_wf, simp]: "om_ok m \<Longrightarrow> om_ok (om_emplace k v m)"
  by (simp add: om_emplace_def split: option.split)

lemma map_of_om_emplace [om_simps, simp]:
  "om_ok m \<Longrightarrow> map_of (om_emplace k v m) = [k \<mapsto> v] ++ map_of m"
  by (auto simp: om_emplace_def map_add_def fun_eq_iff split: option.split)

text \<open>\<^verbatim>\<open>m[k].push_back(v)\<close>, and the list under a key.\<close>

definition got :: "'a list option \<Rightarrow> 'a list" where
  "got v = (case v of Some xs \<Rightarrow> xs | None \<Rightarrow> [])"

definition om_push :: "'k::linorder \<Rightarrow> 'v \<Rightarrow> ('k, 'v list) omap \<Rightarrow> ('k, 'v list) omap" where
  "om_push k v m = om_put k (got (map_of m k) @ [v]) m"

lemma got_simps [simp]: "got None = []" "got (Some xs) = xs"
  by (simp_all add: got_def)

lemma om_ok_push [om_wf, simp]: "om_ok m \<Longrightarrow> om_ok (om_push k v m)"
  by (simp add: om_push_def)

lemma map_of_push [om_simps]: "om_ok m \<Longrightarrow> map_of (om_push k v m) q = (if q = k then Some (got (map_of m k) @ [v]) else map_of m q)"
  by (simp add: om_push_def)

lemma om_ok_filter [om_wf, simp]: "om_ok m \<Longrightarrow> om_ok (filter P m)"
  by (induction m) (auto simp: om_ok_Cons)

lemma om_ok_erase [om_wf, simp]: "om_ok m \<Longrightarrow> om_ok (om_erase k m)"
  by (simp add: om_erase_def)

lemma map_of_om_erase [om_simps, simp]: "map_of (om_erase k m) = (map_of m)(k := None)"
  by (induction m) (auto simp: om_erase_def fun_eq_iff)

text \<open>An ordered map is determined by what its lookups return.\<close>

lemma om_ext:
  assumes "om_ok m" "om_ok n" "map_of m = map_of n"
  shows "m = n"
proof -
  have eq: "set m = set n"
    using assms map_of_inject_set [of m n] by (simp add: om_ok_distinct)
  show ?thesis
    using assms(1,2) eq
    by (intro map_sorted_distinct_set_unique [of fst])
       (auto simp: om_ok_def strict_sorted_iff distinct_map)
qed

lemma set_os_insert [om_simps, simp]: "set (os_insert x xs) = insert x (set xs)"
  by (induction x xs rule: os_insert.induct) auto

lemma sorted_os_insert [om_wf, simp]: "sorted_wrt (<) xs \<Longrightarrow> sorted_wrt (<) (os_insert x xs)"
  by (induction x xs rule: os_insert.induct) auto

lemma sorted_os_union [om_wf, simp]: "sorted_wrt (<) s \<Longrightarrow> sorted_wrt (<) (os_union s xs)"
  unfolding os_union_def by (induction xs arbitrary: s) auto

lemma set_os_union [om_simps, simp]: "set (os_union s xs) = set s \<union> set xs"
  unfolding os_union_def by (induction xs arbitrary: s) auto

lemma set_os_of [om_simps, simp]: "set (os_of xs) = set xs"
  using set_os_union [of "[]" xs] by (simp add: os_of_def os_union_def)

lemma sorted_os_of [om_wf, simp]: "sorted_wrt (<) (os_of xs)"
  using sorted_os_union [of "[]" xs] by (simp add: os_of_def os_union_def)

section \<open>The interface of a merge\<close>

text \<open>
  A join on a carrier: closed, commutative, associative, idempotent. A peer that merges
  what it receives computes a fold of the join; the order of arrival and the number of
  copies do not change the result. Proved once here, used for every join of the code.
\<close>

locale join_laws =
  fixes ok :: "'a \<Rightarrow> bool" and jn :: "'a \<Rightarrow> 'a \<Rightarrow> 'a"
  assumes jn_ok: "ok a \<Longrightarrow> ok b \<Longrightarrow> ok (jn a b)"
    and jn_comm: "ok a \<Longrightarrow> ok b \<Longrightarrow> jn a b = jn b a"
    and jn_assoc: "ok a \<Longrightarrow> ok b \<Longrightarrow> ok c \<Longrightarrow> jn (jn a b) c = jn a (jn b c)"
    and jn_idem: "ok a \<Longrightarrow> jn a a = a"
begin

lemma foldl_ok: "ok s \<Longrightarrow> \<forall>x \<in> set xs. ok x \<Longrightarrow> ok (foldl jn s xs)"
  by (induction xs arbitrary: s) (auto simp: jn_ok)

lemma foldl_push:
  "ok s \<Longrightarrow> ok a \<Longrightarrow> \<forall>x \<in> set xs. ok x \<Longrightarrow> foldl jn (jn s a) xs = jn (foldl jn s xs) a"
proof (induction xs arbitrary: s)
  case (Cons x xs)
  then have "jn (jn s a) x = jn (jn s x) a"
    by (metis jn_assoc jn_comm list.set_intros(1))
  with Cons show ?case by (auto simp: jn_ok)
qed simp

lemma foldl_absorb:
  assumes "ok s" "\<forall>x \<in> set xs. ok x" "a \<in> set xs"
  shows "jn (foldl jn s xs) a = foldl jn s xs"
  using assms
proof (induction xs arbitrary: s)
  case (Cons x xs)
  show ?case
  proof (cases "a \<in> set xs")
    case True
    with Cons show ?thesis by (auto simp: jn_ok)
  next
    case False
    with Cons.prems have "a = x" "ok a" by auto
    have "jn (jn s a) a = jn s a"
      using Cons.prems \<open>ok a\<close> by (metis jn_assoc jn_idem)
    then have "foldl jn (jn (jn s a) a) xs = foldl jn (jn s a) xs" by simp
    moreover have "foldl jn (jn (jn s a) a) xs = jn (foldl jn (jn s a) xs) a"
      using Cons.prems \<open>ok a\<close> by (intro foldl_push) (auto simp: jn_ok)
    ultimately show ?thesis using \<open>a = x\<close> by simp
  qed
qed simp

lemma foldl_subset:
  assumes "ok s" "\<forall>x \<in> set xs. ok x" "set ys \<subseteq> set xs"
  shows "foldl jn (foldl jn s xs) ys = foldl jn s xs"
  using assms(3)
proof (induction ys)
  case (Cons y ys)
  then show ?case using foldl_absorb [OF assms(1,2), of y] by simp
qed simp

lemma foldl_swap:
  "ok s \<Longrightarrow> \<forall>x \<in> set xs. ok x \<Longrightarrow> \<forall>y \<in> set ys. ok y \<Longrightarrow>
   foldl jn (foldl jn s xs) ys = foldl jn (foldl jn s ys) xs"
proof (induction ys arbitrary: s)
  case (Cons y ys)
  then have "jn (foldl jn s xs) y = foldl jn (jn s y) xs"
    by (simp add: foldl_push)
  with Cons show ?case by (simp add: jn_ok)
qed simp

theorem foldl_converges:
  assumes "ok s" "\<forall>x \<in> set xs. ok x" "set xs = set ys"
  shows "foldl jn s xs = foldl jn s ys"
  using foldl_swap [of s xs ys] foldl_subset [of s xs ys] foldl_subset [of s ys xs] assms
  by auto

end

text \<open>
  A concrete join that implements an abstract one through an observation \<open>obs\<close>: two
  concrete states that differ only in what \<open>obs\<close> does not see converge as seen by it.
\<close>

locale join_refines = join_laws ok jn
  for ok :: "'a \<Rightarrow> bool" and jn :: "'a \<Rightarrow> 'a \<Rightarrow> 'a" +
  fixes cok :: "'c \<Rightarrow> bool" and obs :: "'c \<Rightarrow> 'a" and cj :: "'c \<Rightarrow> 'c \<Rightarrow> 'c"
  assumes cj_ok: "cok a \<Longrightarrow> cok b \<Longrightarrow> cok (cj a b)"
    and obs_ok: "cok a \<Longrightarrow> ok (obs a)"
    and obs_join: "cok a \<Longrightarrow> cok b \<Longrightarrow> obs (cj a b) = jn (obs a) (obs b)"
begin

lemma foldl_obs:
  "cok s \<Longrightarrow> \<forall>x \<in> set xs. cok x \<Longrightarrow>
   cok (foldl cj s xs) \<and> obs (foldl cj s xs) = foldl jn (obs s) (map obs xs)"
  by (induction xs arbitrary: s) (auto simp: cj_ok obs_join)

theorem concrete_converges:
  assumes "cok s" "\<forall>x \<in> set xs. cok x" "set xs = set ys"
  shows "obs (foldl cj s xs) = obs (foldl cj s ys)"
proof -
  have "foldl jn (obs s) (map obs xs) = foldl jn (obs s) (map obs ys)"
    using assms obs_ok by (intro foldl_converges) auto
  then show ?thesis using foldl_obs [of s xs] foldl_obs [of s ys] assms by simp
qed

end

end
