(* ===== verification/Dbl.thy ===== *)
theory Dbl
  imports Prelude
begin

text \<open>
  IEEE-754 binary64 values as their 64-bit patterns (\<^verbatim>\<open>double\<close> in cJSON and in the
  encoder): classification, comparison, \<^verbatim>\<open>std::floor(v) == v\<close>, the truncating cast to
  an integer and the cast of an integer, which rounds to nearest, ties to even.
\<close>

type_synonym dbl = "64 word"

definition dbl_neg :: "dbl \<Rightarrow> bool" where
  "dbl_neg x \<longleftrightarrow> 2 ^ 63 \<le> unat x"

definition dbl_mag :: "dbl \<Rightarrow> nat" where
  "dbl_mag x = unat x mod 2 ^ 63"

definition dbl_exp :: "dbl \<Rightarrow> nat" where
  "dbl_exp x = dbl_mag x div 2 ^ 52"

definition dbl_frac :: "dbl \<Rightarrow> nat" where
  "dbl_frac x = dbl_mag x mod 2 ^ 52"

definition dbl_is_nan :: "dbl \<Rightarrow> bool" where
  "dbl_is_nan x \<longleftrightarrow> dbl_exp x = 2047 \<and> dbl_frac x \<noteq> 0"

definition dbl_is_inf :: "dbl \<Rightarrow> bool" where
  "dbl_is_inf x \<longleftrightarrow> dbl_exp x = 2047 \<and> dbl_frac x = 0"

text \<open>
  A finite value is \<open>\<plusminus> dbl_mant x * 2 ^ (dbl_scale x - 1075)\<close>.
\<close>

definition dbl_mant :: "dbl \<Rightarrow> nat" where
  "dbl_mant x = (if dbl_exp x = 0 then dbl_frac x else 2 ^ 52 + dbl_frac x)"

definition dbl_scale :: "dbl \<Rightarrow> nat" where
  "dbl_scale x = max (dbl_exp x) 1"

definition dbl_integral :: "dbl \<Rightarrow> bool" where
  "dbl_integral x \<longleftrightarrow> 1075 \<le> dbl_scale x \<or> 2 ^ (1075 - dbl_scale x) dvd dbl_mant x"

definition dbl_abs_trunc :: "dbl \<Rightarrow> nat" where
  "dbl_abs_trunc x =
     (if 1075 \<le> dbl_scale x then dbl_mant x * 2 ^ (dbl_scale x - 1075)
      else dbl_mant x div 2 ^ (1075 - dbl_scale x))"

definition dbl_trunc :: "dbl \<Rightarrow> int" where
  "dbl_trunc x = (if dbl_neg x then - int (dbl_abs_trunc x) else int (dbl_abs_trunc x))"

text \<open>Comparison: on values that are not NaN, the order of the signed magnitudes.\<close>

definition dbl_key :: "dbl \<Rightarrow> int" where
  "dbl_key x = (if dbl_neg x then - int (dbl_mag x) else int (dbl_mag x))"

definition dbl_less :: "dbl \<Rightarrow> dbl \<Rightarrow> bool" where
  "dbl_less x y \<longleftrightarrow> \<not> dbl_is_nan x \<and> \<not> dbl_is_nan y \<and> dbl_key x < dbl_key y"

definition dbl_eq :: "dbl \<Rightarrow> dbl \<Rightarrow> bool" where
  "dbl_eq x y \<longleftrightarrow> \<not> dbl_is_nan x \<and> \<not> dbl_is_nan y \<and> dbl_key x = dbl_key y"

text \<open>The magnitude of \<open>2 ^ 53\<close>, which the source writes \<^verbatim>\<open>9.007199254740992e15\<close>.\<close>

definition dbl_2_53 :: nat where
  "dbl_2_53 = 1076 * 2 ^ 52"

fun bit_len :: "nat \<Rightarrow> nat" where
  "bit_len n = (if n = 0 then 0 else Suc (bit_len (n div 2)))"

declare bit_len.simps [simp del]

definition dbl_bits_of_nat :: "nat \<Rightarrow> nat" where
  "dbl_bits_of_nat m =
     (if m = 0 then 0
      else let k = bit_len m in
        if k \<le> 53 then (k + 1022) * 2 ^ 52 + (m * 2 ^ (53 - k) - 2 ^ 52)
        else let s = k - 53; q = m div 2 ^ s; r = m mod 2 ^ s;
                 q' = (if 2 ^ s < 2 * r \<or> (2 * r = 2 ^ s \<and> odd q) then q + 1 else q)
             in (k + 1022) * 2 ^ 52 + (q' - 2 ^ 52))"

definition dbl_of_int :: "int \<Rightarrow> dbl" where
  "dbl_of_int n = word_of_nat ((if n < 0 then 2 ^ 63 else 0) + dbl_bits_of_nat (nat \<bar>n\<bar>))"

section \<open>Powers of two around a number\<close>

lemma bit_len_0 [simp]: "bit_len 0 = 0"
  by (simp add: bit_len.simps)

lemma bit_len_bounds: "0 < n \<Longrightarrow> 2 ^ (bit_len n - 1) \<le> n \<and> n < 2 ^ bit_len n"
proof (induction n rule: bit_len.induct)
  case (1 n)
  show ?case
  proof (cases "n = 1")
    case True
    then show ?thesis by (simp add: bit_len.simps)
  next
    case False
    with "1.prems" have pos: "0 < n div 2" by auto
    with 1 have ih: "2 ^ (bit_len (n div 2) - 1) \<le> n div 2" "n div 2 < 2 ^ bit_len (n div 2)"
      by auto
    have "bit_len (n div 2) \<noteq> 0" using pos ih(2) by (cases "bit_len (n div 2)") auto
    then obtain j where j: "bit_len (n div 2) = Suc j" by (cases "bit_len (n div 2)") auto
    have "bit_len n = Suc (Suc j)" using "1.prems" j by (simp add: bit_len.simps [of n])
    with ih j show ?thesis by (simp add: power_Suc) arith
  qed
qed

lemma bit_len_pos: "0 < n \<Longrightarrow> 0 < bit_len n"
  by (simp add: bit_len.simps)

lemma bit_len_unique:
  assumes "2 ^ j \<le> n" "n < 2 ^ Suc j"
  shows "bit_len n = Suc j"
proof -
  have pos: "0 < n" using assms(1) by (metis gr0I le_zero_eq power_not_zero zero_neq_numeral)
  have b: "2 ^ (bit_len n - 1) \<le> n" "n < 2 ^ bit_len n"
    using bit_len_bounds [OF pos] by auto
  have "2 ^ (bit_len n - 1) < (2::nat) ^ Suc j" using b(1) assms(2) by linarith
  then have "bit_len n - 1 < Suc j" by (simp only: power_strict_increasing_iff one_less_numeral_iff
        semiring_norm(76) power_less_imp_less_exp)
  moreover have "(2::nat) ^ j < 2 ^ bit_len n" using b(2) assms(1) by linarith
  then have "j < bit_len n" by (simp only: power_strict_increasing_iff one_less_numeral_iff
        semiring_norm(76) power_less_imp_less_exp)
  ultimately show ?thesis by linarith
qed

lemma bit_len_le: "0 < n \<Longrightarrow> n < 2 ^ k \<Longrightarrow> bit_len n \<le> k"
proof -
  assume "0 < n" "n < 2 ^ k"
  then have "2 ^ (bit_len n - 1) < (2::nat) ^ k" using bit_len_bounds [of n] by linarith
  then have "bit_len n - 1 < k" by (rule power_less_imp_less_exp [rotated]) simp
  then show ?thesis by simp
qed


section \<open>Small integers are exact\<close>

lemma dbl_bits_small:
  assumes "0 < m" "m < 2 ^ 53"
  defines "B \<equiv> dbl_bits_of_nat m" and "k \<equiv> bit_len m"
  shows "B div 2 ^ 52 = k + 1022" and "2 ^ 52 + B mod 2 ^ 52 = m * 2 ^ (53 - k)"
    and "0 < k" and "k \<le> 53" and "B < dbl_2_53"
proof -
  show k: "0 < k" "k \<le> 53"
    using assms bit_len_pos bit_len_le by (auto simp: k_def)
  have b: "2 ^ (k - 1) \<le> m" "m < 2 ^ k"
    using bit_len_bounds [OF assms(1)] by (auto simp: k_def)
  define F where "F = m * 2 ^ (53 - k)"
  have "(2::nat) ^ (k - 1) * 2 ^ (53 - k) \<le> F"
    unfolding F_def using b(1) by simp
  moreover have "(2::nat) ^ (k - 1) * 2 ^ (53 - k) = 2 ^ 52"
    using k by (simp flip: power_add)
  moreover have "F < 2 ^ k * 2 ^ (53 - k)"
    unfolding F_def using b(2) by simp
  moreover have "(2::nat) ^ k * 2 ^ (53 - k) = 2 ^ 53"
    using k by (simp flip: power_add)
  ultimately have F: "2 ^ 52 \<le> F" "F < 2 ^ 53" by linarith+
  have B: "B = (k + 1022) * 2 ^ 52 + (F - 2 ^ 52)"
    using assms(1) k by (simp add: B_def dbl_bits_of_nat_def k_def F_def Let_def)
  have r: "F - 2 ^ 52 < (2::nat) ^ 52" using F by simp
  show "B div 2 ^ 52 = k + 1022"
    using r unfolding B by (subst div_mult_self3) simp_all
  have "B mod 2 ^ 52 = F - 2 ^ 52"
    using r unfolding B by (subst mod_mult_self3) simp
  then show "2 ^ 52 + B mod 2 ^ 52 = m * 2 ^ (53 - k)"
    using F by (simp add: F_def)
  have "B < (k + 1023) * 2 ^ 52" using r unfolding B by simp
  also have "\<dots> \<le> 1076 * 2 ^ 52" using k by (intro mult_le_mono1) simp
  finally show "B < dbl_2_53" by (simp add: dbl_2_53_def)
qed

lemma dbl_bits_lt: "m < 2 ^ 53 \<Longrightarrow> dbl_bits_of_nat m < dbl_2_53"
  using dbl_bits_small(5) [of m] by (cases "m = 0") (auto simp: dbl_bits_of_nat_def dbl_2_53_def)

lemma nat_abs_lt: "\<bar>n\<bar> < 2 ^ 53 \<Longrightarrow> nat \<bar>n\<bar> < 2 ^ 53"
  by (simp add: nat_less_iff)

lemma unat_dbl_of_int:
  assumes "\<bar>n\<bar> < 2 ^ 53"
  shows "unat (dbl_of_int n) = (if n < 0 then 2 ^ 63 else 0) + dbl_bits_of_nat (nat \<bar>n\<bar>)"
proof -
  have "dbl_bits_of_nat (nat \<bar>n\<bar>) < 2 ^ 63"
    using dbl_bits_lt [OF nat_abs_lt [OF assms]] by (simp add: dbl_2_53_def)
  then show ?thesis
    unfolding dbl_of_int_def by (intro unat_word_of_nat) (cases "n < 0"; simp)
qed

lemma dbl_of_int_sign_mag:
  assumes "\<bar>n\<bar> < 2 ^ 53"
  shows "dbl_neg (dbl_of_int n) \<longleftrightarrow> n < 0" and "dbl_mag (dbl_of_int n) = dbl_bits_of_nat (nat \<bar>n\<bar>)"
proof -
  have "dbl_bits_of_nat (nat \<bar>n\<bar>) < 2 ^ 63"
    using dbl_bits_lt [OF nat_abs_lt [OF assms]] by (simp add: dbl_2_53_def)
  then show "dbl_neg (dbl_of_int n) \<longleftrightarrow> n < 0" "dbl_mag (dbl_of_int n) = dbl_bits_of_nat (nat \<bar>n\<bar>)"
    by (auto simp: dbl_neg_def dbl_mag_def unat_dbl_of_int [OF assms])
qed

lemma dbl_of_int_exact:
  assumes "\<bar>n\<bar> < 2 ^ 53"
  shows "dbl_trunc (dbl_of_int n) = n" and "dbl_integral (dbl_of_int n)"
    and "dbl_mag (dbl_of_int n) < dbl_2_53" and "\<not> dbl_is_nan (dbl_of_int n)"
    and "\<not> dbl_is_inf (dbl_of_int n)"
proof -
  let ?x = "dbl_of_int n" and ?m = "nat \<bar>n\<bar>"
  have m: "?m < 2 ^ 53" using assms by (rule nat_abs_lt)
  note sm = dbl_of_int_sign_mag [OF assms]
  show lt: "dbl_mag ?x < dbl_2_53" using dbl_bits_lt [OF m] sm by simp
  then have e: "dbl_exp ?x < 1076" unfolding dbl_exp_def dbl_2_53_def
    by (simp add: div_less_iff_less_mult)
  then show "\<not> dbl_is_nan ?x" "\<not> dbl_is_inf ?x"
    by (auto simp: dbl_is_nan_def dbl_is_inf_def)
  have "dbl_abs_trunc ?x = ?m \<and> dbl_integral ?x"
  proof (cases "?m = 0")
    case True
    then have "dbl_mag ?x = 0" using sm by (simp add: dbl_bits_of_nat_def)
    then show ?thesis using True
      by (simp add: dbl_abs_trunc_def dbl_integral_def dbl_mant_def dbl_exp_def dbl_frac_def)
  next
    case False
    then have pos: "0 < ?m" by simp
    note bs = dbl_bits_small [OF pos m]
    let ?k = "bit_len ?m"
    have ex: "dbl_exp ?x = ?k + 1022" using bs(1) sm by (simp add: dbl_exp_def)
    have mant: "dbl_mant ?x = ?m * 2 ^ (53 - ?k)"
      using bs(2) ex sm by (simp add: dbl_mant_def dbl_frac_def)
    have sc: "dbl_scale ?x = ?k + 1022" using ex by (simp add: dbl_scale_def)
    have "1075 - (?k + 1022) = 53 - ?k" by simp
    with sc mant bs(4) show ?thesis
      by (cases "?k = 53") (auto simp: dbl_abs_trunc_def dbl_integral_def)
  qed
  then show "dbl_integral ?x" "dbl_trunc ?x = n"
    using sm by (auto simp: dbl_trunc_def)
qed

lemma dbl_abs_trunc_lt:
  assumes "dbl_mag x < dbl_2_53"
  shows "dbl_abs_trunc x < 2 ^ 53" and "dbl_exp x \<le> 1075"
proof -
  show e: "dbl_exp x \<le> 1075"
    using assms unfolding dbl_exp_def dbl_2_53_def by (simp add: less_Suc_eq_le [symmetric] div_less_iff_less_mult)
  have mant: "dbl_mant x < 2 ^ 53"
    unfolding dbl_mant_def dbl_frac_def by (simp add: less_trans [OF mod_less_divisor])
  then have "dbl_mant x div n < 2 ^ 53" for n
    by (rule le_less_trans [OF div_le_dividend])
  with mant e show "dbl_abs_trunc x < 2 ^ 53"
    unfolding dbl_abs_trunc_def dbl_scale_def by (cases "dbl_exp x = 1075") auto
qed

lemma dbl_bits_of_abs_trunc:
  assumes "dbl_mag x < dbl_2_53" "dbl_integral x" "dbl_abs_trunc x \<noteq> 0"
  shows "dbl_bits_of_nat (dbl_abs_trunc x) = dbl_mag x"
proof -
  let ?m = "dbl_abs_trunc x" and ?e = "dbl_exp x"
  have e: "?e \<le> 1075" by (rule dbl_abs_trunc_lt [OF assms(1)])
  have mant: "dbl_mant x = ?m * 2 ^ (1075 - dbl_scale x)"
    using assms(2) e by (auto simp: dbl_abs_trunc_def dbl_integral_def dbl_scale_def)
  have fr: "dbl_frac x < 2 ^ 52" by (simp add: dbl_frac_def)
  have e0: "?e \<noteq> 0"
  proof
    assume "?e = 0"
    then have "dbl_frac x = ?m * 2 ^ 1074" using mant by (simp add: dbl_mant_def dbl_scale_def)
    moreover have "?m * 2 ^ 1074 \<ge> 1 * (2::nat) ^ 1074" using assms(3) by (intro mult_le_mono1) simp
    moreover have "(2::nat) ^ 52 \<le> 2 ^ 1074" by (rule power_increasing) simp_all
    ultimately show False using fr by linarith
  qed
  then have sc: "dbl_scale x = ?e" by (simp add: dbl_scale_def)
  have F: "?m * 2 ^ (1075 - ?e) = 2 ^ 52 + dbl_frac x"
    using mant e0 sc by (simp add: dbl_mant_def)
  define j where "j = 1075 - ?e"
  have j: "j \<le> 52"
  proof (rule ccontr)
    assume "\<not> j \<le> 52"
    then have "(2::nat) ^ 53 \<le> 2 ^ j" by (intro power_increasing) auto
    moreover have "1 * 2 ^ j \<le> ?m * 2 ^ j" using assms(3) by (intro mult_le_mono1) simp
    ultimately have "2 ^ 53 \<le> ?m * 2 ^ j" by linarith
    then show False using F fr by (simp add: j_def)
  qed
  have "2 ^ (52 - j) * 2 ^ j \<le> ?m * 2 ^ j"
    using F j by (simp add: j_def flip: power_add)
  then have lo: "2 ^ (52 - j) \<le> ?m" by simp
  have "?m * 2 ^ j < 2 ^ Suc (52 - j) * 2 ^ j"
    using F fr j by (simp add: j_def flip: power_add power_Suc del: power_Suc)
  then have hi: "?m < 2 ^ Suc (52 - j)" by simp
  have k: "bit_len ?m = Suc (52 - j)" by (rule bit_len_unique [OF lo hi])
  then have "bit_len ?m + 1022 = ?e" "53 - bit_len ?m = 1075 - ?e" "bit_len ?m \<le> 53"
    using j e by (auto simp: j_def)
  then have "dbl_bits_of_nat ?m = ?e * 2 ^ 52 + dbl_frac x"
    using assms(3) F by (simp add: dbl_bits_of_nat_def Let_def)
  then show ?thesis by (simp add: dbl_exp_def dbl_frac_def)
qed

text \<open>The fold of \<open>-0.0\<close> to \<open>0\<close> is the only change the cast there and back makes.\<close>

lemma dbl_of_int_trunc:
  assumes "dbl_mag x < dbl_2_53" "dbl_integral x"
  shows "dbl_of_int (dbl_trunc x) = (if dbl_mag x = 0 then 0 else x)"
proof (cases "dbl_abs_trunc x = 0")
  case True
  have "dbl_mag x = 0"
  proof (rule ccontr)
    assume nz: "dbl_mag x \<noteq> 0"
    have e: "dbl_exp x \<le> 1075" by (rule dbl_abs_trunc_lt [OF assms(1)])
    have mant: "dbl_mant x = dbl_abs_trunc x * 2 ^ (1075 - dbl_scale x)"
      using assms(2) e by (auto simp: dbl_abs_trunc_def dbl_integral_def dbl_scale_def)
    then have "dbl_mant x = 0" using True by simp
    then have "dbl_exp x = 0" "dbl_frac x = 0" by (auto simp: dbl_mant_def split: if_splits)
    then show False using nz unfolding dbl_exp_def dbl_frac_def
      by (metis div_mult_mod_eq add_0 mult_0)
  qed
  with True show ?thesis by (simp add: dbl_trunc_def dbl_of_int_def dbl_bits_of_nat_def)
next
  case False
  note bits = dbl_bits_of_abs_trunc [OF assms False]
  have nz: "dbl_mag x \<noteq> 0"
  proof
    assume "dbl_mag x = 0"
    then have "dbl_mant x = 0" by (simp add: dbl_mant_def dbl_exp_def dbl_frac_def)
    then show False using False by (simp add: dbl_abs_trunc_def split: if_splits)
  qed
  have ab: "nat \<bar>dbl_trunc x\<bar> = dbl_abs_trunc x" by (simp add: dbl_trunc_def)
  have sg: "dbl_trunc x < 0 \<longleftrightarrow> dbl_neg x" using False by (auto simp: dbl_trunc_def)
  have "unat x = (if dbl_neg x then 2 ^ 63 else 0) + dbl_mag x"
    using unsigned_less [of x, where ?'a = nat] by (auto simp: dbl_neg_def dbl_mag_def le_mod_geq)
  moreover have "x = word_of_nat (unat x)" by simp
  ultimately have "x = word_of_nat ((if dbl_neg x then 2 ^ 63 else 0) + dbl_mag x)"
    by simp
  then show ?thesis using bits ab sg nz by (simp add: dbl_of_int_def)
qed

end
