(* ===== verification/Json.thy ===== *)
theory Json
  imports Dbl
begin

text \<open>
  The cJSON tree, as the library uses it. A member of an object carries its key; a
  \<^verbatim>\<open>cJSON*\<close> that may be null is a \<open>json option\<close>. Strings are what a C reader sees:
  bytes without a NUL (\<open>json_wf\<close>), which is why every construction from a
  \<^verbatim>\<open>std::string\<close> goes through \<^const>\<open>c_str\<close>.
\<close>

datatype json =
    JNull
  | JFalse
  | JTrue
  | JNumber dbl
  | JString bytes
  | JArray "json list"
  | JObject "(bytes \<times> json) list"
  | JRaw bytes

fun is_JObject :: "json option \<Rightarrow> bool" where
  "is_JObject (Some (JObject _)) = True"
| "is_JObject _ = False"

fun is_JArray :: "json option \<Rightarrow> bool" where
  "is_JArray (Some (JArray _)) = True"
| "is_JArray _ = False"

fun is_JNull :: "json option \<Rightarrow> bool" where
  "is_JNull (Some JNull) = True"
| "is_JNull _ = False"

text \<open>\<^verbatim>\<open>cJSON_IsString(v) && v->valuestring\<close>, with the string.\<close>

fun as_string :: "json option \<Rightarrow> bytes option" where
  "as_string (Some (JString s)) = Some s"
| "as_string _ = None"

fun as_number :: "json option \<Rightarrow> dbl option" where
  "as_number (Some (JNumber x)) = Some x"
| "as_number _ = None"

text \<open>The members of an object (nothing for any other node), and the child list of a
  node whatever its kind, which is what a loop over \<^verbatim>\<open>child\<close> and \<^verbatim>\<open>next\<close> visits.\<close>

fun members :: "json option \<Rightarrow> (bytes \<times> json) list" where
  "members (Some (JObject ms)) = ms"
| "members _ = []"

fun children :: "json option \<Rightarrow> json list" where
  "children (Some (JArray xs)) = xs"
| "children (Some (JObject ms)) = map snd ms"
| "children _ = []"

text \<open>\<^verbatim>\<open>cJSON_GetObjectItemCaseSensitive\<close>: the first member with that key.\<close>

definition get :: "json option \<Rightarrow> bytes \<Rightarrow> json option" where
  "get obj k = map_of (members obj) k"

definition str_or :: "json option \<Rightarrow> bytes \<Rightarrow> bytes" where
  "str_or item fallback = (case as_string item of Some s \<Rightarrow> s | None \<Rightarrow> fallback)"

text \<open>Construction: \<^verbatim>\<open>cJSON_AddItemToObject\<close> appends and never replaces.\<close>

definition add_member :: "(bytes \<times> json) list \<Rightarrow> bytes \<Rightarrow> json \<Rightarrow> (bytes \<times> json) list" where
  "add_member ms k v = ms @ [(c_str k, v)]"

fun delete_member :: "bytes \<Rightarrow> (bytes \<times> json) list \<Rightarrow> (bytes \<times> json) list" where
  "delete_member k [] = []"
| "delete_member k ((a, v) # ms) = (if a = k then ms else (a, v) # delete_member k ms)"

definition mk_string :: "bytes \<Rightarrow> json" where
  "mk_string s = JString (c_str s)"

definition mk_int :: "int \<Rightarrow> json" where
  "mk_int n = JNumber (dbl_of_int n)"

definition mk_bool :: "bool \<Rightarrow> json" where
  "mk_bool b = (if b then JTrue else JFalse)"

section \<open>Well-formed trees\<close>

fun json_wf :: "json \<Rightarrow> bool" where
  "json_wf (JString s) = nul_free s"
| "json_wf (JArray xs) = (\<forall>x \<in> set xs. json_wf x)"
| "json_wf (JObject ms) = (\<forall>kv \<in> set ms. nul_free (fst kv) \<and> json_wf (snd kv))"
| "json_wf _ = True"

fun json_depth :: "json \<Rightarrow> nat" where
  "json_depth (JArray xs) = foldr max (map (\<lambda>x. Suc (json_depth x)) xs) 0"
| "json_depth (JObject ms) = foldr max (map (\<lambda>kv. Suc (json_depth (snd kv))) ms) 0"
| "json_depth _ = 0"

text \<open>The number of nodes, keys included: what a parser allocates.\<close>

fun json_nodes :: "json \<Rightarrow> nat" where
  "json_nodes (JArray xs) = Suc (sum_list (map json_nodes xs))"
| "json_nodes (JObject ms) = Suc (sum_list (map (\<lambda>kv. Suc (json_nodes (snd kv))) ms))"
| "json_nodes _ = 1"

lemma foldr_max_le: "foldr max ns (0::nat) \<le> d \<longleftrightarrow> (\<forall>n \<in> set ns. n \<le> d)"
  by (induction ns) auto

lemma json_depth_JArray_le:
  "json_depth (JArray xs) \<le> d \<longleftrightarrow> (\<forall>x \<in> set xs. Suc (json_depth x) \<le> d)"
  by (simp add: foldr_max_le)

lemma json_depth_JObject_le:
  "json_depth (JObject ms) \<le> d \<longleftrightarrow> (\<forall>kv \<in> set ms. Suc (json_depth (snd kv)) \<le> d)"
  by (simp add: foldr_max_le)

lemma get_None [simp]: "get None k = None"
  by (simp add: get_def)

lemma get_JObject [simp]: "get (Some (JObject ms)) k = map_of ms k"
  by (simp add: get_def)

lemma get_other [simp]:
  "get (Some JNull) k = None" "get (Some JFalse) k = None" "get (Some JTrue) k = None"
  "get (Some (JNumber x)) k = None" "get (Some (JString s)) k = None"
  "get (Some (JArray xs)) k = None" "get (Some (JRaw s)) k = None"
  by (simp_all add: get_def)

lemma get_wf: "get (Some j) k = Some v \<Longrightarrow> json_wf j \<Longrightarrow> json_wf v"
  by (cases j) (force dest: map_of_SomeD)+

end
