(* ===== verification/Encode.thy ===== *)
theory Encode
  imports Json
begin

text \<open>
  Values to canonical bytes (\<^verbatim>\<open>src/encoding/encode.cpp\<close>): varints, zigzag, the UTF-8
  check, the tagged encodings and \<^verbatim>\<open>encode\<close>. A thrown \<^verbatim>\<open>CanonicalError\<close> is
  \<open>Inl\<close> of its message. In an object the key of a member is encoded before its value
  (C++ leaves that order open; it only decides which of two errors is reported).
\<close>

unbundle bit_operations_syntax

datatype canon_error = CanonicalError string

type_synonym 'a canon = "canon_error + 'a"

definition cbind :: "'a canon \<Rightarrow> ('a \<Rightarrow> 'b canon) \<Rightarrow> 'b canon" where
  "cbind r f = (case r of Inl e \<Rightarrow> Inl e | Inr x \<Rightarrow> f x)"

fun cmap :: "('a \<Rightarrow> 'b canon) \<Rightarrow> 'a list \<Rightarrow> 'b list canon" where
  "cmap f [] = Inr []"
| "cmap f (x # xs) =
     (case f x of Inl e \<Rightarrow> Inl e | Inr y \<Rightarrow>
       (case cmap f xs of Inl e \<Rightarrow> Inl e | Inr ys \<Rightarrow> Inr (y # ys)))"

definition canon_ok :: "'a canon \<Rightarrow> bool" where
  "canon_ok r = (case r of Inl _ \<Rightarrow> False | Inr _ \<Rightarrow> True)"

section \<open>Tags and varints\<close>

definition kNull :: byte where "kNull = 0"
definition kFalse :: byte where "kFalse = 1"
definition kTrue :: byte where "kTrue = 2"
definition kInt :: byte where "kInt = 3"
definition kFloat :: byte where "kFloat = 4"
definition kStr :: byte where "kStr = 5"
definition kSeq :: byte where "kSeq = 7"
definition kMap :: byte where "kMap = 8"
definition kSet :: byte where "kSet = 9"

lemmas tag_defs = kNull_def kFalse_def kTrue_def kInt_def kFloat_def kStr_def kSeq_def kMap_def kSet_def

lemma unat_drop_bit_7: "unat (drop_bit 7 n) = unat (n :: 64 word) div 128"
  by (simp only: unat_drop_bit_eq) (simp add: drop_bit_eq_div)

lemma drop_bit_7_less: "drop_bit 7 n \<noteq> 0 \<Longrightarrow> unat (drop_bit 7 n) < unat (n :: 64 word)"
proof -
  assume "drop_bit 7 n \<noteq> 0"
  then have "unat n div 128 \<noteq> 0" unfolding unat_drop_bit_7 [symmetric] by (simp add: unat_gt_0)
  then have "0 < unat n" by (metis div_0 gr0I)
  then show ?thesis unfolding unat_drop_bit_7 by (intro div_less_dividend) simp_all
qed

function put_uvarint :: "64 word \<Rightarrow> bytes" where
  "put_uvarint n =
     (let b = ucast (n AND 0x7F) :: byte; n' = drop_bit 7 n
      in if n' = 0 then [b] else (b OR 0x80) # put_uvarint n')"
  by pat_completeness auto
termination
  by (relation "measure unat") (auto simp: drop_bit_7_less)

declare put_uvarint.simps [simp del]

definition zigzag :: "64 word \<Rightarrow> 64 word" where
  "zigzag n = push_bit 1 n XOR signed_drop_bit 63 n"

section \<open>UTF-8\<close>

fun utf8_lead :: "byte \<Rightarrow> (nat \<times> 32 word) option" where
  "utf8_lead c =
     (if c < 0x80 then Some (0, ucast c)
      else if c AND 0xE0 = 0xC0 then Some (1, ucast (c AND 0x1F))
      else if c AND 0xF0 = 0xE0 then Some (2, ucast (c AND 0x0F))
      else if c AND 0xF8 = 0xF0 then Some (3, ucast (c AND 0x07))
      else None)"

fun utf8_tail :: "nat \<Rightarrow> 32 word \<Rightarrow> bytes \<Rightarrow> (32 word \<times> bytes) option" where
  "utf8_tail 0 cp s = Some (cp, s)"
| "utf8_tail (Suc k) cp [] = None"
| "utf8_tail (Suc k) cp (cc # s) =
     (if cc AND 0xC0 \<noteq> 0x80 then None
      else utf8_tail k (push_bit 6 cp OR ucast (cc AND 0x3F)) s)"

definition utf8_cp_ok :: "nat \<Rightarrow> 32 word \<Rightarrow> bool" where
  "utf8_cp_ok n cp \<longleftrightarrow>
     \<not> (n = 1 \<and> cp < 0x80) \<and> \<not> (n = 2 \<and> cp < 0x800) \<and> \<not> (n = 3 \<and> cp < 0x10000) \<and>
     \<not> cp > 0x10FFFF \<and> \<not> (cp \<ge> 0xD800 \<and> cp \<le> 0xDFFF)"

lemma utf8_tail_length: "utf8_tail n cp s = Some (cp', s') \<Longrightarrow> length s' + n = length s"
  by (induction n cp s rule: utf8_tail.induct) (auto split: if_splits)

function valid_utf8 :: "bytes \<Rightarrow> bool" where
  "valid_utf8 [] = True"
| "valid_utf8 (c # s) =
     (case utf8_lead c of
        None \<Rightarrow> False
      | Some (n, cp) \<Rightarrow>
          if n > 0 \<and> n \<ge> length (c # s) then False
          else (case utf8_tail n cp s of
                  None \<Rightarrow> False
                | Some (cp', s') \<Rightarrow> utf8_cp_ok n cp' \<and> valid_utf8 s'))"
  by pat_completeness auto
termination
  by (relation "measure length") (auto dest!: utf8_tail_length)

section \<open>The encodings\<close>

text \<open>\<^verbatim>\<open>size()\<close> as the unsigned 64-bit value the varint writer takes.\<close>

definition put_size :: "nat \<Rightarrow> bytes" where
  "put_size n = put_uvarint (word_of_nat n)"

definition str_bytes :: "bytes \<Rightarrow> bytes" where
  "str_bytes s = kStr # put_size (length s) @ s"

definition encode_str :: "bytes \<Rightarrow> bytes canon" where
  "encode_str s =
     (if \<not> valid_utf8 s then Inl (CanonicalError ''string is not valid UTF-8'')
      else Inr (str_bytes s))"

definition encode_int :: "64 word \<Rightarrow> bytes" where
  "encode_int v = kInt # put_uvarint (zigzag v)"

definition float_bytes :: "64 word \<Rightarrow> bytes" where
  "float_bytes bits = map (\<lambda>i. ucast (drop_bit (i * 8) bits AND 0xFF)) [7, 6, 5, 4, 3, 2, 1, 0]"

definition folds_to_int :: "dbl \<Rightarrow> bool" where
  "folds_to_int v \<longleftrightarrow> dbl_integral v \<and> dbl_mag v < dbl_2_53"

definition encode_number :: "dbl \<Rightarrow> bytes canon" where
  "encode_number v =
     (if dbl_is_nan v \<or> dbl_is_inf v
      then Inl (CanonicalError ''NaN and infinity have no canonical form'')
      else if folds_to_int v then Inr (encode_int (word_of_int (dbl_trunc v)))
      else Inr (kFloat # float_bytes v))"

definition encode_seq :: "bytes list \<Rightarrow> bytes" where
  "encode_seq items = kSeq # put_size (length items) @ concat items"

definition encode_set :: "bytes list \<Rightarrow> bytes" where
  "encode_set items =
     (let s = sort_unique items in kSet # put_size (length s) @ concat s)"

definition map_bytes :: "(bytes \<times> bytes) list \<Rightarrow> bytes" where
  "map_bytes pairs = kMap # put_size (length pairs) @ concat (map (\<lambda>kv. fst kv @ snd kv) pairs)"

fun adjacent_dup :: "'a list \<Rightarrow> bool" where
  "adjacent_dup (x # y # xs) = (x = y \<or> adjacent_dup (y # xs))"
| "adjacent_dup _ = False"

definition encode_map :: "(bytes \<times> bytes) list \<Rightarrow> bytes canon" where
  "encode_map pairs =
     (let s = sort_key fst pairs
      in if adjacent_dup (map fst s) then Inl (CanonicalError ''duplicate object key'')
         else Inr (map_bytes s))"

text \<open>The assembly of a rune or a mantle: values already encoded, and no check that the
  keys are distinct.\<close>

definition encode_map_of_encoded :: "(bytes \<times> bytes) list \<Rightarrow> bytes canon" where
  "encode_map_of_encoded fields =
     (case cmap (\<lambda>kv. case encode_str (fst kv) of Inl e \<Rightarrow> Inl e | Inr k \<Rightarrow> Inr (k, snd kv)) fields
      of Inl e \<Rightarrow> Inl e
       | Inr pairs \<Rightarrow> Inr (map_bytes (sort_key fst pairs)))"

fun encode :: "json \<Rightarrow> bytes canon"
  and encode_items :: "json list \<Rightarrow> bytes list canon"
  and encode_members :: "(bytes \<times> json) list \<Rightarrow> (bytes \<times> bytes) list canon" where
  "encode JNull = Inr [kNull]"
| "encode JFalse = Inr [kFalse]"
| "encode JTrue = Inr [kTrue]"
| "encode (JNumber x) = encode_number x"
| "encode (JString s) = encode_str s"
| "encode (JArray xs) =
     (case encode_items xs of Inl e \<Rightarrow> Inl e | Inr items \<Rightarrow> Inr (encode_seq items))"
| "encode (JObject ms) =
     (case encode_members ms of Inl e \<Rightarrow> Inl e | Inr pairs \<Rightarrow> encode_map pairs)"
| "encode (JRaw _) = Inl (CanonicalError ''value has no canonical form (raw or invalid)'')"
| "encode_items [] = Inr []"
| "encode_items (x # xs) =
     (case encode x of Inl e \<Rightarrow> Inl e | Inr b \<Rightarrow>
       (case encode_items xs of Inl e \<Rightarrow> Inl e | Inr bs \<Rightarrow> Inr (b # bs)))"
| "encode_members [] = Inr []"
| "encode_members ((k, v) # ms) =
     (case encode_str k of Inl e \<Rightarrow> Inl e | Inr kb \<Rightarrow>
       (case encode v of Inl e \<Rightarrow> Inl e | Inr vb \<Rightarrow>
         (case encode_members ms of Inl e \<Rightarrow> Inl e | Inr ps \<Rightarrow> Inr ((kb, vb) # ps))))"

text \<open>\<^verbatim>\<open>encode\<close> of a pointer that may be null.\<close>

definition encode_opt :: "json option \<Rightarrow> bytes canon" where
  "encode_opt v = (case v of None \<Rightarrow> Inr [kNull] | Some j \<Rightarrow> encode j)"

end
