(* ===== verification/Decode.thy ===== *)
theory Decode
  imports Encode
begin

text \<open>
  Canonical bytes back to a value (\<^verbatim>\<open>src/encoding/decode.cpp\<close>). The input is
  hostile, so every read can fail. The position \<^verbatim>\<open>i\<close> in the input is modelled by
  what is left of it; \<open>room\<close> is \<^verbatim>\<open>kMaxDepth + 1 - depth\<close>, so \<^verbatim>\<open>depth > kMaxDepth\<close>
  is \<open>room = 0\<close>. A null result is \<open>None\<close>.
\<close>

unbundle bit_operations_syntax

definition kMaxDepth :: nat where "kMaxDepth = 1000"

fun read_varint_loop :: "nat \<Rightarrow> 64 word \<Rightarrow> bytes \<Rightarrow> (64 word \<times> bytes) option" where
  "read_varint_loop k v [] = None"
| "read_varint_loop k v (c # b) =
     (if 10 \<le> k then None
      else if k = 9 \<and> 1 < c then None
      else let v' = v OR push_bit (7 * k) (ucast (c AND 0x7F))
           in if c AND 0x80 = 0 then Some (v', b) else read_varint_loop (Suc k) v' b)"

declare read_varint_loop.simps(2) [simp del]

definition read_varint :: "bytes \<Rightarrow> (64 word \<times> bytes) option" where
  "read_varint b = read_varint_loop 0 0 b"

definition unzigzag :: "64 word \<Rightarrow> 64 word" where
  "unzigzag z = drop_bit 1 z XOR (NOT (z AND 1) + 1)"

definition be64 :: "bytes \<Rightarrow> 64 word" where
  "be64 bs = foldl (\<lambda>bits c. push_bit 8 bits OR ucast c) 0 bs"

text \<open>The cases of the \<^verbatim>\<open>switch\<close> that read no further value.\<close>

definition decode_leaf :: "byte \<Rightarrow> bytes \<Rightarrow> (json \<times> bytes) option" where
  "decode_leaf tag b =
     (if tag = 0x00 then Some (JNull, b)
      else if tag = 0x01 then Some (JFalse, b)
      else if tag = 0x02 then Some (JTrue, b)
      else if tag = 0x03 then
        (case read_varint b of None \<Rightarrow> None
         | Some (z, b') \<Rightarrow> Some (JNumber (dbl_of_int (sint (unzigzag z))), b'))
      else if tag = 0x04 then
        (if length b < 8 then None else Some (JNumber (be64 (take 8 b)), drop 8 b))
      else if tag = 0x05 then
        (case read_varint b of None \<Rightarrow> None
         | Some (n, b') \<Rightarrow>
             if unat n > length b' then None
             else Some (mk_string (take (unat n) b'), drop (unat n) b'))
      else None)"

definition read_count :: "nat \<Rightarrow> bytes \<Rightarrow> (nat \<times> bytes) option" where
  "read_count per b =
     (case read_varint b of None \<Rightarrow> None
      | Some (n, b') \<Rightarrow> if unat n > length b' div per then None else Some (unat n, b'))"

fun decode_at :: "nat \<Rightarrow> bytes \<Rightarrow> (json \<times> bytes) option"
  and decode_items :: "nat \<Rightarrow> nat \<Rightarrow> bytes \<Rightarrow> (json list \<times> bytes) option"
  and decode_members :: "nat \<Rightarrow> nat \<Rightarrow> bytes \<Rightarrow> ((bytes \<times> json) list \<times> bytes) option" where
  "decode_at 0 b = None"
| "decode_at (Suc r) [] = None"
| "decode_at (Suc r) (tag # b) =
     (if tag = 0x07 \<or> tag = 0x09 then
        (case read_count 1 b of None \<Rightarrow> None
         | Some (n, b') \<Rightarrow> map_option (\<lambda>(xs, b''). (JArray xs, b'')) (decode_items r n b'))
      else if tag = 0x08 then
        (case read_count 2 b of None \<Rightarrow> None
         | Some (n, b') \<Rightarrow> map_option (\<lambda>(ms, b''). (JObject ms, b'')) (decode_members r n b'))
      else decode_leaf tag b)"
| "decode_items r 0 b = Some ([], b)"
| "decode_items r (Suc n) b =
     (case decode_at r b of None \<Rightarrow> None
      | Some (x, b') \<Rightarrow> map_option (\<lambda>(xs, b''). (x # xs, b'')) (decode_items r n b'))"
| "decode_members r 0 b = Some ([], b)"
| "decode_members r (Suc n) b =
     (case decode_at r b of None \<Rightarrow> None
      | Some (key, b') \<Rightarrow>
          (case as_string (Some key) of None \<Rightarrow> None
           | Some k \<Rightarrow>
               (case decode_at r b' of None \<Rightarrow> None
                | Some (v, b'') \<Rightarrow>
                    map_option (\<lambda>(ms, b3). ((c_str k, v) # ms, b3)) (decode_members r n b''))))"

definition decode :: "bytes \<Rightarrow> json option" where
  "decode bytes =
     (case decode_at (kMaxDepth + 1) bytes of None \<Rightarrow> None
      | Some (v, b) \<Rightarrow> if b = [] then Some v else None)"

definition is_canonical :: "bytes \<Rightarrow> bool" where
  "is_canonical bytes =
     (case decode bytes of None \<Rightarrow> False
      | Some v \<Rightarrow> (case encode v of Inl _ \<Rightarrow> False | Inr b \<Rightarrow> b = bytes))"

section \<open>Varints and zigzag\<close>

lemma bit_0x80 [simp]: "bit (0x80 :: byte) i \<longleftrightarrow> i = 7"
proof -
  have "bit (push_bit 7 (1 :: byte)) i \<longleftrightarrow> i = 7"
    by (simp only: bit_push_bit_iff bit_1_iff) auto
  then show ?thesis by simp
qed

lemma bit_0x80_64 [simp]: "bit (0x80 :: 64 word) i \<longleftrightarrow> i = 7"
proof -
  have "bit (push_bit 7 (1 :: 64 word)) i \<longleftrightarrow> i = 7"
    by (simp only: bit_push_bit_iff bit_1_iff) auto
  then show ?thesis by simp
qed

lemma mask_0x7F: "(0x7F :: 64 word) = mask 7" "(0x7F :: byte) = mask 7"
  by (simp_all add: mask_eq_exp_minus_1)

lemmas varint_bit_iffs =
  bit_and_iff bit_or_iff bit_unsigned_iff bit_mask_iff bit_take_bit_iff bit_0x80 bit_0x80_64

lemma varint_low_bits:
  "ucast ((ucast (m AND 0x7F) :: byte) AND 0x7F) = (take_bit 7 m :: 64 word)"
  "ucast (((ucast (m AND 0x7F) :: byte) OR 0x80) AND 0x7F) = (take_bit 7 m :: 64 word)"
  unfolding mask_0x7F by (rule bit_word_eqI; simp only: varint_bit_iffs; auto)+

lemma varint_high_bit:
  "(ucast (m AND (0x7F :: 64 word)) :: byte) AND 0x80 = 0"
  "((ucast (m AND (0x7F :: 64 word)) :: byte) OR 0x80) AND 0x80 \<noteq> 0"
proof -
  show "(ucast (m AND (0x7F :: 64 word)) :: byte) AND 0x80 = 0"
    unfolding mask_0x7F by (rule bit_word_eqI; simp only: varint_bit_iffs; auto)
  have "bit (((ucast (m AND (0x7F :: 64 word)) :: byte) OR 0x80) AND 0x80) 7"
    by (simp only: varint_bit_iffs simp_thms)
  then show "((ucast (m AND (0x7F :: 64 word)) :: byte) OR 0x80) AND 0x80 \<noteq> 0" by (metis bit_0_eq bot_apply bot_bool_def)
qed

lemma read_varint_more:
  "k < 9 \<Longrightarrow> read_varint_loop k v (((ucast (m AND (0x7F :: 64 word)) :: byte) OR 0x80) # s)
   = read_varint_loop (Suc k) (v OR push_bit (7 * k) (take_bit 7 m)) s"
  by (subst read_varint_loop.simps) (simp only: varint_low_bits varint_high_bit Let_def if_False; simp)

lemma read_varint_last:
  "k < 9 \<or> k = 9 \<and> \<not> 1 < (ucast (m AND (0x7F :: 64 word)) :: byte) \<Longrightarrow>
   read_varint_loop k v ((ucast (m AND (0x7F :: 64 word)) :: byte) # s)
   = Some (v OR push_bit (7 * k) (take_bit 7 m), s)"
  by (subst read_varint_loop.simps) (simp only: varint_low_bits varint_high_bit Let_def; auto)

lemma take_bit_step:
  "take_bit (7 * k) n OR push_bit (7 * k) (take_bit 7 (drop_bit (7 * k) n))
   = take_bit (7 * Suc k) (n :: 64 word)"
  by (rule bit_word_eqI) (auto simp: bit_simps)

lemma read_put_uvarint_loop:
  "k \<le> 9 \<Longrightarrow>
   read_varint_loop k (take_bit (7 * k) n) (put_uvarint (drop_bit (7 * k) n) @ rest) = Some (n, rest)"
proof (induction "9 - k" arbitrary: k)
  case 0
  then have k: "k = 9" by simp
  have m: "drop_bit 63 n = 0 \<or> drop_bit 63 n = 1"
  proof -
    have "unat (drop_bit 63 n) < 2"
      using unsigned_less [of n, where ?'a = nat]
      by (simp only: unat_drop_bit_eq) (simp add: drop_bit_eq_div div_less_iff_less_mult)
    then have "unat (drop_bit 63 n) = 0 \<or> unat (drop_bit 63 n) = 1" by linarith
    then show ?thesis by (metis unat_eq_zero unat_1 unsigned_word_eqI)
  qed
  then have d7: "drop_bit 7 (drop_bit 63 n) = 0" by auto
  have "ucast (drop_bit 63 n AND 0x7F) \<le> (1 :: byte)" using m by auto
  then have c: "\<not> 1 < (ucast (drop_bit 63 n AND 0x7F) :: byte)" by simp
  have "take_bit 63 n OR push_bit 63 (take_bit 7 (drop_bit 63 n)) = n"
  proof (rule bit_word_eqI)
    fix i assume "i < LENGTH(64)"
    then show "bit (take_bit 63 n OR push_bit 63 (take_bit 7 (drop_bit 63 n))) i \<longleftrightarrow> bit n i"
      by (cases "i = 63") (auto simp: bit_simps)
  qed
  then show ?case
    unfolding k using c d7
    by (simp add: put_uvarint.simps [of "drop_bit 63 n"] Let_def read_varint_last)
next
  case (Suc j)
  then have k: "k < 9" by simp
  show ?case
  proof (cases "drop_bit 7 (drop_bit (7 * k) n) = 0")
    case True
    have "take_bit (7 * Suc k) n = n"
    proof (rule bit_word_eqI)
      fix i
      have "bit n (7 * Suc k + l) = bit (drop_bit 7 (drop_bit (7 * k) n)) l" for l
        by (simp add: bit_simps ac_simps)
      then have "\<not> bit n (7 * Suc k + l)" for l using True by simp
      then have "bit n i \<Longrightarrow> i < 7 * Suc k" by (metis add_diff_inverse_nat)
      then show "bit (take_bit (7 * Suc k) n) i \<longleftrightarrow> bit n i" by (auto simp: bit_simps)
    qed
    with True k show ?thesis
      by (simp only: put_uvarint.simps [of "drop_bit (7 * k) n"])
         (simp add: Let_def read_varint_last take_bit_step del: mult_Suc_right)
  next
    case False
    have "drop_bit 7 (drop_bit (7 * k) n) = drop_bit (7 * Suc k) n"
      by (simp add: ac_simps)
    moreover have "read_varint_loop (Suc k) (take_bit (7 * Suc k) n)
        (put_uvarint (drop_bit (7 * Suc k) n) @ rest) = Some (n, rest)"
      using Suc.hyps(2) k by (intro Suc.hyps(1)) simp_all
    ultimately show ?thesis using False k
      by (simp only: put_uvarint.simps [of "drop_bit (7 * k) n"])
         (simp add: Let_def read_varint_more take_bit_step del: mult_Suc_right)
  qed
qed

lemma read_put_uvarint [simp]: "read_varint (put_uvarint n @ rest) = Some (n, rest)"
  using read_put_uvarint_loop [of 0 n rest] by (simp add: read_varint_def)

lemma put_uvarint_nonempty: "put_uvarint n \<noteq> []"
  by (subst put_uvarint.simps) (simp add: Let_def)

lemma bit_zigzag:
  "i < 64 \<Longrightarrow> bit (zigzag n) i \<longleftrightarrow> ((0 < i \<and> bit n (i - 1)) \<noteq> bit n 63)"
  unfolding zigzag_def
  by (cases "i = 0"; simp only: bit_xor_iff bit_push_bit_iff bit_signed_drop_bit_iff)
     (auto simp: bit_simps)

lemma zigzag_parity: "zigzag n AND 1 = (if bit n 63 then 1 else 0)"
proof (rule bit_word_eqI)
  fix i assume "i < LENGTH(64)"
  then show "bit (zigzag n AND 1) i \<longleftrightarrow> bit (if bit n 63 then 1 else 0 :: 64 word) i"
    by (cases "i = 0") (auto simp: bit_and_iff bit_zigzag bit_1_iff)
qed

lemma unzigzag_zigzag [simp]: "unzigzag (zigzag n) = n"
proof (rule bit_word_eqI)
  fix i assume i: "i < LENGTH(64)"
  have d: "bit (drop_bit 1 (zigzag n)) i \<longleftrightarrow> i < 63 \<and> bit (zigzag n) (Suc i)" for i
    using bit_imp_le_length [of "zigzag n" "Suc i"]
    by (auto simp only: bit_drop_bit_eq o_def) auto
  have sg: "NOT (zigzag n AND 1) + 1 = (if bit n 63 then -1 else 0)"
    by (simp add: zigzag_parity)
  show "bit (unzigzag (zigzag n)) i \<longleftrightarrow> bit n i"
    using i d [of i] unfolding unzigzag_def sg
    by (cases "i = 63") (auto simp: bit_xor_iff bit_zigzag simp del: One_nat_def)
qed

end
