(* ===== verification/Codec.thy ===== *)
theory Codec
  imports Decode
begin

text \<open>
  What \<^verbatim>\<open>decode\<close> and \<^verbatim>\<open>encode\<close> promise each other: decoding the canonical bytes of a
  value gives the value's normal form (members in canonical key order, integral numbers
  folded), and \<^verbatim>\<open>is_canonical\<close> accepts exactly the bytes some value encodes to.
\<close>

unbundle bit_operations_syntax

section \<open>Sorting pairs by key\<close>

lemma insort_key_map: "insort_key f (g x) (map g xs) = map g (insort_key (\<lambda>y. f (g y)) x xs)"
  by (induction xs) auto

lemma sort_key_map: "sort_key f (map g xs) = map g (sort_key (\<lambda>y. f (g y)) xs)"
  by (induction xs) (auto simp: insort_key_map)

lemma sort_key_sorted: "sorted (map f xs) \<Longrightarrow> sort_key f xs = xs"
proof (induction xs)
  case (Cons x xs)
  then show ?case by (cases xs) auto
qed simp

section \<open>The normal form of a value\<close>

fun canon_json :: "json \<Rightarrow> json" where
  "canon_json (JNumber x) =
     JNumber (if folds_to_int x then dbl_of_int (dbl_trunc x) else x)"
| "canon_json (JArray xs) = JArray (map canon_json xs)"
| "canon_json (JObject ms) =
     JObject (sort_key (\<lambda>kv. str_bytes (fst kv)) (map (\<lambda>(k, v). (k, canon_json v)) ms))"
| "canon_json v = v"

definition enc :: "json \<Rightarrow> bytes" where
  "enc v = (case encode v of Inl _ \<Rightarrow> [] | Inr b \<Rightarrow> b)"

lemma encode_enc: "encode v = Inr b \<Longrightarrow> enc v = b"
  by (simp add: enc_def)

lemma encode_items_Inr:
  "encode_items xs = Inr bs \<longleftrightarrow> (\<forall>x \<in> set xs. encode x = Inr (enc x)) \<and> bs = map enc xs"
proof (induction xs arbitrary: bs)
  case (Cons x xs)
  show ?case
  proof (cases "encode x")
    case (Inr b)
    then have e: "enc x = b" by (rule encode_enc)
    show ?thesis
      using Inr e Cons.IH [of "map enc xs"] Cons.IH by (cases "encode_items xs") auto
  qed simp
qed auto

lemma encode_members_Inr:
  "encode_members ms = Inr ps \<longleftrightarrow>
     (\<forall>kv \<in> set ms. valid_utf8 (fst kv) \<and> encode (snd kv) = Inr (enc (snd kv))) \<and>
     ps = map (\<lambda>kv. (str_bytes (fst kv), enc (snd kv))) ms"
proof (induction ms arbitrary: ps)
  case (Cons kv ms)
  let ?f = "\<lambda>kv. (str_bytes (fst kv), enc (snd kv))"
  obtain k v where kv: "kv = (k, v)" by (cases kv)
  show ?case
  proof (cases "encode v")
    case (Inr b)
    then have e: "enc v = b" by (rule encode_enc)
    show ?thesis unfolding kv
      using Inr e Cons.IH [of "map ?f ms"] Cons.IH
      by (cases "encode_members ms") (auto simp: encode_str_def)
  qed (simp add: kv encode_str_def)
qed auto

lemma encode_JObject_Inr:
  assumes "encode (JObject ms) = Inr b"
  defines "sm \<equiv> sort_key (\<lambda>kv. str_bytes (fst kv)) ms"
  shows "\<forall>kv \<in> set ms. valid_utf8 (fst kv) \<and> encode (snd kv) = Inr (enc (snd kv))"
    and "\<not> adjacent_dup (map (\<lambda>kv. str_bytes (fst kv)) sm)"
    and "b = map_bytes (map (\<lambda>kv. (str_bytes (fst kv), enc (snd kv))) sm)"
proof -
  from assms(1) obtain ps where ps: "encode_members ms = Inr ps" "encode_map ps = Inr b"
    by (auto split: sum.splits)
  from ps(1) show "\<forall>kv \<in> set ms. valid_utf8 (fst kv) \<and> encode (snd kv) = Inr (enc (snd kv))"
    by (simp add: encode_members_Inr)
  have "ps = map (\<lambda>kv. (str_bytes (fst kv), enc (snd kv))) ms"
    using ps(1) by (simp add: encode_members_Inr)
  then have srt: "sort_key fst ps = map (\<lambda>kv. (str_bytes (fst kv), enc (snd kv))) sm"
    by (simp add: sort_key_map sm_def o_def)
  show "\<not> adjacent_dup (map (\<lambda>kv. str_bytes (fst kv)) sm)"
    using ps(2) by (simp add: encode_map_def srt o_def Let_def split: if_splits)
  show "b = map_bytes (map (\<lambda>kv. (str_bytes (fst kv), enc (snd kv))) sm)"
    using ps(2) by (simp add: encode_map_def srt Let_def split: if_splits)
qed

section \<open>Lengths\<close>

lemma str_bytes_length: "2 \<le> length (str_bytes s)"
  using put_uvarint_nonempty [of "word_of_nat (length s)"]
  by (cases "put_uvarint (word_of_nat (length s))") (auto simp: str_bytes_def put_size_def)

lemma encode_nonempty: "encode v = Inr b \<Longrightarrow> 1 \<le> length b"
proof (induction v arbitrary: b)
  case (JNumber x)
  then show ?case by (auto simp: encode_number_def encode_int_def split: if_splits)
next
  case (JString s)
  then show ?case using str_bytes_length [of s] by (auto simp: encode_str_def split: if_splits)
next
  case (JArray xs)
  then show ?case by (auto simp: encode_seq_def split: sum.splits)
next
  case (JObject ms)
  then show ?case using encode_JObject_Inr(3) [of ms b] by (simp add: map_bytes_def)
qed auto

lemma length_le_concat: "\<forall>x \<in> set xs. n \<le> length x \<Longrightarrow> n * length xs \<le> length (concat xs)"
  by (induction xs) auto

lemma unat_put_size: "n < 2 ^ 64 \<Longrightarrow> unat (word_of_nat n :: 64 word) = n"
  by (rule unat_word_of_nat) simp

lemma read_count_put_size:
  "n < 2 ^ 64 \<Longrightarrow> n \<le> length b div per \<Longrightarrow> read_count per (put_size n @ b) = Some (n, b)"
  by (simp add: read_count_def put_size_def unat_put_size)

section \<open>Decoding what was encoded\<close>

lemma be64_step:
  "push_bit 8 (drop_bit (8 + j) v) OR ucast (ucast (drop_bit j v AND 0xFF) :: byte) = drop_bit j (v :: 64 word)"
proof (rule bit_word_eqI)
  fix i assume i: "i < LENGTH(64)"
  have m: "(0xFF :: 64 word) = mask 8" by (simp add: mask_eq_exp_minus_1)
  show "bit (push_bit 8 (drop_bit (8 + j) v) OR ucast (ucast (drop_bit j v AND 0xFF) :: byte)) i
    \<longleftrightarrow> bit (drop_bit j v) i"
    using i unfolding m
    by (cases "i < 8") (auto simp: bit_simps ac_simps)
qed

lemma be64_float_bytes [simp]: "be64 (float_bytes v) = v"
proof -
  define B where "B j = (ucast (ucast (drop_bit j v AND 0xFF) :: byte) :: 64 word)" for j
  have step: "push_bit 8 (drop_bit k v) OR B j = drop_bit j v" if "k = 8 + j" for j k
    unfolding B_def that by (rule be64_step)
  have z: "0 = drop_bit 64 v" by (rule bit_word_eqI) (auto simp: bit_simps)
  have "be64 (float_bytes v) =
    push_bit 8 (push_bit 8 (push_bit 8 (push_bit 8 (push_bit 8 (push_bit 8 (push_bit 8 (push_bit 8 0
      OR B (7 * 8)) OR B (6 * 8)) OR B (5 * 8)) OR B (4 * 8)) OR B (3 * 8)) OR B (2 * 8)) OR B (1 * 8))
      OR B (0 * 8)"
    by (simp only: be64_def float_bytes_def list.map foldl.simps B_def)
  also have "\<dots> = v"
    unfolding z
    by (simp only: step [of 64 "7 * 8"] step [of "7 * 8" "6 * 8"] step [of "6 * 8" "5 * 8"]
        step [of "5 * 8" "4 * 8"] step [of "4 * 8" "3 * 8"] step [of "3 * 8" "2 * 8"]
        step [of "2 * 8" "1 * 8"] step [of "1 * 8" "0 * 8"]) simp
  finally show ?thesis .
qed

lemma length_float_bytes [simp]: "length (float_bytes v) = 8"
  by (simp add: float_bytes_def)


lemma decode_leaf_str:
  "nul_free s \<Longrightarrow> length s < 2 ^ 64 \<Longrightarrow>
   decode_at (Suc r) (str_bytes s @ rest) = Some (JString s, rest)"
  by (simp add: str_bytes_def kStr_def decode_leaf_def put_size_def unat_put_size mk_string_def)

lemma encode_number_cases:
  assumes "encode_number x = Inr b"
  obtains "folds_to_int x" "b = encode_int (word_of_int (dbl_trunc x))"
  | "\<not> folds_to_int x" "b = kFloat # float_bytes x"
  using assms by (auto simp: encode_number_def split: if_splits)

lemma folds_to_int_range: "folds_to_int x \<Longrightarrow> \<bar>dbl_trunc x\<bar> < 2 ^ 53"
  using dbl_abs_trunc_lt(1) [of x] by (auto simp: folds_to_int_def dbl_trunc_def)

lemma sint_small: "\<bar>n\<bar> < 2 ^ 53 \<Longrightarrow> sint (word_of_int n :: 64 word) = n"
  by (rule signed_of_int [THEN trans]) (auto simp: signed_take_bit_int_eq_self)

lemma decode_leaf_number:
  assumes "encode_number x = Inr b"
  shows "decode_at (Suc r) (b @ rest) = Some (canon_json (JNumber x), rest)"
  using assms
proof (cases rule: encode_number_cases)
  case 1
  define w where "w = (word_of_int (dbl_trunc x) :: 64 word)"
  have "sint w = dbl_trunc x" unfolding w_def using 1(1) by (intro sint_small folds_to_int_range)
  with 1 show ?thesis
    by (simp add: encode_int_def kInt_def decode_leaf_def flip: w_def)
next
  case 2
  then show ?thesis by (simp add: kFloat_def decode_leaf_def)
qed

lemma decode_leaf_plain:
  "b = [kNull] \<Longrightarrow> decode_at (Suc r) (b @ rest) = Some (JNull, rest)"
  "b = [kFalse] \<Longrightarrow> decode_at (Suc r) (b @ rest) = Some (JFalse, rest)"
  "b = [kTrue] \<Longrightarrow> decode_at (Suc r) (b @ rest) = Some (JTrue, rest)"
  by (auto simp: tag_defs decode_leaf_def)

lemma decode_items_map:
  "(\<And>x rest. x \<in> set xs \<Longrightarrow> decode_at r (enc x @ rest) = Some (f x, rest)) \<Longrightarrow>
   decode_items r (length xs) (concat (map enc xs) @ rest) = Some (map f xs, rest)"
  by (induction xs) auto

lemma decode_members_map:
  "(\<And>kv rest. kv \<in> set ms \<Longrightarrow> nul_free (fst kv) \<and>
      decode_at r (str_bytes (fst kv) @ rest) = Some (JString (fst kv), rest) \<and>
      decode_at r (enc (snd kv) @ rest) = Some (f (snd kv), rest)) \<Longrightarrow>
   decode_members r (length ms) (concat (map (\<lambda>kv. str_bytes (fst kv) @ enc (snd kv)) ms) @ rest)
   = Some (map (\<lambda>kv. (fst kv, f (snd kv))) ms, rest)"
  by (induction ms) auto

lemma length_concat_mem: "x \<in> set xs \<Longrightarrow> length (f x) \<le> length (concat (map f xs))"
  by (induction xs) auto

lemma set_sort_key_mem: "kv \<in> set (sort_key f ms) \<longleftrightarrow> kv \<in> set ms"
  by simp

lemma decode_encode_at:
  "encode v = Inr b \<Longrightarrow> json_wf v \<Longrightarrow> json_depth v < r \<Longrightarrow> length b < 2 ^ 64 \<Longrightarrow>
   decode_at r (b @ rest) = Some (canon_json v, rest)"
proof (induction v arbitrary: b r rest)
  case (JNumber x)
  then obtain r' where "r = Suc r'" by (cases r) auto
  with JNumber show ?case by (simp only: encode.simps decode_leaf_number)
next
  case (JString s)
  then obtain r' where "r = Suc r'" by (cases r) auto
  moreover have "b = str_bytes s" using JString.prems by (auto simp: encode_str_def split: if_splits)
  moreover from this have "length s < 2 ^ 64" using JString.prems by (simp add: str_bytes_def)
  ultimately show ?case using JString.prems by (simp add: decode_leaf_str)
next
  case (JArray xs)
  from JArray.prems(3) obtain r' where r: "r = Suc r'" by (cases r) auto
  from JArray.prems(1) have e: "\<forall>x \<in> set xs. encode x = Inr (enc x)"
    and b: "b = kSeq # put_size (length xs) @ concat (map enc xs)"
    by (auto simp: encode_items_Inr encode_seq_def split: sum.splits)
  have len: "length (concat (map enc xs)) < 2 ^ 64" using JArray.prems(4) b by simp
  have cnt: "length xs \<le> length (concat (map enc xs))"
    using length_le_concat [of "map enc xs" 1] encode_nonempty e by auto
  have depth: "Suc (json_depth x) \<le> r'" if "x \<in> set xs" for x
    using JArray.prems(3) that json_depth_JArray_le [of xs r'] unfolding r by auto
  have "decode_at r' (enc x @ rest) = Some (canon_json x, rest)" if "x \<in> set xs" for x rest
    using that e JArray.prems(2) depth [OF that] length_concat_mem [OF that, of enc] len
    by (intro JArray.IH) auto
  then have "decode_items r' (length xs) (concat (map enc xs) @ rest) = Some (map canon_json xs, rest)"
    by (rule decode_items_map)
  moreover have "read_count 1 (put_size (length xs) @ concat (map enc xs) @ rest)
      = Some (length xs, concat (map enc xs) @ rest)"
    using cnt len by (intro read_count_put_size) auto
  ultimately show ?case unfolding r b by (simp add: kSeq_def)
next
  case (JObject ms)
  from JObject.prems(3) obtain r' where r: "r = Suc r'" by (cases r) auto
  define sm where "sm = sort_key (\<lambda>kv. str_bytes (fst kv)) ms"
  let ?w = "\<lambda>kv. str_bytes (fst kv) @ enc (snd kv)"
  note enc_ms = encode_JObject_Inr [OF JObject.prems(1), folded sm_def]
  have b: "b = kMap # put_size (length sm) @ concat (map ?w sm)"
    using enc_ms(3) by (simp add: map_bytes_def o_def)
  have len: "length (concat (map ?w sm)) < 2 ^ 64" using JObject.prems(4) b by simp
  have "2 \<le> length (?w kv)" for kv using str_bytes_length [of "fst kv"] by simp
  then have cnt: "2 * length sm \<le> length (concat (map ?w sm))"
    using length_le_concat [of "map ?w sm" 2] by simp
  have mem: "kv \<in> set ms" if "kv \<in> set sm" for kv using that by (simp add: sm_def)
  have depth: "Suc (json_depth (snd kv)) \<le> r'" if "kv \<in> set sm" for kv
    using JObject.prems(3) mem [OF that] json_depth_JObject_le [of ms r'] unfolding r by auto
  have each: "nul_free (fst kv) \<and>
      decode_at r' (str_bytes (fst kv) @ rest) = Some (JString (fst kv), rest) \<and>
      decode_at r' (enc (snd kv) @ rest) = Some (canon_json (snd kv), rest)" if kv: "kv \<in> set sm" for kv rest
  proof -
    have wf: "nul_free (fst kv)" "json_wf (snd kv)" using JObject.prems(2) mem [OF kv] by auto
    have l: "length (?w kv) < 2 ^ 64" using length_concat_mem [OF kv, of ?w] len by linarith
    then have "length (fst kv) < 2 ^ 64" "length (enc (snd kv)) < 2 ^ 64"
      by (auto simp: str_bytes_def)
    moreover obtain q where "r' = Suc q" using depth [OF kv] by (cases r') auto
    moreover have "snd kv \<in> Basic_BNFs.snds kv" by (cases kv) simp
    ultimately show ?thesis
      using wf depth [OF kv] enc_ms(1) mem [OF kv] decode_leaf_str [of "fst kv" q rest]
        JObject.IH [OF mem [OF kv], of "snd kv" "enc (snd kv)" r' rest]
      by auto
  qed
  have "decode_members r' (length sm) (concat (map ?w sm) @ rest)
      = Some (map (\<lambda>kv. (fst kv, canon_json (snd kv))) sm, rest)"
    by (rule decode_members_map) (rule each)
  moreover have "read_count 2 (put_size (length sm) @ concat (map ?w sm) @ rest)
      = Some (length sm, concat (map ?w sm) @ rest)"
    using cnt len by (intro read_count_put_size) auto
  moreover have "canon_json (JObject ms) = JObject (map (\<lambda>kv. (fst kv, canon_json (snd kv))) sm)"
    by (simp add: sm_def sort_key_map case_prod_beta)
  ultimately show ?case unfolding r b by (simp add: kMap_def del: canon_json.simps)
next
  case JNull
  then show ?case by (cases r) (simp_all add: decode_leaf_plain)
next
  case JFalse
  then show ?case by (cases r) (simp_all add: decode_leaf_plain)
next
  case JTrue
  then show ?case by (cases r) (simp_all add: decode_leaf_plain)
next
  case (JRaw s)
  then show ?case by simp
qed

section \<open>The normal form has the same bytes\<close>

lemma folds_to_int_normal:
  assumes "folds_to_int x"
  shows "folds_to_int (dbl_of_int (dbl_trunc x))"
    and "dbl_trunc (dbl_of_int (dbl_trunc x)) = dbl_trunc x"
  using dbl_of_int_exact [OF folds_to_int_range [OF assms]] by (simp_all add: folds_to_int_def)

lemma encode_number_normal:
  assumes "encode_number x = Inr b" "folds_to_int x"
  shows "encode_number (dbl_of_int (dbl_trunc x)) = Inr b"
  using assms folds_to_int_normal [OF assms(2)] dbl_of_int_exact [OF folds_to_int_range [OF assms(2)]]
  by (simp add: encode_number_def split: if_splits)

lemma encode_encI: "encode v = Inr b \<Longrightarrow> encode v = Inr (enc v)"
  by (simp add: enc_def)

lemma encode_canon_json: "encode v = Inr b \<Longrightarrow> encode (canon_json v) = Inr b"
proof (induction v arbitrary: b)
  case (JNumber x)
  then show ?case by (auto simp: encode_number_normal)
next
  case (JArray xs)
  from JArray.prems have e: "\<forall>x \<in> set xs. encode x = Inr (enc x)"
    and b: "b = encode_seq (map enc xs)"
    by (auto simp: encode_items_Inr split: sum.splits)
  have c: "encode (canon_json x) = Inr (enc x)" if "x \<in> set xs" for x
    using JArray.IH that e by simp
  have "encode_items (map canon_json xs) = Inr (map enc xs)"
    unfolding encode_items_Inr by (auto simp: c enc_def [of "canon_json _"])
  then show ?case by (simp add: b)
next
  case (JObject ms)
  define sm where "sm = sort_key (\<lambda>kv. str_bytes (fst kv)) ms"
  note e = encode_JObject_Inr [OF JObject.prems, folded sm_def]
  let ?cs = "map (\<lambda>kv. (fst kv, canon_json (snd kv))) sm"
  let ?ps = "map (\<lambda>kv. (str_bytes (fst kv), enc (snd kv))) sm"
  have c: "encode (canon_json (snd kv)) = Inr (enc (snd kv))" if "kv \<in> set ms" for kv
    using that e(1) by (intro JObject.IH [of kv "snd kv"]) (auto simp: snds.simps intro: prod.collapse)
  have cj: "canon_json (JObject ms) = JObject ?cs"
    by (simp add: sm_def sort_key_map case_prod_beta)
  have "encode_members ?cs = Inr ?ps"
    unfolding encode_members_Inr using e(1) c by (auto simp: sm_def enc_def [of "canon_json _"])
  moreover have "sort_key fst ?ps = ?ps" by (rule sort_key_sorted) (simp add: sm_def o_def)
  ultimately show ?case
    unfolding cj using e(2) by (simp add: encode_map_def Let_def o_def e(3))
qed auto

section \<open>What a decoder accepts\<close>

lemma read_varint_loop_consumes:
  "read_varint_loop k v b = Some (n, rest) \<Longrightarrow> length rest < length b"
  by (induction k v b rule: read_varint_loop.induct)
     (force simp: read_varint_loop.simps(2) Let_def split: if_splits)+

lemma read_varint_consumes: "read_varint b = Some (n, rest) \<Longrightarrow> length rest < length b"
  by (simp add: read_varint_def read_varint_loop_consumes)

lemma read_count_bound:
  "read_count per b = Some (n, rest) \<Longrightarrow> length rest < length b \<and> n \<le> length rest div per"
  by (auto simp: read_count_def dest!: read_varint_consumes split: option.splits if_splits)

lemma decode_leaf_sound:
  "decode_leaf tag b = Some (v, rest) \<Longrightarrow>
   json_wf v \<and> json_depth v = 0 \<and> json_nodes v = 1 \<and> length rest \<le> length b"
  by (auto simp: decode_leaf_def mk_string_def dest!: read_varint_consumes split: if_splits option.splits)

lemma as_string_Some: "as_string (Some v) = Some s \<longleftrightarrow> v = JString s"
  by (cases v) auto

lemma decode_at_sound:
  "decode_at r b = Some (v, rest) \<Longrightarrow>
     json_wf v \<and> json_depth v < r \<and> json_nodes v + length rest \<le> length b"
  "decode_items r n b = Some (xs, rest) \<Longrightarrow>
     (\<forall>x \<in> set xs. json_wf x \<and> json_depth x < r) \<and> length xs = n \<and>
     sum_list (map json_nodes xs) + length rest \<le> length b"
  "decode_members r n b = Some (ms, rest) \<Longrightarrow>
     (\<forall>kv \<in> set ms. nul_free (fst kv) \<and> json_wf (snd kv) \<and> json_depth (snd kv) < r) \<and> length ms = n \<and>
     sum_list (map (\<lambda>kv. Suc (json_nodes (snd kv))) ms) + length rest \<le> length b"
proof (induction r b and r n b and r n b arbitrary: v rest and xs rest and ms rest
    rule: decode_at_decode_items_decode_members.induct)
  case (3 r tag b)
  show ?case
  proof (cases "tag = 0x07 \<or> tag = 0x09")
    case True
    with "3.prems" obtain n b' xs where
      n: "read_count 1 b = Some (n, b')" and xs: "decode_items r n b' = Some (xs, rest)" "v = JArray xs"
      by (auto split: option.splits)
    with "3.IH"(1) [OF True n refl xs(1)] read_count_bound [OF n] show ?thesis
      using json_depth_JArray_le [of xs r] by (auto simp: Suc_le_eq less_Suc_eq_le simp del: json_depth.simps)
  next
    case F: False
    show ?thesis
    proof (cases "tag = 0x08")
      case True
      with F "3.prems" obtain n b' ms where
        n: "read_count 2 b = Some (n, b')" and ms: "decode_members r n b' = Some (ms, rest)" "v = JObject ms"
        by (auto split: option.splits)
      with "3.IH"(2) [OF F True n refl ms(1)] read_count_bound [OF n] show ?thesis
        using json_depth_JObject_le [of ms r] by (auto simp: Suc_le_eq less_Suc_eq_le simp del: json_depth.simps)
    next
      case False
      with F "3.prems" show ?thesis by (auto dest!: decode_leaf_sound)
    qed
  qed
next
  case (5 r n b)
  then show ?case by (fastforce split: option.splits)
next
  case (7 r n b)
  then obtain k b1 v b2 ms' where d:
    "decode_at r b = Some (JString k, b1)" "decode_at r b1 = Some (v, b2)"
    "decode_members r n b2 = Some (ms', rest)" "ms = (c_str k, v) # ms'"
    by (auto simp: as_string_Some split: option.splits)
  have "decode_at r b = Some (JString k, b1) \<Longrightarrow> 1 + length b1 \<le> length b"
    using "7.IH"(1) by fastforce
  with "7.IH"(2) [OF d(1) refl _ d(2)] "7.IH"(3) [OF d(1) refl _ d(2) refl d(3)] d
  show ?case by auto
qed auto

text \<open>C21. Decoding the canonical bytes of a value gives its normal form.\<close>

theorem decode_encode:
  assumes "encode v = Inr b" "json_wf v" "json_depth v \<le> kMaxDepth" "length b < 2 ^ 64"
  shows "decode b = Some (canon_json v)"
  using decode_encode_at [of v b "kMaxDepth + 1" "[]"] assms by (simp add: decode_def)


text \<open>Is_canonical accepts exactly the bytes some value encodes to.\<close>

theorem is_canonical_iff:
  assumes "length b < 2 ^ 64"
  shows "is_canonical b \<longleftrightarrow> (\<exists>v. json_wf v \<and> json_depth v \<le> kMaxDepth \<and> encode v = Inr b)"
proof
  assume "is_canonical b"
  then obtain v where v: "decode b = Some v" "encode v = Inr b"
    by (auto simp: is_canonical_def split: option.splits sum.splits)
  with decode_at_sound(1) [of "kMaxDepth + 1" b v "[]"]
  show "\<exists>v. json_wf v \<and> json_depth v \<le> kMaxDepth \<and> encode v = Inr b"
    by (auto simp: decode_def less_Suc_eq_le split: option.splits prod.splits if_splits)
next
  assume "\<exists>v. json_wf v \<and> json_depth v \<le> kMaxDepth \<and> encode v = Inr b"
  then obtain v where v: "json_wf v" "json_depth v \<le> kMaxDepth" "encode v = Inr b" by blast
  then have "decode b = Some (canon_json v)"
    using decode_encode_at [of v b "kMaxDepth + 1" "[]"] assms by (simp add: decode_def)
  then show "is_canonical b" using encode_canon_json [OF v(3)] by (simp add: is_canonical_def)
qed

lemma encode_canon_inject:
  assumes "encode v = Inr b" "encode w = Inr b" "json_wf v" "json_wf w"
    "json_depth v \<le> kMaxDepth" "json_depth w \<le> kMaxDepth" "length b < 2 ^ 64"
  shows "canon_json v = canon_json w"
  using decode_encode_at [of v b "kMaxDepth + 1" "[]"] decode_encode_at [of w b "kMaxDepth + 1" "[]"] assms
  by simp

text \<open>Equal bytes name equal values, up to the normal form.\<close>

theorem encode_inject:
  assumes "encode v = Inr b" "encode w = Inr b" "json_wf v" "json_wf w"
    "json_depth v \<le> kMaxDepth" "json_depth w \<le> kMaxDepth" "length b < 2 ^ 64"
  shows "canon_json v = canon_json w"
  using assms by (rule encode_canon_inject)

section \<open>At concrete inputs\<close>

theorem decode_encode_witness:
  "decode [8, 2, 5, 1, 0x61, 7, 2, 0, 5, 1, 0x78, 5, 1, 0x62, 2] =
     Some (JObject [(ascii ''a'', JArray [JNull, JString (ascii ''x'')]), (ascii ''b'', JTrue)])"
proof -
  let ?v = "JObject [(ascii ''b'', JTrue), (ascii ''a'', JArray [JNull, JString (ascii ''x'')])]"
  have "encode ?v = Inr [8, 2, 5, 1, 0x61, 7, 2, 0, 5, 1, 0x78, 5, 1, 0x62, 2]" by code_simp
  moreover have "json_wf ?v" by code_simp
  moreover have "json_depth ?v \<le> kMaxDepth" by (simp add: kMaxDepth_def)
  ultimately have "decode [8, 2, 5, 1, 0x61, 7, 2, 0, 5, 1, 0x78, 5, 1, 0x62, 2] = Some (canon_json ?v)"
    by (rule decode_encode) simp
  moreover have "canon_json ?v = JObject [(ascii ''a'', JArray [JNull, JString (ascii ''x'')]), (ascii ''b'', JTrue)]"
    by code_simp
  ultimately show ?thesis by simp
qed


theorem is_canonical_iff_witness:
  "is_canonical [7, 2, 0, 1] \<longleftrightarrow> (\<exists>v. json_wf v \<and> json_depth v \<le> kMaxDepth \<and> encode v = Inr [7, 2, 0, 1])"
  by (rule is_canonical_iff) simp

theorem encode_inject_witness:
  "canon_json (JObject [(ascii ''a'', JTrue), (ascii ''b'', JFalse)]) =
   canon_json (JObject [(ascii ''b'', JFalse), (ascii ''a'', JTrue)])"
proof -
  let ?b = "[8, 2, 5, 1, 0x61, 2, 5, 1, 0x62, 1] :: bytes"
  have "encode (JObject [(ascii ''a'', JTrue), (ascii ''b'', JFalse)]) = Inr ?b" by code_simp
  moreover have "encode (JObject [(ascii ''b'', JFalse), (ascii ''a'', JTrue)]) = Inr ?b" by code_simp
  ultimately show ?thesis
    by (rule encode_inject) (simp_all add: kMaxDepth_def nul_free_ascii)
qed

end
