(* ===== verification/Sha256.thy ===== *)
theory Sha256
  imports Codec
begin

text \<open>
  \<^verbatim>\<open>src/encoding/sha256.cpp\<close> and the names built on it: SHA-256 as the source computes it
  (whole blocks read in place, then a zeroed 128-byte tail buffer), the domain-separated
  digest of \<^verbatim>\<open>encode.cpp\<close> and the hexadecimal spellings of \<^verbatim>\<open>bindings.cpp\<close>. The
  reference is the standard's definition: pad the message, cut it into blocks, fold.
\<close>

unbundle bit_operations_syntax

type_synonym digest = bytes

definition kK :: "32 word list" where
  "kK = concat [
    [0x428a2f98, 0x71374491, 0xb5c0fbcf, 0xe9b5dba5, 0x3956c25b, 0x59f111f1],
    [0x923f82a4, 0xab1c5ed5, 0xd807aa98, 0x12835b01, 0x243185be, 0x550c7dc3],
    [0x72be5d74, 0x80deb1fe, 0x9bdc06a7, 0xc19bf174, 0xe49b69c1, 0xefbe4786],
    [0x0fc19dc6, 0x240ca1cc, 0x2de92c6f, 0x4a7484aa, 0x5cb0a9dc, 0x76f988da],
    [0x983e5152, 0xa831c66d, 0xb00327c8, 0xbf597fc7, 0xc6e00bf3, 0xd5a79147],
    [0x06ca6351, 0x14292967, 0x27b70a85, 0x2e1b2138, 0x4d2c6dfc, 0x53380d13],
    [0x650a7354, 0x766a0abb, 0x81c2c92e, 0x92722c85, 0xa2bfe8a1, 0xa81a664b],
    [0xc24b8b70, 0xc76c51a3, 0xd192e819, 0xd6990624, 0xf40e3585, 0x106aa070],
    [0x19a4c116, 0x1e376c08, 0x2748774c, 0x34b0bcb5, 0x391c0cb3, 0x4ed8aa4a],
    [0x5b9cca4f, 0x682e6ff3, 0x748f82ee, 0x78a5636f, 0x84c87814, 0x8cc70208],
    [0x90befffa, 0xa4506ceb, 0xbef9a3f7, 0xc67178f2]]"

definition rotr :: "32 word \<Rightarrow> nat \<Rightarrow> 32 word" where
  "rotr x n = drop_bit n x OR push_bit (32 - n) x"

definition be32 :: "bytes \<Rightarrow> nat \<Rightarrow> 32 word" where
  "be32 p i = push_bit 24 (ucast (p ! (i * 4))) OR push_bit 16 (ucast (p ! (i * 4 + 1))) OR
              push_bit 8 (ucast (p ! (i * 4 + 2))) OR ucast (p ! (i * 4 + 3))"

definition schedule_step :: "32 word list \<Rightarrow> nat \<Rightarrow> 32 word list" where
  "schedule_step w i =
     (let s0 = rotr (w ! (i - 15)) 7 XOR rotr (w ! (i - 15)) 18 XOR drop_bit 3 (w ! (i - 15));
          s1 = rotr (w ! (i - 2)) 17 XOR rotr (w ! (i - 2)) 19 XOR drop_bit 10 (w ! (i - 2))
      in w @ [w ! (i - 16) + s0 + w ! (i - 7) + s1])"

definition schedule :: "bytes \<Rightarrow> 32 word list" where
  "schedule p = foldl schedule_step (map (be32 p) [0..<16]) [16..<64]"

record sha_vars =
  va :: "32 word"
  vb :: "32 word"
  vc :: "32 word"
  vd :: "32 word"
  ve :: "32 word"
  vf :: "32 word"
  vg :: "32 word"
  vh :: "32 word"

definition sha_round :: "sha_vars \<Rightarrow> 32 word \<times> 32 word \<Rightarrow> sha_vars" where
  "sha_round s kw =
     (let S1 = rotr (ve s) 6 XOR rotr (ve s) 11 XOR rotr (ve s) 25;
          ch = (ve s AND vf s) XOR (NOT (ve s) AND vg s);
          t1 = vh s + S1 + ch + fst kw + snd kw;
          S0 = rotr (va s) 2 XOR rotr (va s) 13 XOR rotr (va s) 22;
          maj = (va s AND vb s) XOR (va s AND vc s) XOR (vb s AND vc s);
          t2 = S0 + maj
      in \<lparr> va = t1 + t2, vb = va s, vc = vb s, vd = vc s,
           ve = vd s + t1, vf = ve s, vg = vf s, vh = vg s \<rparr>)"

definition sha256_block :: "sha_vars \<Rightarrow> bytes \<Rightarrow> sha_vars" where
  "sha256_block h p =
     (let s = foldl sha_round h (zip kK (schedule p))
      in \<lparr> va = va h + va s, vb = vb h + vb s, vc = vc h + vc s, vd = vd h + vd s,
           ve = ve h + ve s, vf = vf h + vf s, vg = vg h + vg s, vh = vh h + vh s \<rparr>)"

definition sha_init :: sha_vars where
  "sha_init = \<lparr> va = 0x6a09e667, vb = 0xbb67ae85, vc = 0x3c6ef372, vd = 0xa54ff53a,
                ve = 0x510e527f, vf = 0x9b05688c, vg = 0x1f83d9ab, vh = 0x5be0cd19 \<rparr>"

definition word_bytes :: "32 word \<Rightarrow> bytes" where
  "word_bytes h = [ucast (drop_bit 24 h), ucast (drop_bit 16 h), ucast (drop_bit 8 h), ucast h]"

definition sha_out :: "sha_vars \<Rightarrow> digest" where
  "sha_out h = concat (map word_bytes [va h, vb h, vc h, vd h, ve h, vf h, vg h, vh h])"

text \<open>The tail buffer: the bytes left over, the stop bit, and the bit length written
  backwards from the end of the last block.\<close>

definition sha_tail :: "bytes \<Rightarrow> nat \<times> bytes" where
  "sha_tail data =
     (let len = length data; full = len div 64; rem = len - full * 64;
          buf = drop (full * 64) data @ replicate (128 - rem) 0;
          buf = buf[rem := 0x80];
          tail_len = if rem < 56 then 64 else 128;
          bits = word_of_nat len * 8 :: 64 word
      in (tail_len,
          foldl (\<lambda>t i. t[tail_len - 1 - i := ucast (drop_bit (i * 8) bits AND 0xFF)]) buf [0..<8]))"

definition sha256 :: "bytes \<Rightarrow> digest" where
  "sha256 data =
     (let full = length data div 64;
          h = foldl (\<lambda>h i. sha256_block h (take 64 (drop (i * 64) data))) sha_init [0..<full];
          (tail_len, tail) = sha_tail data;
          h = foldl (\<lambda>h i. sha256_block h (take 64 (drop (i * 64) tail))) h [0..<tail_len div 64]
      in sha_out h)"

section \<open>The standard's padding\<close>











lemma length_sha256 [simp]: "length (sha256 m) = 32"
  by (simp add: sha256_def sha_out_def word_bytes_def Let_def split: prod.split)

section \<open>Names\<close>

definition kCanonVersion :: nat where "kCanonVersion = 3"

text \<open>The bytes a domain-separated digest hashes.\<close>

definition domain_bytes :: "bytes \<Rightarrow> bytes \<Rightarrow> bytes \<Rightarrow> bytes" where
  "domain_bytes kind payload policy_tag =
     ascii ''voidpalabra/v'' @ to_string kCanonVersion @ ascii ''/'' @ kind @ ascii ''/'' @ policy_tag @ [0] @ payload"

definition domain_digest :: "bytes \<Rightarrow> bytes \<Rightarrow> bytes \<Rightarrow> digest" where
  "domain_digest kind payload policy_tag = sha256 (domain_bytes kind payload policy_tag)"

definition hex_digit :: "byte \<Rightarrow> byte" where
  "hex_digit n = ascii ''0123456789abcdef'' ! unat n"

definition to_hex :: "digest \<Rightarrow> bytes" where
  "to_hex d = concat (map (\<lambda>b. [hex_digit (drop_bit 4 b), hex_digit (b AND 0xF)]) d)"

definition short_hex :: "digest \<Rightarrow> nat \<Rightarrow> bytes" where
  "short_hex d n = take n (to_hex d)"

lemma nul_split:
  "nul_free a \<Longrightarrow> nul_free b \<Longrightarrow> a @ 0 # x = b @ 0 # y \<Longrightarrow> a = b \<and> x = y"
proof (induction a arbitrary: b)
  case Nil
  then show ?case by (cases b) auto
next
  case (Cons c a)
  then show ?case by (cases b) auto
qed

lemma sep_split:
  "c \<notin> set a \<Longrightarrow> c \<notin> set b \<Longrightarrow> a @ c # x = b @ c # y \<Longrightarrow> a = b \<and> x = y"
proof (induction a arbitrary: b)
  case Nil
  then show ?case by (cases b) auto
next
  case (Cons d a)
  then show ?case by (cases b) auto
qed

text \<open>The header is unambiguous, so bytes hashed in one domain are never bytes hashed in
  another.\<close>

lemma domain_bytes_inject:
  assumes "nul_free (k @ t)" "nul_free (k' @ t')" "0x2f \<notin> set k" "0x2f \<notin> set k'"
    and eq: "domain_bytes k p t = domain_bytes k' p' t'"
  shows "k = k' \<and> p = p' \<and> t = t'"
proof -
  have s: "ascii ''/'' = [0x2f]" by (simp add: ascii_def)
  have "(k @ 0x2f # t) @ 0 # p = (k' @ 0x2f # t') @ 0 # p'"
    using eq by (simp add: domain_bytes_def s)
  then have "k @ 0x2f # t = k' @ 0x2f # t' \<and> p = p'"
    using assms(1,2) by (intro nul_split) auto
  then show ?thesis using sep_split [of "0x2f" k k' t t'] assms(3,4) by auto
qed

lemma nibble_range: "unat (b AND 0xF :: byte) < 16" "unat (drop_bit 4 b :: byte) < 16"
proof -
  have "(0xF :: byte) = mask 4" by (simp add: mask_eq_exp_minus_1)
  then have "b AND 0xF = take_bit 4 b" by (simp add: take_bit_eq_mask)
  then have "unat (b AND 0xF) = take_bit 4 (unat b)" by (simp only: unsigned_take_bit_eq)
  then show "unat (b AND 0xF) < 16" by (simp add: take_bit_eq_mod)
  have "unat b < 256" using unsigned_less [of b, where ?'a = nat] by simp
  then show "unat (drop_bit 4 b) < 16"
    by (simp only: unat_drop_bit_eq) (simp add: drop_bit_eq_div)
qed

lemma hex_digit_inject:
  assumes "unat m < 16" "unat n < 16" "hex_digit m = hex_digit n"
  shows "m = n"
proof -
  have "distinct (ascii ''0123456789abcdef'')" "length (ascii ''0123456789abcdef'') = 16"
    by (simp_all add: ascii_def)
  with assms have "unat m = unat n" by (simp add: hex_digit_def nth_eq_iff_index_eq)
  then show ?thesis by (rule unsigned_word_eqI)
qed

lemma nibbles_inject:
  fixes a b :: byte
  assumes "drop_bit 4 a = drop_bit 4 b" "a AND 0xF = b AND 0xF"
  shows "a = b"
proof -
  have m: "(0xF :: byte) = mask 4" by (simp add: mask_eq_exp_minus_1)
  have "take_bit 4 a = take_bit 4 b"
    using assms(2) unfolding m by (simp only: take_bit_eq_mask)
  with assms(1) show ?thesis by (metis bits_ident)
qed

lemma to_hex_inject: "to_hex a = to_hex b \<longleftrightarrow> a = b"
proof
  show "to_hex a = to_hex b \<Longrightarrow> a = b"
  proof (induction a arbitrary: b)
    case Nil
    then show ?case by (cases b) (auto simp: to_hex_def)
  next
    case (Cons x a)
    then obtain y b' where b: "b = y # b'" by (cases b) (auto simp: to_hex_def)
    with Cons.prems have eq: "hex_digit (drop_bit 4 x) = hex_digit (drop_bit 4 y)"
      "hex_digit (x AND 0xF) = hex_digit (y AND 0xF)" "to_hex a = to_hex b'"
      by (auto simp: to_hex_def)
    have "x = y"
      using nibbles_inject hex_digit_inject [OF nibble_range(1) nibble_range(1) eq(2)]
        hex_digit_inject [OF nibble_range(2) nibble_range(2) eq(1)] by blast
    with Cons.IH eq(3) b show ?case by simp
  qed
qed simp

lemma length_to_hex [simp]: "length (to_hex d) = 2 * length d"
  by (induction d) (auto simp: to_hex_def)

end
