(* ===== verification/Bindings.thy ===== *)
theory Bindings
  imports Sha256
begin

text \<open>
  The Void Core shapes (\<^verbatim>\<open>src/canonical/bindings.cpp\<close>): the canonical bytes of an edge, a
  rune, a mantle, the glyph declarations and the versioned slice, and their names. A
  thrown \<^verbatim>\<open>CanonicalError\<close> is an \<open>Inl\<close>; a \<^verbatim>\<open>cJSON*\<close> that may be null is an option.
\<close>

unbundle bit_operations_syntax

record policy =
  include_view :: bool

definition policy_tag :: "policy \<Rightarrow> bytes" where
  "policy_tag p = ascii ''include_view='' @ ascii (if include_view p then ''1'' else ''0'')"

definition digest_of :: "bytes \<Rightarrow> bytes \<Rightarrow> policy \<Rightarrow> digest" where
  "digest_of kind payload p = domain_digest kind payload (policy_tag p)"

text \<open>One \<^verbatim>\<open>emplace_back(encode_str(k), v)\<close>, and a run of them.\<close>

definition cfield :: "string \<Rightarrow> bytes canon \<Rightarrow> (bytes \<times> bytes) canon" where
  "cfield k v = cbind (encode_str (ascii k)) (\<lambda>kb. cbind v (\<lambda>vb. Inr (kb, vb)))"

definition cfields :: "(bytes \<times> bytes) canon list \<Rightarrow> (bytes \<times> bytes) list canon" where
  "cfields fs = cmap (\<lambda>f. f) fs"

text \<open>\<^verbatim>\<open>if (arr && cJSON_IsArray(arr)) for (it = arr->child; ...) out.push_back(f(it))\<close>\<close>

definition items_of :: "(json option \<Rightarrow> bytes canon) \<Rightarrow> json option \<Rightarrow> bytes list canon" where
  "items_of f arr = (if is_JArray arr then cmap (\<lambda>x. f (Some x)) (children arr) else Inr [])"

definition kFacets :: "string list" where
  "kFacets = [''who'', ''what'', ''when'', ''where'', ''why'', ''how'']"

definition edge_from :: "json option \<Rightarrow> bytes" where
  "edge_from edge = str_or (get edge (ascii ''from'')) []"

definition edge_to :: "json option \<Rightarrow> bytes" where
  "edge_to edge = str_or (get edge (ascii ''to'')) []"

definition edge_weight :: "json option \<Rightarrow> dbl" where
  "edge_weight edge = (case as_number (get edge (ascii ''weight'')) of Some w \<Rightarrow> w | None \<Rightarrow> dbl_of_int 1)"

definition edge_directed :: "json option \<Rightarrow> bool" where
  "edge_directed edge = (case get edge (ascii ''directed'') of None \<Rightarrow> True | Some d \<Rightarrow> d = JTrue)"

definition canon_edge :: "json option \<Rightarrow> bytes canon" where
  "canon_edge edge =
     (let from = edge_from edge; to = edge_to edge;
          relation = str_or (get edge (ascii ''relation'')) [];
          weight = edge_weight edge;
          directed = edge_directed edge;
          (from, to) = (if \<not> directed \<and> to < from then (to, from) else (from, to))
      in cbind (cfields
           [cfield ''from'' (encode_str from),
            cfield ''to'' (encode_str to),
            cfield ''relation'' (encode_str relation),
            cfield ''weight'' (encode_number weight),
            cfield ''directed'' (Inr [if directed then kTrue else kFalse])])
         encode_map)"

text \<open>\<^verbatim>\<open>!id || !cJSON_IsString(id) || !id->valuestring || !id->valuestring[0]\<close>\<close>

definition nonempty_string :: "json option \<Rightarrow> bytes option" where
  "nonempty_string v = (case as_string v of Some s \<Rightarrow> if s = [] then None else Some s | None \<Rightarrow> None)"

definition canon_rune :: "json option \<Rightarrow> policy \<Rightarrow> bytes canon" where
  "canon_rune rune policy =
     (let spirit = get rune (ascii ''spirit'') in
      case nonempty_string (get spirit (ascii ''id'')) of
        None \<Rightarrow> Inl (CanonicalError ''rune has no spirit.id'')
      | Some rid \<Rightarrow>
          cbind (cfields
            [cfield ''id'' (encode_str rid),
             cfield ''name'' (encode_str (str_or (get spirit (ascii ''name'')) []))]) (\<lambda>sp.
          let facets = get rune (ascii ''facets'') in
          cbind (cmap (\<lambda>k. cfield k (encode_str (str_or (get facets (ascii k)) []))) kFacets) (\<lambda>fc.
          let tag_arr = get rune (ascii ''tags'') in
          cbind (items_of (\<lambda>t. encode_str (str_or t [])) tag_arr) (\<lambda>tags.
          let content = get rune (ascii ''content''); relations = get rune (ascii ''relations'') in
          cbind (cfields
            ([cfield ''spirit'' (encode_map sp),
              cfield ''glyph'' (encode_str (str_or (get rune (ascii ''glyph'')) [])),
              cfield ''facets'' (encode_map fc),
              cfield ''tags'' (Inr (encode_set tags)),
              cfield ''content'' (if content = None then encode_map [] else encode_opt content),
              cfield ''relations'' (if relations = None then Inr (encode_seq []) else encode_opt relations)] @
             (if include_view policy
              then [cfield ''placement'' (encode_opt (get rune (ascii ''placement'')))] else [])))
          encode_map))))"

definition canon_mantle :: "json option \<Rightarrow> policy \<Rightarrow> bytes canon" where
  "canon_mantle mantle policy =
     (case nonempty_string (get mantle (ascii ''name'')) of
        None \<Rightarrow> Inl (CanonicalError ''mantle has no name'')
      | Some name \<Rightarrow>
          let rune_arr = get mantle (ascii ''runes'') in
          cbind (items_of (\<lambda>r. canon_rune r policy) rune_arr) (\<lambda>runes.
          let edge_arr = get (get mantle (ascii ''layout'')) (ascii ''edges'') in
          cbind (items_of canon_edge edge_arr) (\<lambda>edges.
          let tags = get mantle (ascii ''tags''); rules = get mantle (ascii ''rules'') in
          cbind (cfields
            [cfield ''id'' (encode_str (str_or (get mantle (ascii ''id'')) [])),
             cfield ''name'' (encode_str name),
             cfield ''domain'' (encode_opt (get mantle (ascii ''domain''))),
             cfield ''runes'' (Inr (encode_set runes)),
             cfield ''tags'' (if tags = None then encode_map [] else encode_opt tags),
             cfield ''edges'' (Inr (encode_set edges)),
             cfield ''rules'' (if rules = None then Inr (encode_seq []) else encode_opt rules)])
          encode_map)))"

definition canon_glyph_descriptor :: "json option \<Rightarrow> bytes canon" where
  "canon_glyph_descriptor descriptor =
     (if \<not> is_JObject descriptor
      then Inl (CanonicalError ''glyph declaration is not an object'')
      else cbind (cmap (\<lambda>(k, v). cbind (encode v) (\<lambda>b. Inr (k, b)))
                    (filter (\<lambda>(k, v). k \<noteq> ascii ''source'') (members descriptor)))
           encode_map_of_encoded)"

definition canon_glyphs :: "json option \<Rightarrow> bytes canon" where
  "canon_glyphs state =
     (let glyphs = get state (ascii ''glyphs'') in
      cbind (if is_JObject glyphs
             then cmap (\<lambda>(k, g). cbind (canon_glyph_descriptor (Some g)) (\<lambda>b. Inr (k, b))) (members glyphs)
             else if glyphs \<noteq> None \<and> \<not> is_JNull glyphs
             then Inl (CanonicalError ''`glyphs` is present but is not an object'')
             else Inr [])
      encode_map_of_encoded)"

definition canon_slice :: "json option \<Rightarrow> policy \<Rightarrow> bytes canon" where
  "canon_slice state policy =
     (let arr = get state (ascii ''mantles'');
          ms = (if is_JArray arr then children arr else []);
          names = map (\<lambda>m. str_or (get (Some m) (ascii ''name'')) []) ms
      in cbind (cmap (\<lambda>m. canon_mantle (Some m) policy) ms) (\<lambda>mantles.
         if adjacent_dup (sort names) then Inl (CanonicalError ''duplicate mantle name'')
         else cbind (canon_glyphs state) (\<lambda>g.
           encode_map_of_encoded
             [(ascii ''mantles'', encode_set mantles), (ascii ''glyphs'', g)])))"

definition rune_hash :: "json option \<Rightarrow> policy \<Rightarrow> digest canon" where
  "rune_hash r p = cbind (canon_rune r p) (\<lambda>b. Inr (digest_of (ascii ''rune'') b p))"

definition mantle_hash :: "json option \<Rightarrow> policy \<Rightarrow> digest canon" where
  "mantle_hash m p = cbind (canon_mantle m p) (\<lambda>b. Inr (digest_of (ascii ''mantle'') b p))"

definition slice_hash :: "json option \<Rightarrow> policy \<Rightarrow> digest canon" where
  "slice_hash s p = cbind (canon_slice s p) (\<lambda>b. Inr (digest_of (ascii ''slice'') b p))"

definition version_name :: "json option \<Rightarrow> policy \<Rightarrow> bytes canon" where
  "version_name state p = cbind (slice_hash state p) (\<lambda>d. Inr (ascii ''v:'' @ to_hex d))"

definition combining_mark :: "32 word \<Rightarrow> bool" where
  "combining_mark cp \<longleftrightarrow>
     cp \<ge> 0x0300 \<and> cp \<le> 0x036F \<or> cp \<ge> 0x1AB0 \<and> cp \<le> 0x1AFF \<or> cp \<ge> 0x1DC0 \<and> cp \<le> 0x1DFF \<or>
     cp \<ge> 0x20D0 \<and> cp \<le> 0x20FF \<or> cp \<ge> 0xFE20 \<and> cp \<le> 0xFE2F"

function has_combining_marks :: "bytes \<Rightarrow> bool" where
  "has_combining_marks [] = False"
| "has_combining_marks (c # s) =
     (case utf8_lead c of
        None \<Rightarrow> has_combining_marks s
      | Some (n, cp) \<Rightarrow>
          if length (c # s) + (if n = 0 then 1 else 0) \<le> n then False
          else let cp = foldl (\<lambda>cp cc. push_bit 6 cp OR ucast (cc AND 0x3F)) cp (take n s)
               in combining_mark cp \<or> has_combining_marks (drop n s))"
  by pat_completeness auto
termination
  by (relation "measure length") auto

end
