(* ===== verification/Shapes.thy ===== *)
theory Shapes
  imports Bindings "HOL-Library.Multiset"
begin

text \<open>
  What the names of \<^verbatim>\<open>bindings.cpp\<close> depend on, and what they do not: the orders that carry
  no information, the keys that are peer-local, the defaults a partial shape is hydrated
  with, and the states that have no name.
\<close>

section \<open>Runs of fallible steps\<close>

lemma cbind_Inr: "cbind r f = Inr y \<longleftrightarrow> (\<exists>x. r = Inr x \<and> f x = Inr y)"
  by (cases r) (auto simp: cbind_def)

lemma cbind_simps [simp]: "cbind (Inr x) f = f x" "cbind (Inl e) f = Inl e"
  by (simp_all add: cbind_def)

lemma cmap_Inr: "cmap f xs = Inr ys \<longleftrightarrow> list_all2 (\<lambda>x y. f x = Inr y) xs ys"
proof (induction xs arbitrary: ys)
  case Nil
  then show ?case by auto
next
  case (Cons x xs)
  show ?case
    by (cases ys; cases "f x"; cases "cmap f xs") (auto simp flip: Cons)
qed

lemma list_all2_fun_set:
  "list_all2 (\<lambda>x y. f x = Inr y) xs ys \<Longrightarrow> Inr ` set ys = f ` set xs"
  by (induction rule: list_all2_induct) auto

lemma cmap_Inr_set:
  fixes f :: "'a \<Rightarrow> 'b canon" and g :: "'c \<Rightarrow> 'b canon"
  assumes "cmap f xs = Inr ys" "g ` set zs = f ` set xs"
  obtains ws where "cmap g zs = Inr ws" "set ws = set ys"
proof -
  have ys: "Inr ` set ys = f ` set xs"
    using assms(1) by (simp add: cmap_Inr list_all2_fun_set)
  define h where "h z = projr (g z)" for z
  have h: "g z = Inr (h z)" if "z \<in> set zs" for z
  proof -
    have "g z \<in> Inr ` set ys" using that assms(2) ys by auto
    then show ?thesis by (auto simp: h_def)
  qed
  then have l: "list_all2 (\<lambda>x y. g x = Inr y) zs (map h zs)"
    by (simp add: list.rel_map list_all2_same)
  have "Inr ` set (map h zs) = (Inr ` set ys :: (canon_error + 'b) set)"
    by (simp only: list_all2_fun_set [OF l] assms(2) ys)
  then have "set (map h zs) = set ys" by (simp add: inj_image_eq_iff)
  with l show ?thesis by (intro that [of "map h zs"]) (simp_all add: cmap_Inr)
qed

lemma encode_set_cong: "set xs = set ys \<Longrightarrow> encode_set xs = encode_set ys"
  unfolding encode_set_def using sort_unique_cong [of xs ys] by simp

lemma canon_ok_Inr: "canon_ok r \<longleftrightarrow> (\<exists>x. r = Inr x)"
  by (cases r) (auto simp: canon_ok_def)

section \<open>Orders that carry no information\<close>

text \<open>The same items in some order, any of them repeated.\<close>

definition same_set :: "json option \<Rightarrow> json option \<Rightarrow> bool" where
  "same_set a b \<longleftrightarrow> a = b \<or> is_JArray a \<and> is_JArray b \<and> set (children a) = set (children b)"

definition agree_except :: "string list \<Rightarrow> json option \<Rightarrow> json option \<Rightarrow> bool" where
  "agree_except ks a b \<longleftrightarrow> (\<forall>k. k \<notin> ascii ` set ks \<longrightarrow> get a k = get b k)"

definition same_rune :: "json option \<Rightarrow> json option \<Rightarrow> bool" where
  "same_rune r r' \<longleftrightarrow> agree_except [''tags''] r r' \<and> same_set (get r (ascii ''tags'')) (get r' (ascii ''tags''))"

definition same_mantle :: "json option \<Rightarrow> json option \<Rightarrow> bool" where
  "same_mantle m m' \<longleftrightarrow>
     agree_except [''runes'', ''layout''] m m' \<and>
     same_set (get (get m (ascii ''layout'')) (ascii ''edges'')) (get (get m' (ascii ''layout'')) (ascii ''edges'')) \<and>
     (let rs = get m (ascii ''runes''); rs' = get m' (ascii ''runes'')
      in rs = rs' \<or> is_JArray rs \<and> is_JArray rs' \<and>
         (\<forall>r \<in> set (children rs). \<exists>r' \<in> set (children rs'). same_rune (Some r) (Some r')) \<and>
         (\<forall>r' \<in> set (children rs'). \<exists>r \<in> set (children rs). same_rune (Some r) (Some r')))"

definition same_slice :: "json option \<Rightarrow> json option \<Rightarrow> bool" where
  "same_slice s s' \<longleftrightarrow>
     get s (ascii ''glyphs'') = get s' (ascii ''glyphs'') \<and>
     (let ms = get s (ascii ''mantles''); ms' = get s' (ascii ''mantles'')
      in ms = ms' \<or> is_JArray ms \<and> is_JArray ms' \<and>
         (\<exists>zs. mset zs = mset (children ms) \<and>
               list_all2 (\<lambda>m m'. same_mantle (Some m) (Some m')) zs (children ms')))"

lemma items_of_set:
  assumes "items_of f a = Inr ys" "is_JArray a" "is_JArray b"
    and "(\<lambda>x. f (Some x)) ` set (children b) = (\<lambda>x. f (Some x)) ` set (children a)"
  obtains ws where "items_of f b = Inr ws" "set ws = set ys"
proof -
  have "cmap (\<lambda>x. f (Some x)) (children a) = Inr ys" using assms(1,2) by (simp add: items_of_def)
  from cmap_Inr_set [OF this assms(4)] that assms(3) show thesis by (auto simp: items_of_def)
qed

lemma items_of_same:
  assumes "same_set a b" "items_of f a = Inr ys"
  obtains ws where "items_of f b = Inr ws" "set ws = set ys"
  using assms items_of_set [of f a ys b] by (auto simp: same_set_def)

lemma canon_rune_same:
  assumes "same_rune r r'" "canon_rune r p = Inr b"
  shows "canon_rune r' p = Inr b"
proof -
  let ?f = "\<lambda>t. encode_str (str_or t [])"
  have g: "get r' (ascii k) = get r (ascii k)" if "k \<noteq> ''tags''" for k
    using assms(1) that by (simp add: same_rune_def agree_except_def)
  have s: "same_set (get r (ascii ''tags'')) (get r' (ascii ''tags''))"
    using assms(1) by (simp add: same_rune_def)
  from assms(2) obtain ts where ts: "items_of ?f (get r (ascii ''tags'')) = Inr ts"
    by (auto simp: canon_rune_def Let_def cbind_Inr split: option.splits)
  from items_of_same [OF s ts] obtain ws where
    ws: "items_of ?f (get r' (ascii ''tags'')) = Inr ws" "set ws = set ts" .
  have "canon_rune r' p = canon_rune r p"
    unfolding canon_rune_def Let_def
    by (simp add: g ts ws(1) encode_set_cong [OF ws(2)] cong: if_cong option.case_cong split del: if_split)
  with assms(2) show ?thesis by simp
qed

lemma same_rune_sym: "same_rune r r' \<Longrightarrow> same_rune r' r"
  by (auto simp: same_rune_def agree_except_def same_set_def)

lemma canon_mantle_same:
  assumes "same_mantle m m'" "canon_mantle m p = Inr b"
  shows "canon_mantle m' p = Inr b"
proof -
  let ?f = "\<lambda>r. canon_rune r p"
  let ?rs = "get m (ascii ''runes'')" and ?rs' = "get m' (ascii ''runes'')"
  let ?es = "get (get m (ascii ''layout'')) (ascii ''edges'')"
  let ?es' = "get (get m' (ascii ''layout'')) (ascii ''edges'')"
  have g: "get m' (ascii k) = get m (ascii k)" if "k \<notin> {''runes'', ''layout''}" for k
    using assms(1) that by (simp add: same_mantle_def agree_except_def)
  have s: "same_set ?es ?es'" using assms(1) by (simp add: same_mantle_def)
  from assms(2) obtain es rs where
    rs: "items_of ?f ?rs = Inr rs" and es: "items_of canon_edge ?es = Inr es"
    by (auto simp: canon_mantle_def Let_def cbind_Inr split: option.splits)
  from items_of_same [OF s es] obtain es' where
    es': "items_of canon_edge ?es' = Inr es'" "set es' = set es" .
  obtain rs' where rs': "items_of ?f ?rs' = Inr rs'" "set rs' = set rs"
  proof (cases "?rs = ?rs'")
    case False
    then have a: "is_JArray ?rs" "is_JArray ?rs'"
      and l: "\<forall>r \<in> set (children ?rs). \<exists>r' \<in> set (children ?rs'). same_rune (Some r) (Some r')"
      and r: "\<forall>r' \<in> set (children ?rs'). \<exists>r \<in> set (children ?rs). same_rune (Some r) (Some r')"
      using assms(1) by (auto simp: same_mantle_def Let_def)
    have ok: "\<exists>y. ?f (Some r) = Inr y" if "r \<in> set (children ?rs)" for r
      using rs a(1) that by (auto simp: items_of_def cmap_Inr in_set_conv_nth list_all2_conv_all_nth)
    have eq: "?f (Some r') = ?f (Some r)" if "r \<in> set (children ?rs)" "same_rune (Some r) (Some r')" for r r'
      using ok [OF that(1)] canon_rune_same [OF that(2), of p] by auto
    have "(\<lambda>x. ?f (Some x)) ` set (children ?rs') = (\<lambda>x. ?f (Some x)) ` set (children ?rs)"
    proof (intro equalityI image_subsetI)
      fix r' assume "r' \<in> set (children ?rs')"
      with r obtain q where "q \<in> set (children ?rs)" "same_rune (Some q) (Some r')" by blast
      then show "?f (Some r') \<in> (\<lambda>x. ?f (Some x)) ` set (children ?rs)" by (simp add: eq)
    next
      fix q assume q: "q \<in> set (children ?rs)"
      with l obtain r' where "r' \<in> set (children ?rs')" "same_rune (Some q) (Some r')" by blast
      with eq [OF q] show "?f (Some q) \<in> (\<lambda>x. ?f (Some x)) ` set (children ?rs')"
        by (metis (no_types, lifting) image_eqI)
    qed
    from items_of_set [OF rs a this] that show ?thesis by blast
  qed (use rs that in auto)
  have "canon_mantle m' p = canon_mantle m p"
    unfolding canon_mantle_def Let_def
    by (simp add: g rs es rs'(1) es'(1) encode_set_cong [OF es'(2)] encode_set_cong [OF rs'(2)]
        cong: if_cong option.case_cong split del: if_split)
  with assms(2) show ?thesis by simp
qed

lemma same_mantle_name: "same_mantle m m' \<Longrightarrow> get m' (ascii ''name'') = get m (ascii ''name'')"
  by (simp add: same_mantle_def agree_except_def)

lemma cmap_same_items:
  assumes "mset zs = mset xs" "list_all2 R zs ys" "cmap f xs = Inr bs"
    and "\<And>x y b. R x y \<Longrightarrow> f x = Inr b \<Longrightarrow> f y = Inr b"
  obtains ws where "cmap f ys = Inr ws" "set ws = set bs"
proof -
  have zs: "set zs = set xs" using assms(1) by (rule mset_eq_setD)
  have ok: "\<exists>b. f x = Inr b" if "x \<in> set zs" for x
    using assms(3) that zs by (auto simp: cmap_Inr in_set_conv_nth list_all2_conv_all_nth)
  have "map f ys = map f zs"
  proof (rule nth_equalityI)
    fix i assume "i < length (map f ys)"
    then have i: "i < length zs" "R (zs ! i) (ys ! i)" "i < length ys"
      using assms(2) by (auto simp: list_all2_conv_all_nth)
    with ok [of "zs ! i"] assms(4) show "map f ys ! i = map f zs ! i" by force
  qed (use assms(2) in \<open>simp add: list_all2_lengthD\<close>)
  then have "f ` set ys = f ` set xs" using zs by (metis set_map)
  from cmap_Inr_set [OF assms(3) this] that show ?thesis by blast
qed

lemma same_mantle_refl: "same_mantle m m"
  by (simp add: same_mantle_def agree_except_def same_set_def)

text \<open>C23. The canonical bytes of a slice do not depend on the order of mantles, runes,
  tags or edges.\<close>

theorem canon_slice_same:
  assumes "same_slice s s'" "canon_ok (canon_slice s p)"
  shows "canon_slice s' p = canon_slice s p"
proof -
  let ?f = "\<lambda>m. canon_mantle (Some m) p"
  let ?R = "\<lambda>m m'. same_mantle (Some m) (Some m')"
  let ?name = "\<lambda>m. str_or (get (Some m) (ascii ''name'')) []"
  define L where "L s = (let a = get s (ascii ''mantles'') in if is_JArray a then children a else [])" for s
  have slice: "canon_slice s p = cbind (cmap ?f (L s)) (\<lambda>mantles.
      if adjacent_dup (sort (map ?name (L s))) then Inl (CanonicalError ''duplicate mantle name'')
      else cbind (canon_glyphs s) (\<lambda>g.
        encode_map_of_encoded [(ascii ''mantles'', encode_set mantles), (ascii ''glyphs'', g)]))" for s
    by (simp add: canon_slice_def L_def Let_def)
  have g: "canon_glyphs s' = canon_glyphs s"
    using assms(1) by (simp add: same_slice_def canon_glyphs_def)
  from assms(2) obtain bs where bs: "cmap ?f (L s) = Inr bs"
    by (auto simp: canon_ok_Inr slice cbind_Inr)
  have "\<exists>zs. mset zs = mset (L s) \<and> list_all2 ?R zs (L s')"
  proof (cases "get s (ascii ''mantles'') = get s' (ascii ''mantles'')")
    case True
    then have "list_all2 ?R (L s) (L s')" by (simp add: L_def Let_def list_all2_refl same_mantle_refl)
    then show ?thesis by blast
  next
    case False
    with assms(1) show ?thesis by (simp add: same_slice_def Let_def L_def)
  qed
  then obtain zs where zs: "mset zs = mset (L s)" "list_all2 ?R zs (L s')" by blast
  obtain ws where ws: "cmap ?f (L s') = Inr ws" "set ws = set bs"
    by (rule cmap_same_items [OF zs bs]) (auto intro: canon_mantle_same)
  have "map ?name (L s') = map ?name zs"
    using zs(2) by (intro nth_equalityI) (auto simp: list_all2_conv_all_nth same_mantle_name)
  then have "mset (map ?name (L s')) = mset (map ?name (L s))"
    by (simp only: mset_map zs(1))
  then have "sort (map ?name (L s')) = sort (map ?name (L s))"
    by (intro properties_for_sort) simp_all
  then show ?thesis
    unfolding slice by (simp only: bs ws(1) g encode_set_cong [OF ws(2)] cbind_simps)
qed

section \<open>Edges\<close>

text \<open>An edge's bytes are those of a plain object.\<close>

definition edge_ends :: "json option \<Rightarrow> bytes \<times> bytes" where
  "edge_ends e =
     (let a = edge_from e; b = edge_to e in if \<not> edge_directed e \<and> b < a then (b, a) else (a, b))"

definition edge_json :: "json option \<Rightarrow> json" where
  "edge_json e = JObject
     [(ascii ''from'', JString (fst (edge_ends e))), (ascii ''to'', JString (snd (edge_ends e))),
      (ascii ''relation'', JString (str_or (get e (ascii ''relation'')) [])),
      (ascii ''weight'', JNumber (edge_weight e)), (ascii ''directed'', mk_bool (edge_directed e))]"

lemma cfields_encode:
  "cfields (map (\<lambda>kv. cfield (fst kv) (encode (snd kv))) kvs)
   = encode_members (map (\<lambda>kv. (ascii (fst kv), snd kv)) kvs)"
proof (induction kvs)
  case (Cons kv kvs)
  then show ?case
    by (simp add: cfields_def cfield_def cbind_def split: sum.split)
qed (simp add: cfields_def)

lemma canon_edge_encode: "canon_edge e = encode (edge_json e)"
proof -
  let ?kvs = "[(''from'', JString (fst (edge_ends e))), (''to'', JString (snd (edge_ends e))),
    (''relation'', JString (str_or (get e (ascii ''relation'')) [])),
    (''weight'', JNumber (edge_weight e)), (''directed'', mk_bool (edge_directed e))]"
  have "canon_edge e = cbind (cfields (map (\<lambda>kv. cfield (fst kv) (encode (snd kv))) ?kvs)) encode_map"
    by (simp add: canon_edge_def edge_ends_def Let_def mk_bool_def)
  also have "\<dots> = encode (edge_json e)"
    by (simp add: cfields_encode edge_json_def cbind_def del: list.map) simp
  finally show ?thesis .
qed

lemma str_or_nul_free: "json_wf j \<Longrightarrow> nul_free (str_or (get (Some j) k) [])"
  using get_wf [of j k] by (auto simp: str_or_def split: option.splits elim: as_string.elims)

lemma edge_json_wf:
  assumes "json_wf j"
  shows "json_wf (edge_json (Some j)) \<and> json_depth (edge_json (Some j)) \<le> kMaxDepth"
  using str_or_nul_free [OF assms]
  by (auto simp: edge_json_def edge_ends_def edge_from_def edge_to_def Let_def mk_bool_def
      nul_free_ascii kMaxDepth_def)

definition reversed_edge :: "json option \<Rightarrow> json option \<Rightarrow> bool" where
  "reversed_edge e e' \<longleftrightarrow>
     agree_except [''from'', ''to''] e e' \<and> edge_from e' = edge_to e \<and> edge_to e' = edge_from e"

lemma reversed_edge_same:
  assumes "reversed_edge e e'"
  shows "edge_directed e' = edge_directed e" "edge_weight e' = edge_weight e"
    "str_or (get e' (ascii ''relation'')) [] = str_or (get e (ascii ''relation'')) []"
  using assms by (simp_all add: reversed_edge_def agree_except_def edge_directed_def edge_weight_def)

lemma canon_edge_undirected:
  assumes "reversed_edge e e'" "\<not> edge_directed e"
  shows "canon_edge e' = canon_edge e"
proof -
  have "edge_ends e' = edge_ends e"
    using assms reversed_edge_same(1) [OF assms(1)]
    by (auto simp: edge_ends_def Let_def reversed_edge_def)
  then show ?thesis
    unfolding canon_edge_encode edge_json_def using reversed_edge_same [OF assms(1)] by simp
qed

lemma canon_json_members:
  assumes "canon_json (JObject ms) = canon_json (JObject ms')"
  shows "(\<lambda>(k, v). (k, canon_json v)) ` set ms = (\<lambda>(k, v). (k, canon_json v)) ` set ms'"
proof -
  let ?s = "\<lambda>ms. sort_key (\<lambda>kv. str_bytes (fst kv)) (map (\<lambda>(k, v). (k, canon_json v)) ms)"
  from assms have "?s ms = ?s ms'" by (simp only: canon_json.simps json.inject)
  then have "set (?s ms) = set (?s ms')" by (rule arg_cong)
  then show ?thesis by (simp only: set_sort set_map)
qed

lemma canon_json_edge_ends:
  assumes "canon_json (edge_json e) = canon_json (edge_json e')"
  shows "edge_ends e = edge_ends e'"
proof -
  let ?ms = "\<lambda>e. case edge_json e of JObject ms \<Rightarrow> (\<lambda>(k, v). (k, canon_json v)) ` set ms"
  have *: "(ascii ''from'', JString a) \<in> ?ms e \<longleftrightarrow> a = fst (edge_ends e)"
    "(ascii ''to'', JString a) \<in> ?ms e \<longleftrightarrow> a = snd (edge_ends e)" for e a
    by (simp_all add: edge_json_def)
  have "?ms e = ?ms e'"
    using assms unfolding edge_json_def json.case by (rule canon_json_members)
  with * [of _ e] * [of _ e'] show ?thesis by (intro prod_eqI) metis+
qed

text \<open>An undirected edge is one wire read from either end; a directed edge and its reverse are
  two.\<close>

theorem canon_edge_ends:
  assumes "reversed_edge (Some e) (Some e')"
  shows "(\<not> edge_directed (Some e) \<longrightarrow> canon_edge (Some e') = canon_edge (Some e)) \<and>
    (edge_directed (Some e) \<and> edge_from (Some e) \<noteq> edge_to (Some e) \<and>
     json_wf e \<and> json_wf e' \<and> canon_edge (Some e) = Inr b \<and> length b < 2 ^ 64 \<longrightarrow>
     canon_edge (Some e') \<noteq> Inr b)"
proof (intro conjI impI)
  show "\<not> edge_directed (Some e) \<Longrightarrow> canon_edge (Some e') = canon_edge (Some e)"
    using canon_edge_undirected assms by blast
next
  assume d: "edge_directed (Some e) \<and> edge_from (Some e) \<noteq> edge_to (Some e) \<and>
     json_wf e \<and> json_wf e' \<and> canon_edge (Some e) = Inr b \<and> length b < 2 ^ 64"
  have "edge_ends (Some e) \<noteq> edge_ends (Some e')"
    using d assms reversed_edge_same(1) [OF assms] by (auto simp: edge_ends_def reversed_edge_def)
  then show "canon_edge (Some e') \<noteq> Inr b"
    using encode_canon_inject [of "edge_json (Some e)" b "edge_json (Some e')"] canon_json_edge_ends
      edge_json_wf [of e] edge_json_wf [of e'] d
    unfolding canon_edge_encode by blast
qed

section \<open>Hydration\<close>

definition rune_defaults :: "(string \<times> json) list" where
  "rune_defaults = [(''glyph'', JString []), (''tags'', JArray []), (''content'', JObject []),
     (''relations'', JArray []), (''placement'', JNull),
     (''facets'', JObject (map (\<lambda>k. (ascii k, JString [])) kFacets))]"

lemma get_add_member:
  "nul_free k \<Longrightarrow> get (Some (JObject (add_member ms k v))) q =
     (if map_of ms q \<noteq> None then map_of ms q else if q = k then Some v else None)"
  by (auto simp: add_member_def map_add_def split: option.splits)

lemma canon_rune_default:
  assumes g: "\<And>q. q \<noteq> k \<Longrightarrow> get r' (ascii q) = get r (ascii q)"
    and gk: "get r' (ascii k) = Some v" "get r (ascii k) = None"
    and def: "(k, v) \<in> set rune_defaults"
  shows "canon_rune r' p = canon_rune r p"
proof -
  have f: "str_or (get (Some (JObject (map (\<lambda>k. (ascii k, JString [])) kFacets))) (ascii q)) [] = []" for q
    by (auto simp: kFacets_def str_or_def)
  have "k = ''glyph'' \<and> v = JString [] \<or> k = ''tags'' \<and> v = JArray [] \<or>
      k = ''content'' \<and> v = JObject [] \<or> k = ''relations'' \<and> v = JArray [] \<or>
      k = ''placement'' \<and> v = JNull \<or> k = ''facets'' \<and> v = JObject (map (\<lambda>k. (ascii k, JString [])) kFacets)"
    using def by (simp only: rune_defaults_def list.set insert_iff empty_iff simp_thms prod.inject)
  then show ?thesis
  proof (elim disjE conjE)
    assume 1: "k = ''glyph''" "v = JString []"
    have "str_or (get r' (ascii ''glyph'')) [] = str_or (get r (ascii ''glyph'')) []"
      by (simp add: gk [unfolded 1] str_or_def)
    then show ?thesis unfolding canon_rune_def Let_def
      by (simp add: g [unfolded 1] cong: if_cong option.case_cong)
  next
    assume 2: "k = ''tags''" "v = JArray []"
    show ?thesis unfolding canon_rune_def Let_def
      by (simp add: g [unfolded 2] gk [unfolded 2] items_of_def cong: if_cong option.case_cong)
  next
    assume 3: "k = ''content''" "v = JObject []"
    show ?thesis unfolding canon_rune_def Let_def
      by (simp add: g [unfolded 3] gk [unfolded 3] encode_opt_def cong: if_cong option.case_cong)
  next
    assume 4: "k = ''relations''" "v = JArray []"
    show ?thesis unfolding canon_rune_def Let_def
      by (simp add: g [unfolded 4] gk [unfolded 4] encode_opt_def cong: if_cong option.case_cong)
  next
    assume 5: "k = ''placement''" "v = JNull"
    show ?thesis unfolding canon_rune_def Let_def
      by (simp add: g [unfolded 5] gk [unfolded 5] encode_opt_def cong: if_cong option.case_cong)
  next
    assume 6: "k = ''facets''" "v = JObject (map (\<lambda>k. (ascii k, JString [])) kFacets)"
    have f': "str_or (get None q) [] = []" for q by (simp add: str_or_def)
    show ?thesis unfolding canon_rune_def Let_def
      by (simp add: g [unfolded 6] gk [unfolded 6] f f' del: get_None get_JObject cong: if_cong option.case_cong)
  qed
qed

text \<open>A partial rune and the one a hydration filled in have the same bytes.\<close>

theorem canon_rune_hydrated:
  assumes "(k, v) \<in> set rune_defaults" "map_of ms (ascii k) = None"
  shows "canon_rune (Some (JObject (add_member ms (ascii k) v))) p = canon_rune (Some (JObject ms)) p"
proof -
  let ?r = "Some (JObject ms)" and ?r' = "Some (JObject (add_member ms (ascii k) v))"
  have nf: "nul_free (ascii k)" using assms(1) by (auto simp: rune_defaults_def nul_free_ascii)
  have g: "get ?r' (ascii q) = get ?r (ascii q)" if "q \<noteq> k" for q
    using that assms(2) by (simp add: get_add_member [OF nf] del: get_JObject) (simp add: get_def)
  have gk: "get ?r' (ascii k) = Some v" "get ?r (ascii k) = None"
    using assms(2) by (simp_all add: get_add_member [OF nf] del: get_JObject) (simp add: get_def)
  show ?thesis by (rule canon_rune_default [OF g gk assms(1)])
qed

section \<open>What a slice reads\<close>

text \<open>The declarations of a document, without what a peer stamped on them; an absent, a null
  and an empty \<open>glyphs\<close> declare nothing.\<close>

definition glyph_decls :: "json option \<Rightarrow> (bytes \<times> (bytes \<times> json) list option) list" where
  "glyph_decls s =
     map (\<lambda>(k, g). (k, if is_JObject (Some g)
                        then Some (filter (\<lambda>(k, v). k \<noteq> ascii ''source'') (members (Some g))) else None))
       (members (get s (ascii ''glyphs'')))"

definition glyphs_malformed :: "json option \<Rightarrow> bool" where
  "glyphs_malformed s \<longleftrightarrow>
     (let g = get s (ascii ''glyphs'') in g \<noteq> None \<and> \<not> is_JObject g \<and> \<not> is_JNull g)"

lemma canon_glyphs_decls:
  "canon_glyphs s =
     (if glyphs_malformed s then Inl (CanonicalError ''`glyphs` is present but is not an object'')
      else cbind (cmap (\<lambda>(k, d). cbind (case d of
              None \<Rightarrow> Inl (CanonicalError ''glyph declaration is not an object'')
            | Some ms \<Rightarrow> cbind (cmap (\<lambda>(k, v). cbind (encode v) (\<lambda>b. Inr (k, b))) ms) encode_map_of_encoded)
            (\<lambda>b. Inr (k, b))) (glyph_decls s)) encode_map_of_encoded)"
proof -
  have cm: "cmap f (map g xs) = cmap (\<lambda>x. f (g x)) xs" for f :: "'b \<Rightarrow> 'c canon" and g :: "'a \<Rightarrow> 'b" and xs
    by (induction xs) (auto split: sum.split)
  have m: "members g = []" if "\<not> is_JObject g" for g
    using that by (cases g rule: members.cases) auto
  show ?thesis
    by (auto simp: canon_glyphs_def Let_def glyphs_malformed_def glyph_decls_def cm m
        canon_glyph_descriptor_def if_distrib intro!: arg_cong2 [where f = cbind] arg_cong2 [where f = cmap])
qed

theorem canon_slice_reads:
  assumes "get s (ascii ''mantles'') = get s' (ascii ''mantles'')"
    and "glyph_decls s = glyph_decls s'" "glyphs_malformed s = glyphs_malformed s'"
  shows "canon_slice s p = canon_slice s' p"
proof -
  have "canon_glyphs s = canon_glyphs s'" using assms(2,3) by (simp only: canon_glyphs_decls)
  then show ?thesis unfolding canon_slice_def by (simp only: assms(1))
qed

text \<open>Only a slice whose mantles have distinct, nonempty names has a name of its own.\<close>

lemma adjacent_dup_sorted: "sorted xs \<Longrightarrow> adjacent_dup xs \<longleftrightarrow> \<not> distinct xs"
proof (induction xs rule: adjacent_dup.induct)
  case (1 x y xs)
  then show ?case by (auto simp: order.antisym)
qed auto

definition mantle_list :: "json option \<Rightarrow> json list" where
  "mantle_list s = (let a = get s (ascii ''mantles'') in if is_JArray a then children a else [])"

definition mantle_name :: "json \<Rightarrow> bytes" where
  "mantle_name m = str_or (get (Some m) (ascii ''name'')) []"

lemma canon_slice_alt:
  "canon_slice s p = cbind (cmap (\<lambda>m. canon_mantle (Some m) p) (mantle_list s)) (\<lambda>mantles.
      if adjacent_dup (sort (map mantle_name (mantle_list s)))
      then Inl (CanonicalError ''duplicate mantle name'')
      else cbind (canon_glyphs s) (\<lambda>g.
        encode_map_of_encoded [(ascii ''mantles'', encode_set mantles), (ascii ''glyphs'', g)]))"
  by (simp add: canon_slice_def mantle_list_def mantle_name_def [abs_def] Let_def)

theorem canon_slice_names:
  assumes "canon_ok (canon_slice s p)"
  shows "distinct (map mantle_name (mantle_list s)) \<and> (\<forall>m \<in> set (mantle_list s). mantle_name m \<noteq> [])"
proof
  let ?names = "map mantle_name (mantle_list s)"
  from assms obtain bs where bs: "cmap (\<lambda>m. canon_mantle (Some m) p) (mantle_list s) = Inr bs"
    and nd: "\<not> adjacent_dup (sort ?names)"
    by (auto simp: canon_ok_Inr canon_slice_alt cbind_Inr split: if_splits)
  from nd show "distinct ?names" by (simp add: adjacent_dup_sorted)
  show "\<forall>m \<in> set (mantle_list s). mantle_name m \<noteq> []"
  proof
    fix m assume "m \<in> set (mantle_list s)"
    then obtain b where "canon_mantle (Some m) p = Inr b"
      using bs by (auto simp: cmap_Inr in_set_conv_nth list_all2_conv_all_nth)
    then show "mantle_name m \<noteq> []"
      by (auto simp: canon_mantle_def nonempty_string_def mantle_name_def str_or_def
          split: option.splits if_splits)
  qed
qed

section \<open>The order of an object's members\<close>

lemma encode_JObject_iff:
  "encode (JObject ms) = Inr b \<longleftrightarrow>
     (let ps = map (\<lambda>kv. (str_bytes (fst kv), enc (snd kv))) ms in
      (\<forall>kv \<in> set ms. valid_utf8 (fst kv) \<and> encode (snd kv) = Inr (enc (snd kv))) \<and>
      distinct (map fst ps) \<and> b = map_bytes (sort_key fst ps))"
proof -
  have dup: "\<not> adjacent_dup (map fst (sort_key fst ps)) \<longleftrightarrow> distinct (map fst ps)" for ps :: "(bytes \<times> bytes) list"
  proof -
    have "sorted (map fst (sort_key fst ps))" by simp
    then have "\<not> adjacent_dup (map fst (sort_key fst ps)) \<longleftrightarrow> distinct (map fst (sort_key fst ps))"
      by (simp add: adjacent_dup_sorted)
    also have "\<dots> \<longleftrightarrow> distinct (map fst ps)"
      by (rule mset_eq_imp_distinct_iff) (simp only: mset_map mset_sort)
    finally show ?thesis .
  qed
  have "encode (JObject ms) = Inr b \<longleftrightarrow> (\<exists>ps. encode_members ms = Inr ps \<and> encode_map ps = Inr b)"
    by (cases "encode_members ms") auto
  also have "\<dots> \<longleftrightarrow> (\<exists>ps. encode_members ms = Inr ps \<and> distinct (map fst ps) \<and> b = map_bytes (sort_key fst ps))"
    by (auto simp: encode_map_def Let_def simp flip: dup)
  finally show ?thesis by (auto simp: encode_members_Inr Let_def)
qed

lemma encode_JObject_perm:
  assumes "mset ms = mset ms'" "encode (JObject ms) = Inr b"
  shows "encode (JObject ms') = Inr b"
proof -
  let ?p = "\<lambda>ms. map (\<lambda>kv. (str_bytes (fst kv), enc (snd kv))) ms"
  have m: "mset (?p ms) = mset (?p ms')" using assms(1) by simp
  have s: "set ms' = set ms" using assms(1) by (metis mset_eq_setD)
  from assms(2) have d: "distinct (map fst (?p ms))"
    and b: "b = map_bytes (sort_key fst (?p ms))"
    and e: "\<forall>kv \<in> set ms. valid_utf8 (fst kv) \<and> encode (snd kv) = Inr (enc (snd kv))"
    unfolding encode_JObject_iff Let_def by blast+
  have d': "distinct (map fst (?p ms'))"
    using d mset_eq_imp_distinct_iff [of "map fst (?p ms)" "map fst (?p ms')"] m
    by (simp only: mset_map)
  have "sort_key fst (?p ms') = sort_key fst (?p ms)"
  proof (rule sort_key_inj_key_eq)
    show "inj_on fst (set (?p ms'))" using d' by (simp only: distinct_map)
  qed (use m in simp_all)
  then show ?thesis unfolding encode_JObject_iff Let_def using e s d' b by simp
qed

lemma encode_JObject_cong:
  assumes "list_all2 (\<lambda>x y. fst x = fst y \<and> (\<forall>b. encode (snd x) = Inr b \<longleftrightarrow> encode (snd y) = Inr b)) ms ms'"
  shows "encode (JObject ms) = Inr b \<longleftrightarrow> encode (JObject ms') = Inr b"
proof -
  define g where "g kv = (str_bytes (fst kv), enc (snd kv))" for kv :: "bytes \<times> json"
  define P where "P kv \<longleftrightarrow> valid_utf8 (fst kv) \<and> encode (snd kv) = Inr (enc (snd kv))" for kv :: "bytes \<times> json"
  have "g x = g y \<and> P x = P y"
    if "fst x = fst y \<and> (\<forall>b. encode (snd x) = Inr b \<longleftrightarrow> encode (snd y) = Inr b)" for x y
  proof (cases "encode (snd x)")
    case (Inr b)
    with that have "encode (snd y) = Inr b" "fst x = fst y" by blast+
    with Inr show ?thesis by (simp add: g_def P_def enc_def)
  next
    case (Inl e)
    with that have "encode (snd y) \<noteq> Inr b" for b by (metis sum.distinct(1))
    then obtain e' where "encode (snd y) = Inl e'" by (cases "encode (snd y)") auto
    moreover from that have "fst x = fst y" by blast
    ultimately show ?thesis using Inl by (simp add: g_def P_def enc_def)
  qed
  then have "list_all2 (\<lambda>x y. g x = g y \<and> P x = P y) ms ms'"
    using assms by (rule list_all2_mono [rotated]) blast
  then have "map g ms = map g ms' \<and> ((\<forall>kv \<in> set ms. P kv) \<longleftrightarrow> (\<forall>kv \<in> set ms'. P kv))"
    by (induction rule: list_all2_induct) auto
  then show ?thesis unfolding encode_JObject_iff Let_def g_def [symmetric] P_def [symmetric] by simp
qed

section \<open>At concrete inputs\<close>

definition two_tags :: "string list \<Rightarrow> json" where
  "two_tags ts = JObject [(ascii ''mantles'', JArray [JObject [(ascii ''name'', JString (ascii ''m'')),
     (ascii ''runes'', JArray [JObject [(ascii ''spirit'', JObject [(ascii ''id'', JString (ascii ''r''))]),
       (ascii ''tags'', JArray (map (\<lambda>t. JString (ascii t)) ts))]])]])]"

theorem canon_slice_same_witness:
  "canon_slice (Some (two_tags [''y'', ''x'', ''y''])) \<lparr> include_view = False \<rparr> =
   canon_slice (Some (two_tags [''x'', ''y''])) \<lparr> include_view = False \<rparr>"
proof (rule canon_slice_same)
  show "same_slice (Some (two_tags [''x'', ''y''])) (Some (two_tags [''y'', ''x'', ''y'']))"
    unfolding same_slice_def
    by (auto simp: two_tags_def Let_def same_mantle_def same_rune_def agree_except_def same_set_def
        intro!: exI [of _ "children (get (Some (two_tags [''x'', ''y''])) (ascii ''mantles''))"])
  show "canon_ok (canon_slice (Some (two_tags [''x'', ''y''])) \<lparr>include_view = False\<rparr>)" by code_simp
qed

definition wire :: "string \<Rightarrow> string \<Rightarrow> bool \<Rightarrow> json" where
  "wire a b d = JObject [(ascii ''from'', JString (ascii a)), (ascii ''to'', JString (ascii b)), (ascii ''directed'', mk_bool d)]"

theorem canon_edge_ends_witness:
  "canon_edge (Some (wire ''b'' ''a'' False)) = canon_edge (Some (wire ''a'' ''b'' False))"
proof -
  have "reversed_edge (Some (wire ''a'' ''b'' False)) (Some (wire ''b'' ''a'' False))"
    by (auto simp: reversed_edge_def agree_except_def wire_def edge_from_def edge_to_def str_or_def)
  moreover have "\<not> edge_directed (Some (wire ''a'' ''b'' False))"
    by (simp add: edge_directed_def wire_def mk_bool_def)
  ultimately show ?thesis using canon_edge_ends by blast
qed

theorem canon_rune_hydrated_witness:
  "canon_rune (Some (JObject (add_member [(ascii ''spirit'', JObject [(ascii ''id'', JString (ascii ''r''))])]
     (ascii ''tags'') (JArray [])))) \<lparr> include_view = True \<rparr> =
   canon_rune (Some (JObject [(ascii ''spirit'', JObject [(ascii ''id'', JString (ascii ''r''))])])) \<lparr> include_view = True \<rparr>"
  by (rule canon_rune_hydrated) (simp_all add: rune_defaults_def)

theorem canon_slice_names_witness:
  "distinct (map mantle_name (mantle_list (Some (JObject [(ascii ''mantles'',
     JArray [JObject [(ascii ''name'', JString (ascii ''m''))]])]))))"
proof -
  let ?s = "Some (JObject [(ascii ''mantles'', JArray [JObject [(ascii ''name'', JString (ascii ''m''))]])])"
  have "canon_ok (canon_slice ?s \<lparr> include_view = True \<rparr>)" by code_simp
  then show ?thesis using canon_slice_names by blast
qed

end
