(* ===== verification/OrSet.thy ===== *)
theory OrSet
  imports Shapes
begin

text \<open>
  The one primitive (\<^verbatim>\<open>src/crdt/orset.cpp\<close>): an observed-remove set of tags and values,
  which is also the multi-value register, and its JSON form. \<^verbatim>\<open>std::map\<close> is an ordered map
  and \<^verbatim>\<open>std::set\<close> a strictly sorted list, so equal sets are equal values.
\<close>

unbundle bit_operations_syntax

record orset =
  adds :: "(bytes, bytes) omap"
  removes :: "bytes list"

definition orset_new :: orset where
  "orset_new = \<lparr> adds = [], removes = [] \<rparr>"

definition orset_add :: "bytes \<Rightarrow> bytes \<Rightarrow> orset \<Rightarrow> orset" where
  "orset_add tag value s = s\<lparr> adds := om_put tag value (adds s) \<rparr>"

definition remove_value :: "bytes \<Rightarrow> orset \<Rightarrow> orset" where
  "remove_value value s =
     s\<lparr> removes := os_union (removes s) (map fst (filter (\<lambda>kv. snd kv = value) (adds s))) \<rparr>"

definition remove_all :: "orset \<Rightarrow> orset" where
  "remove_all s = s\<lparr> removes := os_union (removes s) (map fst (adds s)) \<rparr>"

definition live_adds :: "orset \<Rightarrow> (bytes \<times> bytes) list" where
  "live_adds s = filter (\<lambda>kv. fst kv \<notin> set (removes s)) (adds s)"

definition orset_values :: "orset \<Rightarrow> bytes list" where
  "orset_values s = sort_unique (map snd (live_adds s))"

definition orset_empty :: "orset \<Rightarrow> bool" where
  "orset_empty s \<longleftrightarrow> orset_values s = []"

definition orset_join :: "orset \<Rightarrow> orset \<Rightarrow> orset" where
  "orset_join a b =
     \<lparr> adds = foldl (\<lambda>m kv. om_put (fst kv) (snd kv) m) (adds a) (adds b),
       removes = os_union (removes a) (removes b) \<rparr>"

definition reg_write :: "bytes \<Rightarrow> bytes \<Rightarrow> orset \<Rightarrow> orset" where
  "reg_write tag value r = orset_add tag value (remove_all r)"

record counter_mint =
  cm_prefix :: bytes
  cm_n :: nat

definition pad4 :: "bytes \<Rightarrow> bytes" where
  "pad4 d = replicate (4 - length d) 0x30 @ d"

text \<open>\<^verbatim>\<open>CounterMint::next\<close>: the counter is an \<^verbatim>\<open>unsigned long\<close>.\<close>

definition counter_mint_next :: "counter_mint \<Rightarrow> bytes \<times> counter_mint" where
  "counter_mint_next m =
     (let n = (cm_n m + 1) mod 2 ^ 64
      in (cm_prefix m @ ascii ''_'' @ pad4 (to_string n), m\<lparr> cm_n := n \<rparr>))"

section \<open>The JSON form\<close>

definition hexify :: "bytes \<Rightarrow> bytes" where
  "hexify raw = concat (map (\<lambda>c. [hex_digit (drop_bit 4 c), hex_digit (c AND 0xF)]) raw)"

definition orset_to_json :: "orset \<Rightarrow> json" where
  "orset_to_json s = JObject
     [(ascii ''a'', JObject (map (\<lambda>kv. (c_str (fst kv), JString (hexify (snd kv)))) (adds s))),
      (ascii ''r'', JArray (map mk_string (removes s)))]"

definition nib :: "byte \<Rightarrow> byte option" where
  "nib c =
     (if c \<ge> 0x30 \<and> c \<le> 0x39 then Some (c - 0x30)
      else if c \<ge> 0x61 \<and> c \<le> 0x66 then Some (c - 0x61 + 10)
      else None)"

fun unhex_pairs :: "bytes \<Rightarrow> bytes option" where
  "unhex_pairs [] = Some []"
| "unhex_pairs [c] = None"
| "unhex_pairs (c # d # s) =
     (case (nib c, nib d) of
        (Some hi, Some lo) \<Rightarrow> map_option (\<lambda>out. (hi * 16 + lo) # out) (unhex_pairs s)
      | _ \<Rightarrow> None)"

definition unhex_strict :: "bytes \<Rightarrow> bytes option" where
  "unhex_strict hex = (if length hex mod 2 = 1 then None else unhex_pairs hex)"

definition unhexify :: "bytes \<Rightarrow> bytes" where
  "unhexify hex = (case unhex_strict (c_str hex) of Some raw \<Rightarrow> raw | None \<Rightarrow> [])"

definition hex_string :: "json \<Rightarrow> bytes option" where
  "hex_string j = (case as_string (Some j) of Some s \<Rightarrow> unhex_strict s | None \<Rightarrow> None)"

definition orset_json_well_formed :: "json option \<Rightarrow> bool" where
  "orset_json_well_formed v \<longleftrightarrow>
     is_JObject v \<and> is_JObject (get v (ascii ''a'')) \<and> is_JArray (get v (ascii ''r'')) \<and>
     length (members v) = 2 \<and>
     (\<forall>kv \<in> set (members (get v (ascii ''a''))). fst kv \<noteq> [] \<and> hex_string (snd kv) \<noteq> None) \<and>
     (\<forall>t \<in> set (children (get v (ascii ''r''))). nonempty_string (Some t) \<noteq> None)"

definition from_add :: "(bytes, bytes) omap \<Rightarrow> bytes \<times> json \<Rightarrow> (bytes, bytes) omap" where
  "from_add m kv =
     (if fst kv = [] then m
      else case hex_string (snd kv) of None \<Rightarrow> m | Some raw \<Rightarrow> om_put (fst kv) raw m)"

definition from_remove :: "bytes list \<Rightarrow> json \<Rightarrow> bytes list" where
  "from_remove rs t = (case nonempty_string (Some t) of None \<Rightarrow> rs | Some s \<Rightarrow> os_insert s rs)"

definition orset_from_json :: "json option \<Rightarrow> orset" where
  "orset_from_json v =
     \<lparr> adds = foldl from_add [] (members (get v (ascii ''a''))),
       removes = (let r = get v (ascii ''r'') in if is_JArray r then foldl from_remove [] (children r) else []) \<rparr>"

section \<open>Well-formed sets, and what every operation keeps\<close>

definition orset_wf :: "orset \<Rightarrow> bool" where
  "orset_wf s \<longleftrightarrow> om_ok (adds s) \<and> sorted_wrt (<) (removes s)"

text \<open>Tags are unique: whatever peer added a tag, it added one value, named by \<open>V\<close>.\<close>

definition orset_ok :: "(bytes \<Rightarrow> bytes) \<Rightarrow> orset \<Rightarrow> bool" where
  "orset_ok V s \<longleftrightarrow> orset_wf s \<and> (\<forall>kv \<in> set (adds s). snd kv = V (fst kv))"

lemma om_ok_foldl_put [om_wf]:
  "om_ok m \<Longrightarrow> om_ok (foldl (\<lambda>m kv. om_put (fst kv) (snd kv) m) m kvs)"
  by (induction kvs arbitrary: m) auto

lemma map_of_foldl_put:
  "om_ok m \<Longrightarrow> distinct (map fst kvs) \<Longrightarrow>
   map_of (foldl (\<lambda>m kv. om_put (fst kv) (snd kv) m) m kvs) k =
   (case map_of kvs k of Some v \<Rightarrow> Some v | None \<Rightarrow> map_of m k)"
proof (induction kvs arbitrary: m k)
  case (Cons kv kvs)
  obtain t w where kv: "kv = (t, w)" by (cases kv)
  have n: "map_of kvs t = None" using Cons.prems kv by (simp add: map_of_eq_None_iff)
  show ?case
    using Cons.prems by (cases "k = t") (simp_all add: Cons.IH kv n split: option.split)
qed simp

lemma map_of_join_adds:
  "orset_wf a \<Longrightarrow> orset_wf b \<Longrightarrow> map_of (adds (orset_join a b)) k =
   (case map_of (adds b) k of Some v \<Rightarrow> Some v | None \<Rightarrow> map_of (adds a) k)"
  by (simp add: orset_join_def orset_wf_def map_of_foldl_put om_ok_distinct)

lemma removes_join: "set (removes (orset_join a b)) = set (removes a) \<union> set (removes b)"
  by (simp add: orset_join_def)

lemma orset_eqI:
  assumes "orset_wf a" "orset_wf b" "map_of (adds a) = map_of (adds b)" "set (removes a) = set (removes b)"
  shows "a = b"
proof -
  have "adds a = adds b" using assms by (intro om_ext) (auto simp: orset_wf_def)
  moreover have "removes a = removes b"
    using assms by (intro strict_sorted_set_eq) (auto simp: orset_wf_def)
  ultimately show ?thesis by simp
qed

lemma wf_new [simp]: "orset_wf orset_new"
  by (simp add: orset_wf_def orset_new_def)

lemma wf_add [simp]: "orset_wf s \<Longrightarrow> orset_wf (orset_add t v s)"
  by (simp add: orset_wf_def orset_add_def)

lemma wf_remove_value [simp]: "orset_wf s \<Longrightarrow> orset_wf (remove_value v s)"
  by (simp add: orset_wf_def remove_value_def)

lemma wf_remove_all [simp]: "orset_wf s \<Longrightarrow> orset_wf (remove_all s)"
  by (simp add: orset_wf_def remove_all_def)

lemma wf_write [simp]: "orset_wf s \<Longrightarrow> orset_wf (reg_write t v s)"
  by (simp add: reg_write_def)

lemma wf_join [simp]: "orset_wf a \<Longrightarrow> orset_wf b \<Longrightarrow> orset_wf (orset_join a b)"
  by (simp add: orset_wf_def orset_join_def om_ok_foldl_put)

lemma orset_ok_iff:
  "orset_ok V s \<longleftrightarrow> orset_wf s \<and> (\<forall>k v. map_of (adds s) k = Some v \<longrightarrow> v = V k)"
proof -
  have "(\<forall>kv \<in> set (adds s). snd kv = V (fst kv)) \<longleftrightarrow> (\<forall>k v. map_of (adds s) k = Some v \<longrightarrow> v = V k)"
    if "orset_wf s"
    using that by (auto simp: orset_wf_def map_of_eq_Some_iff [OF om_ok_distinct])
  then show ?thesis by (auto simp: orset_ok_def)
qed

interpretation orset: join_laws "orset_ok V" orset_join for V
proof
  fix a b c
  show "orset_ok V a \<Longrightarrow> orset_ok V b \<Longrightarrow> orset_ok V (orset_join a b)"
    by (auto simp: orset_ok_iff map_of_join_adds split: option.splits)
  show "orset_ok V a \<Longrightarrow> orset_ok V b \<Longrightarrow> orset_join a b = orset_join b a"
    by (rule orset_eqI) (auto simp: orset_ok_iff map_of_join_adds removes_join fun_eq_iff split: option.splits)
  show "orset_ok V a \<Longrightarrow> orset_ok V b \<Longrightarrow> orset_ok V c \<Longrightarrow>
      orset_join (orset_join a b) c = orset_join a (orset_join b c)"
    by (rule orset_eqI) (auto simp: orset_ok_iff map_of_join_adds removes_join fun_eq_iff split: option.splits)
  show "orset_ok V a \<Longrightarrow> orset_join a a = a"
    by (rule orset_eqI) (auto simp: orset_ok_iff map_of_join_adds removes_join fun_eq_iff split: option.splits)
qed

section \<open>What a reader sees\<close>

definition live_tags :: "orset \<Rightarrow> bytes set" where
  "live_tags s = {t. map_of (adds s) t \<noteq> None \<and> t \<notin> set (removes s)}"

lemma set_live_adds:
  "orset_wf s \<Longrightarrow> kv \<in> set (live_adds s) \<longleftrightarrow> map_of (adds s) (fst kv) = Some (snd kv) \<and> fst kv \<notin> set (removes s)"
  by (cases kv) (auto simp: live_adds_def orset_wf_def map_of_eq_Some_iff [OF om_ok_distinct])

lemma set_values:
  "orset_wf s \<Longrightarrow> v \<in> set (orset_values s) \<longleftrightarrow> (\<exists>t \<in> live_tags s. map_of (adds s) t = Some v)"
  by (auto simp: orset_values_def live_tags_def image_iff set_live_adds Bex_def)

lemma values_sorted: "sorted_wrt (<) (orset_values s)"
  by (simp add: orset_values_def)

lemma values_eqI: "set (orset_values s) = set vs \<Longrightarrow> sorted_wrt (<) vs \<Longrightarrow> orset_values s = vs"
  by (rule strict_sorted_set_eq) (simp_all add: values_sorted)

lemma map_of_add [simp]:
  "orset_wf s \<Longrightarrow> map_of (adds (orset_add t v s)) = (map_of (adds s))(t \<mapsto> v)"
  by (simp add: orset_add_def orset_wf_def)

lemma removes_add [simp]: "removes (orset_add t v s) = removes s"
  by (simp add: orset_add_def)

lemma adds_remove_all [simp]: "adds (remove_all s) = adds s"
  by (simp add: remove_all_def)

lemma adds_remove_value [simp]: "adds (remove_value v s) = adds s"
  by (simp add: remove_value_def)

lemma removes_remove_all [simp]:
  "set (removes (remove_all s)) = set (removes s) \<union> {t. map_of (adds s) t \<noteq> None}"
  by (auto simp: remove_all_def map_of_eq_None_iff)

lemma removes_remove_value [simp]:
  "orset_wf s \<Longrightarrow>
   set (removes (remove_value v s)) = set (removes s) \<union> {t. map_of (adds s) t = Some v}"
  by (auto simp: remove_value_def orset_wf_def map_of_eq_Some_iff [OF om_ok_distinct] image_iff)

lemma live_tags_join:
  "orset_wf a \<Longrightarrow> orset_wf b \<Longrightarrow>
   t \<in> live_tags (orset_join a b) \<longleftrightarrow>
   (map_of (adds a) t \<noteq> None \<or> map_of (adds b) t \<noteq> None) \<and> t \<notin> set (removes a) \<and> t \<notin> set (removes b)"
  by (auto simp: live_tags_def map_of_join_adds removes_join split: option.splits)

text \<open>Observed remove: a removal retires what its peer saw and nothing else, so an add the
  removal did not see survives it, and a retired tag never comes back.\<close>

lemma add_survives_remove:
  assumes "orset_wf s" "map_of (adds s) t = None" "t \<notin> set (removes s)"
  shows "set (orset_values (orset_join (remove_value v s) (orset_add t v s))) =
    insert v (set (orset_values s) - {v})"
proof -
  let ?j = "orset_join (remove_value v s) (orset_add t v s)"
  have m: "map_of (adds ?j) k = (if k = t then Some v else map_of (adds s) k)" for k
    using assms(1) by (simp add: map_of_join_adds split: option.split)
  have l: "k \<in> live_tags ?j \<longleftrightarrow> k = t \<or> k \<in> live_tags s \<and> map_of (adds s) k \<noteq> Some v" for k
    using assms by (auto simp: live_tags_join) (auto simp: live_tags_def split: if_splits)
  have w: "orset_wf ?j" using assms(1) by simp
  have "w \<in> set (orset_values ?j) \<longleftrightarrow> w = v \<or> w \<in> set (orset_values s) \<and> w \<noteq> v" for w
  proof (cases "w = v")
    case True
    have "t \<in> live_tags ?j" by (simp add: l)
    then show ?thesis unfolding set_values [OF w] m using True by force
  next
    case False
    have "map_of (adds ?j) k = Some w \<longleftrightarrow> map_of (adds s) k = Some w" for k
      using m False assms(2) by auto
    moreover have "k \<in> live_tags ?j \<longleftrightarrow> k \<in> live_tags s" if "map_of (adds s) k = Some w" for k
      using that l False assms(2) by auto
    ultimately show ?thesis
      unfolding set_values [OF w] set_values [OF assms(1)] using False by blast
  qed
  then show ?thesis by auto
qed

text \<open>A retired tag never becomes live again, whatever is merged.\<close>

theorem retired_stays_retired:
  assumes "orset_wf s" "\<forall>x \<in> set xs. orset_wf x" "t \<in> set (removes s)"
  shows "t \<notin> live_tags (foldl orset_join s xs)"
  using assms
proof (induction xs arbitrary: s)
  case (Cons x xs)
  then show ?case by (simp add: removes_join)
qed (simp add: live_tags_def)

text \<open>A write with a fresh tag leaves one value; two concurrent writes leave both.\<close>

definition fresh_tag :: "bytes \<Rightarrow> orset \<Rightarrow> bool" where
  "fresh_tag t s \<longleftrightarrow> map_of (adds s) t = None \<and> t \<notin> set (removes s)"

lemma live_tags_write: "orset_wf s \<Longrightarrow> fresh_tag t s \<Longrightarrow> live_tags (reg_write t v s) = {t}"
  by (auto simp: reg_write_def live_tags_def fresh_tag_def split: if_splits)

lemma values_write:
  assumes "orset_wf s" "fresh_tag t s"
  shows "orset_values (reg_write t v s) = [v]"
  using assms by (intro values_eqI) (auto simp: set_values live_tags_write, auto simp: reg_write_def)

text \<open>Two concurrent writes of a register both survive: exactly the two
  values.\<close>

theorem concurrent_writes_conflict:
  assumes "orset_wf s" "fresh_tag t s" "fresh_tag u s" "t \<noteq> u"
  shows "orset_values (orset_join (reg_write t v s) (reg_write u w s)) = sort_unique [v, w]"
proof (rule values_eqI)
  let ?j = "orset_join (reg_write t v s) (reg_write u w s)"
  have m: "map_of (adds ?j) k = (if k = u then Some w else if k = t then Some v else map_of (adds s) k)" for k
    using assms(1,2) by (auto simp: map_of_join_adds reg_write_def fresh_tag_def split: option.split)
  have l: "live_tags ?j = {t, u}"
    using assms by (auto simp: live_tags_join) (auto simp: reg_write_def fresh_tag_def split: if_splits)
  show "set (orset_values ?j) = set (sort_unique [v, w])"
    using assms(1,4) by (auto simp: set_values l m)
qed simp

section \<open>Through JSON and back\<close>

lemma hexify_to_hex: "hexify raw = to_hex raw"
  by (simp add: hexify_def to_hex_def)

lemma nib_hex_digit: "unat n < 16 \<Longrightarrow> nib (hex_digit n) = Some n"
proof -
  assume "unat n < 16"
  then have "word_of_nat (unat n) \<in> (word_of_nat :: nat \<Rightarrow> byte) ` set [0..<16]"
    by (intro imageI) simp
  then have "n \<in> set (map word_of_nat [0..<16])" by (simp only: set_map) simp
  moreover have "\<forall>n \<in> set (map word_of_nat [0..<16]). nib (hex_digit n) = Some n"
    by code_simp
  ultimately show ?thesis by blast
qed

lemma byte_nibbles: "drop_bit 4 c * 16 + (c AND 0xF) = (c :: byte)"
proof -
  have "(0xF :: byte) = mask 4" by (simp add: mask_eq_exp_minus_1)
  then have "drop_bit 4 c * 16 + (c AND 0xF) = push_bit 4 (drop_bit 4 c) + take_bit 4 c"
    by (simp add: push_bit_eq_mult take_bit_eq_mask)
  also have "\<dots> = c" by (rule bits_ident)
  finally show ?thesis .
qed

lemma unhex_hexify [simp]: "unhex_strict (hexify raw) = Some raw"
proof -
  have "unhex_pairs (hexify raw) = Some raw"
    by (induction raw) (auto simp: hexify_def nib_hex_digit nibble_range byte_nibbles)
  moreover have "length (hexify raw) mod 2 = 0" by (simp add: hexify_to_hex)
  ultimately show ?thesis by (simp add: unhex_strict_def)
qed

lemma nul_free_hexify: "nul_free (hexify raw)"
proof -
  have "nib 0 = None" by (simp add: nib_def)
  then have "hex_digit n \<noteq> 0" if "unat n < 16" for n using nib_hex_digit [OF that] by force
  then show ?thesis by (auto simp: nul_free_def hexify_def nibble_range)
qed

lemma from_json_wf [simp]: "orset_wf (orset_from_json v)"
proof -
  have "om_ok m \<Longrightarrow> om_ok (foldl from_add m kvs)" for m kvs
    by (induction kvs arbitrary: m) (auto simp: from_add_def split: option.splits)
  moreover have "sorted_wrt (<) rs \<Longrightarrow> sorted_wrt (<) (foldl from_remove rs ts)" for rs ts
    by (induction ts arbitrary: rs) (auto simp: from_remove_def split: option.splits)
  ultimately show ?thesis by (simp add: orset_wf_def orset_from_json_def Let_def)
qed

text \<open>Tags a document can carry: the keys of a JSON object.\<close>

definition tags_printable :: "orset \<Rightarrow> bool" where
  "tags_printable s \<longleftrightarrow>
     (\<forall>kv \<in> set (adds s). fst kv \<noteq> [] \<and> nul_free (fst kv)) \<and>
     (\<forall>t \<in> set (removes s). t \<noteq> [] \<and> nul_free t)"

lemma om_put_last:
  "om_ok (m @ [(k, v)]) \<Longrightarrow> om_put k v m = m @ [(k, v)]"
  by (induction m) (auto simp: om_ok_def)

lemma os_insert_last: "sorted_wrt (<) (xs @ [x]) \<Longrightarrow> os_insert x xs = xs @ [x]"
  by (induction xs) auto

lemma orset_from_to_json:
  assumes "orset_wf s" "tags_printable s"
  shows "orset_json_well_formed (Some (orset_to_json s)) \<and>
    orset_from_json (Some (orset_to_json s)) = s"
proof -
  let ?j = "\<lambda>kv. (c_str (fst kv), JString (hexify (snd kv)))"
  have ne: "ascii ''r'' \<noteq> ascii ''a''" by simp
  have g: "get (Some (orset_to_json s)) (ascii ''a'') = Some (JObject (map ?j (adds s)))"
    "get (Some (orset_to_json s)) (ascii ''r'') = Some (JArray (map mk_string (removes s)))"
    by (simp_all add: orset_to_json_def)
  have h: "hex_string (JString (hexify raw)) = Some raw" for raw by (simp add: hex_string_def)
  have n: "nonempty_string (Some (mk_string t)) = Some t" if "t \<in> set (removes s)" for t
    using assms(2) that by (simp add: tags_printable_def nonempty_string_def mk_string_def)
  have "foldl from_add [] (map ?j m) = m" if "om_ok m" "\<forall>kv \<in> set m. fst kv \<noteq> [] \<and> nul_free (fst kv)" for m
    using that
  proof (induction m rule: rev_induct)
    case (snoc kv m)
    have "om_ok m" using snoc.prems(1) by (simp add: om_ok_def sorted_wrt_append)
    then show ?case
      using snoc om_put_last [of m "fst kv" "snd kv"] by (simp add: from_add_def h)
  qed simp
  moreover have "foldl from_remove [] (map mk_string ts) = ts"
    if "sorted_wrt (<) ts" "set ts \<subseteq> set (removes s)" for ts
    using that
  proof (induction ts rule: rev_induct)
    case (snoc t ts)
    then show ?case
      using os_insert_last [of ts t] n by (simp add: from_remove_def sorted_wrt_append)
  qed simp
  ultimately have "orset_from_json (Some (orset_to_json s)) = s"
    using assms by (simp add: orset_from_json_def g Let_def orset_wf_def tags_printable_def)
  moreover have "orset_json_well_formed (Some (orset_to_json s))"
    unfolding orset_json_well_formed_def g using assms(2) n
    by (auto simp: orset_to_json_def h tags_printable_def)
  ultimately show ?thesis by simp
qed

text \<open>With one tag carrying two values the union depends on the order.\<close>

theorem orset_join_clash:
  assumes "v \<noteq> w"
  shows "orset_join (orset_add t v orset_new) (orset_add t w orset_new) \<noteq>
    orset_join (orset_add t w orset_new) (orset_add t v orset_new)"
  using assms by (simp add: orset_join_def orset_add_def orset_new_def)

section \<open>The promises of the primitive\<close>

text \<open>C24. A removal retires what its peer saw and nothing else: an add the removal did not see
  survives the merge of the two.\<close>

theorem concurrent_add_survives:
  assumes "orset_wf s" "map_of (adds s) t = None" "t \<notin> set (removes s)"
  shows "set (orset_values (orset_join (remove_value v s) (orset_add t v s))) =
    insert v (set (orset_values s) - {v})"
  using assms by (rule add_survives_remove)

text \<open>A write under a fresh tag leaves one value: the one written.\<close>

theorem write_leaves_one:
  assumes "orset_wf s" "fresh_tag t s"
  shows "orset_values (reg_write t v s) = [v]"
  using assms by (rule values_write)

text \<open>The JSON form of a set is accepted and reads back as the set.\<close>

theorem orset_json_roundtrip:
  assumes "orset_wf s" "tags_printable s"
  shows "orset_json_well_formed (Some (orset_to_json s)) \<and>
    orset_from_json (Some (orset_to_json s)) = s"
  using assms by (rule orset_from_to_json)

text \<open>The join of sets whose tags name one value each is a semilattice: order, grouping and
  repetition of what arrives do not matter.\<close>

theorem orset_join_semilattice:
  assumes "orset_ok V a" "orset_ok V b" "orset_ok V c"
  shows "orset_join a b = orset_join b a \<and> orset_join (orset_join a b) c = orset_join a (orset_join b c) \<and>
    orset_join a a = a \<and> orset_ok V (orset_join a b)"
  using orset.jn_comm [OF assms(1,2)] orset.jn_assoc [OF assms] orset.jn_idem [OF assms(1)]
    orset.jn_ok [OF assms(1,2)] by (intro conjI)

section \<open>At concrete inputs\<close>

theorem orset_join_semilattice_witness:
  "orset_join (orset_add [1] [7] orset_new) (orset_add [2] [8] orset_new) =
   orset_join (orset_add [2] [8] orset_new) (orset_add [1] [7] orset_new)"
proof -
  let ?V = "\<lambda>t. if t = [1] then [7] else [8]"
  have "orset_ok ?V (orset_add [1] [7] orset_new)" "orset_ok ?V (orset_add [2] [8] orset_new)" "orset_ok ?V orset_new"
    by (simp_all add: orset_ok_def orset_wf_def om_ok_def orset_add_def orset_new_def)
  then show ?thesis using orset_join_semilattice by blast
qed

theorem concurrent_add_survives_witness:
  "set (orset_values (orset_join (remove_value [7] (orset_add [1] [7] orset_new))
     (orset_add [2] [7] (orset_add [1] [7] orset_new)))) = {[7]}"
proof -
  let ?s = "orset_add [1] [7] orset_new"
  have "orset_values ?s = [[7]]" by code_simp
  moreover have "set (orset_values (orset_join (remove_value [7] ?s) (orset_add [2] [7] ?s))) =
      insert [7] (set (orset_values ?s) - {[7]})"
    by (rule concurrent_add_survives) (simp, simp_all add: orset_add_def orset_new_def)
  ultimately show ?thesis by simp
qed

theorem retired_stays_retired_witness:
  "[1] \<notin> live_tags (foldl orset_join (remove_all (orset_add [1] [7] orset_new)) [orset_add [1] [7] orset_new])"
proof (rule retired_stays_retired)
  show "[1] \<in> set (removes (remove_all (orset_add [1] [7] orset_new)))" by code_simp
qed simp_all

theorem write_leaves_one_witness:
  "orset_values (reg_write [2] [9] (orset_add [1] [7] orset_new)) = [[9]]"
  by (rule write_leaves_one) (simp, simp add: fresh_tag_def orset_add_def orset_new_def)

theorem concurrent_writes_conflict_witness:
  "orset_values (orset_join (reg_write [2] [9] orset_new) (reg_write [3] [7] orset_new)) = [[7], [9]]"
proof -
  have "orset_values (orset_join (reg_write [2] [9] orset_new) (reg_write [3] [7] orset_new)) = sort_unique [[9], [7]]"
    by (rule concurrent_writes_conflict) (simp_all add: fresh_tag_def orset_new_def orset_wf_def)
  moreover have "sort_unique [[9], [7]] = ([[7], [9]] :: bytes list)" by code_simp
  ultimately show ?thesis by simp
qed

theorem orset_json_roundtrip_witness:
  "orset_from_json (Some (orset_to_json (remove_all (orset_add [1] [7] orset_new)))) =
   remove_all (orset_add [1] [7] orset_new)"
proof -
  have "tags_printable (remove_all (orset_add [1] [7] orset_new))" by code_simp
  then show ?thesis using orset_json_roundtrip [of "remove_all (orset_add [1] [7] orset_new)"] by simp
qed

theorem orset_join_clash_witness:
  "orset_join (orset_add [1] [7] orset_new) (orset_add [1] [8] orset_new) \<noteq>
   orset_join (orset_add [1] [8] orset_new) (orset_add [1] [7] orset_new)"
  by (rule orset_join_clash) simp

end
