(* ===== verification/Policy.thy ===== *)
theory Policy
  imports OrSet
begin

text \<open>
  Declared joins, applied when a register is read (\<^verbatim>\<open>src/crdt/policy.cpp\<close>, and the stamps of
  \<^verbatim>\<open>src/crdt/internal.hpp\<close>): the live values of a register, the four ways to resolve them,
  the rank of a tag, and the lookup of a field's policy.
\<close>

datatype field_join = FConflict | FPick | FMax | FLatest

record live =
  conflicted :: bool
  lvalues :: "bytes list"

datatype stamp = Stamp (st_n: "64 word") (st_writer: bytes) (st_tag: bytes)

definition stamp_before :: "stamp \<Rightarrow> stamp \<Rightarrow> bool" where
  "stamp_before a b \<longleftrightarrow>
     (if st_n a \<noteq> st_n b then st_n a < st_n b
      else if st_writer a \<noteq> st_writer b then st_writer a < st_writer b
      else st_tag a < st_tag b)"

instantiation stamp :: linorder
begin

definition less_stamp :: "stamp \<Rightarrow> stamp \<Rightarrow> bool" where
  "less_stamp a b \<longleftrightarrow> stamp_before a b"

definition less_eq_stamp :: "stamp \<Rightarrow> stamp \<Rightarrow> bool" where
  "less_eq_stamp a b \<longleftrightarrow> a < b \<or> a = b"

instance
proof
  fix a b c :: stamp
  show "a < b \<longleftrightarrow> a \<le> b \<and> \<not> b \<le> a"
    by (cases a; cases b) (auto simp: less_stamp_def stamp_before_def less_eq_stamp_def split: if_splits)
  show "a \<le> a" by (simp add: less_eq_stamp_def)
  show "a \<le> b \<Longrightarrow> b \<le> c \<Longrightarrow> a \<le> c"
    by (cases a; cases b; cases c) (auto simp: less_stamp_def stamp_before_def less_eq_stamp_def split: if_splits)
  show "a \<le> b \<Longrightarrow> b \<le> a \<Longrightarrow> a = b"
    by (cases a; cases b) (auto simp: less_stamp_def stamp_before_def less_eq_stamp_def split: if_splits)
  show "a \<le> b \<or> b \<le> a"
    by (cases a; cases b) (auto simp: less_stamp_def stamp_before_def less_eq_stamp_def split: if_splits)
qed

end

text \<open>The text after the last \<^verbatim>\<open>_\<close>, if there is one.\<close>

definition rsplit :: "bytes \<Rightarrow> (bytes \<times> bytes) option" where
  "rsplit tag =
     (if 0x5f \<notin> set tag then None
      else let d = rev (takeWhile (\<lambda>c. c \<noteq> 0x5f) (rev tag))
           in Some (take (length tag - Suc (length d)) tag, d))"

definition digits_limit :: "64 word" where
  "digits_limit = (0xFFFFFFFFFFFFFFFF - 9) div 10"

fun stamp_digits :: "64 word \<Rightarrow> bytes \<Rightarrow> 64 word option" where
  "stamp_digits n [] = Some n"
| "stamp_digits n (c # cs) =
     (if c < 0x30 \<or> c > 0x39 \<or> n > digits_limit then None
      else stamp_digits (n * 10 + ucast (c - 0x30)) cs)"

definition stamp_of :: "bytes \<Rightarrow> stamp" where
  "stamp_of tag =
     (case rsplit tag of None \<Rightarrow> Stamp 0 [] tag
      | Some (w, d) \<Rightarrow>
          (case stamp_digits 0 d of None \<Rightarrow> Stamp 0 w tag
           | Some n \<Rightarrow> Stamp (if d \<noteq> [] then n else 0) w tag))"

definition live_of :: "json option \<Rightarrow> live" where
  "live_of reg =
     (let vs = orset_values (orset_from_json reg)
      in \<lparr> conflicted = length vs > 1, lvalues = vs \<rparr>)"

text \<open>The loop of \<^verbatim>\<open>FieldJoin::Max\<close>: whether all values are numbers, and the best so far.\<close>

definition max_step :: "bool \<times> (dbl \<times> bytes) option \<Rightarrow> bytes \<Rightarrow> bool \<times> (dbl \<times> bytes) option" where
  "max_step st v =
     (case as_number (decode v) of None \<Rightarrow> (False, snd st)
      | Some x \<Rightarrow>
          (case snd st of None \<Rightarrow> (fst st, Some (x, v))
           | Some (y, w) \<Rightarrow> if dbl_less y x then (fst st, Some (x, v)) else st))"

definition latest_step :: "(stamp \<times> bytes) option \<Rightarrow> bytes \<times> bytes \<Rightarrow> (stamp \<times> bytes) option" where
  "latest_step best kv =
     (let st = stamp_of (fst kv) in
      case best of None \<Rightarrow> Some (st, snd kv)
      | Some (bs, bv) \<Rightarrow>
          if bs < st \<or> \<not> st < bs \<and> bv < snd kv then Some (st, snd kv) else best)"

definition resolve :: "json option \<Rightarrow> field_join \<Rightarrow> live" where
  "resolve reg how =
     (let l = live_of reg in
      if \<not> conflicted l then l
      else case how of
        FPick \<Rightarrow> \<lparr> conflicted = False, lvalues = take 1 (lvalues l) \<rparr>
      | FMax \<Rightarrow>
          (case foldl max_step (True, None) (lvalues l) of
             (True, Some (x, v)) \<Rightarrow> \<lparr> conflicted = False, lvalues = [v] \<rparr>
           | _ \<Rightarrow> l)
      | FLatest \<Rightarrow>
          (case foldl latest_step None (live_adds (orset_from_json reg)) of
             Some (st, v) \<Rightarrow> \<lparr> conflicted = False, lvalues = [v] \<rparr>
           | None \<Rightarrow> l)
      | FConflict \<Rightarrow> l)"

definition first_or_null :: "live \<Rightarrow> json option" where
  "first_or_null l = (case lvalues l of [] \<Rightarrow> Some JNull | v # _ \<Rightarrow> decode v)"

record join_policy =
  pfields :: "(bytes, field_join) omap"
  fallback :: field_join

definition lookup_step ::
    "bytes \<Rightarrow> bytes option \<times> field_join \<Rightarrow> bytes \<times> field_join \<Rightarrow> bytes option \<times> field_join" where
  "lookup_step field st kv =
     (if length (fst kv) < 2 \<or> last (fst kv) \<noteq> 0x2a then st
      else let prefix = butlast (fst kv) in
        if take (length prefix) field \<noteq> prefix then st
        else case fst st of
          None \<Rightarrow> (Some (fst kv), snd kv)
        | Some best \<Rightarrow> if length prefix > length best then (Some (fst kv), snd kv) else st)"

definition lookup :: "join_policy \<Rightarrow> bytes \<Rightarrow> field_join" where
  "lookup p field =
     (case map_of (pfields p) field of Some j \<Rightarrow> j
      | None \<Rightarrow> snd (foldl (lookup_step field) (None, fallback p) (pfields p)))"

definition core_defaults :: join_policy where
  "core_defaults =
     \<lparr> pfields = om_put (ascii ''id'') FPick (om_put (ascii ''placement'') FLatest []),
       fallback = FConflict \<rparr>"

section \<open>Resolution shows a value the register holds\<close>

lemma live_of_simps [simp]:
  "lvalues (live_of reg) = orset_values (orset_from_json reg)"
  "conflicted (live_of reg) \<longleftrightarrow> length (orset_values (orset_from_json reg)) > 1"
  by (simp_all add: live_of_def Let_def)

lemma foldl_max_snd:
  "snd (foldl max_step st vs) = Some (x, v) \<Longrightarrow> v \<in> set vs \<or> snd st = Some (x, v)"
proof (induction vs arbitrary: st)
  case (Cons w vs)
  then have "v \<in> set vs \<or> snd (max_step st w) = Some (x, v)" by simp
  then show ?case by (auto simp: max_step_def split: option.splits if_splits prod.splits)
qed simp

lemma foldl_latest_mem:
  "foldl latest_step b kvs = Some (st, v) \<Longrightarrow>
   b = Some (st, v) \<or> (\<exists>t. (t, v) \<in> set kvs \<and> st = stamp_of t)"
proof (induction kvs arbitrary: b)
  case (Cons kv kvs)
  then have "latest_step b kv = Some (st, v) \<or> (\<exists>t. (t, v) \<in> set kvs \<and> st = stamp_of t)" by simp
  then show ?case by (cases kv) (auto simp: latest_step_def Let_def split: option.splits if_splits)
qed simp

lemma foldl_latest_max:
  assumes "foldl latest_step b kvs = Some (st, v)"
  shows "(\<forall>bs bv. b = Some (bs, bv) \<longrightarrow> bs \<le> st) \<and> (\<forall>kv \<in> set kvs. stamp_of (fst kv) \<le> st)"
  using assms
proof (induction kvs arbitrary: b)
  case (Cons kv kvs)
  then obtain bs bv where s: "latest_step b kv = Some (bs, bv)"
    by (auto simp: latest_step_def Let_def split: option.splits if_splits)
  with Cons have "bs \<le> st" "\<forall>kv \<in> set kvs. stamp_of (fst kv) \<le> st" by auto
  moreover have "stamp_of (fst kv) \<le> bs" "\<forall>cs cv. b = Some (cs, cv) \<longrightarrow> cs \<le> bs"
    using s by (auto simp: latest_step_def Let_def split: option.splits if_splits)
  ultimately show ?case by force
qed simp

lemma foldl_latest_some: "kvs \<noteq> [] \<or> b \<noteq> None \<Longrightarrow> foldl latest_step b kvs \<noteq> None"
proof (induction kvs arbitrary: b)
  case (Cons kv kvs)
  have "latest_step b kv \<noteq> None" by (auto simp: latest_step_def Let_def split: option.splits)
  with Cons.IH show ?case by simp
qed simp

lemma values_live_adds: "set (orset_values s) = snd ` set (live_adds s)"
  by (simp add: orset_values_def)

lemma values_empty_iff: "orset_values s = [] \<longleftrightarrow> live_adds s = []"
  using values_live_adds [of s] by (metis image_is_empty set_empty)

text \<open>A resolution shows only values the register holds and never hides all of
  them.\<close>

theorem resolve_shows_held:
  "set (lvalues (resolve reg how)) \<subseteq> set (lvalues (live_of reg)) \<and>
   (lvalues (resolve reg how) = [] \<longleftrightarrow> lvalues (live_of reg) = []) \<and>
   (conflicted (resolve reg how) \<longrightarrow> lvalues (resolve reg how) = lvalues (live_of reg)) \<and>
   (conflicted (resolve reg how) \<longleftrightarrow> length (lvalues (resolve reg how)) > 1)"
proof (cases "conflicted (live_of reg)")
  case True
  let ?vs = "orset_values (orset_from_json reg)"
  from True have ne: "?vs \<noteq> []" by auto
  show ?thesis
  proof (cases how)
    case FPick
    with True ne show ?thesis
      by (cases ?vs) (auto simp: resolve_def Let_def)
  next
    case FMax
    obtain ok best where f: "foldl max_step (True, None) ?vs = (ok, best)"
      by (cases "foldl max_step (True, None) ?vs")
    have "v \<in> set ?vs" if "best = Some (x, v)" for x v
      using foldl_max_snd [of "(True, None)" ?vs x v] f that by simp
    with FMax True ne f show ?thesis
      by (auto simp: resolve_def Let_def split: bool.split option.split)
  next
    case FLatest
    obtain st v where f: "foldl latest_step None (live_adds (orset_from_json reg)) = Some (st, v)"
      using foldl_latest_some [of "live_adds (orset_from_json reg)" None] ne
      by (auto simp: values_empty_iff)
    then have "v \<in> set ?vs"
      using foldl_latest_mem [OF f] by (force simp: values_live_adds)
    with FLatest True ne f show ?thesis by (auto simp: resolve_def Let_def)
  next
    case FConflict
    with True show ?thesis by (simp add: resolve_def Let_def)
  qed
qed (simp add: resolve_def Let_def)

text \<open>C19. A \<open>Latest\<close> field shows a value under a live tag that no live tag outranks.\<close>

theorem resolve_latest:
  assumes "conflicted (live_of reg)"
  shows "\<exists>t v. map_of (adds (orset_from_json reg)) t = Some v \<and>
    t \<in> live_tags (orset_from_json reg) \<and> lvalues (resolve reg FLatest) = [v] \<and>
    (\<forall>u \<in> live_tags (orset_from_json reg). stamp_of u \<le> stamp_of t)"
proof -
  let ?s = "orset_from_json reg"
  from assms have "live_adds ?s \<noteq> []" by (auto simp flip: values_empty_iff)
  then obtain st v where f: "foldl latest_step None (live_adds ?s) = Some (st, v)"
    using foldl_latest_some by fastforce
  from foldl_latest_mem [OF f] obtain t where t: "(t, v) \<in> set (live_adds ?s)" "st = stamp_of t" by auto
  have "\<forall>u \<in> live_tags ?s. stamp_of u \<le> st"
  proof
    fix u assume "u \<in> live_tags ?s"
    then obtain w where "(u, w) \<in> set (live_adds ?s)"
      by (auto simp: set_live_adds live_tags_def)
    with foldl_latest_max [OF f] show "stamp_of u \<le> st" by fastforce
  qed
  moreover have "lvalues (resolve reg FLatest) = [v]" using assms f by (simp add: resolve_def Let_def)
  ultimately show ?thesis
    using t set_live_adds [of ?s "(t, v)"] by (auto simp: live_tags_def)
qed

text \<open>A \<open>Max\<close> field whose values are all numbers shows one that none of them exceeds.\<close>

definition num_of :: "bytes \<Rightarrow> dbl option" where
  "num_of v = as_number (decode v)"

lemma dbl_less_trans: "dbl_less x y \<Longrightarrow> dbl_less y z \<Longrightarrow> dbl_less x z"
  by (auto simp: dbl_less_def)

lemma dbl_less_cotrans: "\<not> dbl_less y x \<Longrightarrow> \<not> dbl_is_nan y \<Longrightarrow> dbl_less y z \<Longrightarrow> \<not> dbl_is_nan x \<Longrightarrow> dbl_less x z"
  by (auto simp: dbl_less_def)

lemma foldl_max_best:
  assumes "\<forall>v \<in> set vs. \<exists>x. num_of v = Some x \<and> \<not> dbl_is_nan x"
    and "\<And>y w. b = Some (y, w) \<Longrightarrow> \<not> dbl_is_nan y" "vs \<noteq> [] \<or> b \<noteq> None"
  shows "\<exists>x v. foldl max_step (True, b) vs = (True, Some (x, v)) \<and> \<not> dbl_is_nan x \<and>
    (b = Some (x, v) \<or> v \<in> set vs \<and> num_of v = Some x) \<and>
    (\<forall>y w. b = Some (y, w) \<longrightarrow> \<not> dbl_less x y) \<and>
    (\<forall>w \<in> set vs. \<forall>y. num_of w = Some y \<longrightarrow> \<not> dbl_less x y)"
  using assms
proof (induction vs arbitrary: b)
  case Nil
  then show ?case by (auto simp: dbl_less_def)
next
  case (Cons w vs)
  from Cons.prems(1) obtain y where y: "num_of w = Some y" "\<not> dbl_is_nan y" by auto
  obtain c where c: "max_step (True, b) w = (True, Some c)"
      "c = (y, w) \<and> (\<forall>z u. b = Some (z, u) \<longrightarrow> dbl_less z y) \<or> b = Some c \<and> \<not> dbl_less (fst c) y"
  proof (cases b)
    case None
    with y(1) show thesis by (intro that [of "(y, w)"]) (auto simp: max_step_def num_of_def)
  next
    case (Some p)
    show thesis
    proof (cases "dbl_less (fst p) y")
      case True
      with y(1) Some show thesis
        by (intro that [of "(y, w)"]) (cases p; auto simp: max_step_def num_of_def)+
    next
      case False
      with y(1) Some show thesis by (intro that [of p]) (cases p; auto simp: max_step_def num_of_def)+
    qed
  qed
  have nan: "\<not> dbl_is_nan z" if "Some c = Some (z, u)" for z u
    using that c(2) y(2) Cons.prems(2) by (cases c) auto
  have "\<exists>x v. foldl max_step (True, Some c) vs = (True, Some (x, v)) \<and> \<not> dbl_is_nan x \<and>
    (Some c = Some (x, v) \<or> v \<in> set vs \<and> num_of v = Some x) \<and>
    (\<forall>y w. Some c = Some (y, w) \<longrightarrow> \<not> dbl_less x y) \<and>
    (\<forall>w \<in> set vs. \<forall>y. num_of w = Some y \<longrightarrow> \<not> dbl_less x y)"
    using Cons.prems(1) nan by (intro Cons.IH) auto
  then obtain x v where x: "foldl max_step (True, Some c) vs = (True, Some (x, v))" "\<not> dbl_is_nan x"
    "c = (x, v) \<or> v \<in> set vs \<and> num_of v = Some x" "\<not> dbl_less x (fst c)"
    "\<forall>w \<in> set vs. \<forall>y. num_of w = Some y \<longrightarrow> \<not> dbl_less x y"
    by (cases c) auto
  have "\<not> dbl_less x y"
    using c(2) x(2,4) y(2) nan [of "fst c" "snd c"] dbl_less_cotrans [of x "fst c" y] by auto
  moreover have "\<not> dbl_less x z" if "b = Some (z, u)" for z u
    using c(2) x(4) that Cons.prems(2) [OF that] dbl_less_trans [of x z y] calculation
    by (cases c) auto
  ultimately show ?case
    using c x y(1) by (auto intro!: exI [of _ x] exI [of _ v])
qed

text \<open>Max shows a value no other value exceeds.\<close>

theorem resolve_max:
  assumes "conflicted (live_of reg)"
    and "\<forall>v \<in> set (lvalues (live_of reg)). \<exists>x. num_of v = Some x \<and> \<not> dbl_is_nan x"
  shows "\<exists>v x. lvalues (resolve reg FMax) = [v] \<and> num_of v = Some x \<and>
    (\<forall>w \<in> set (lvalues (live_of reg)). \<forall>y. num_of w = Some y \<longrightarrow> \<not> dbl_less x y)"
proof -
  let ?vs = "lvalues (live_of reg)"
  have ne: "?vs \<noteq> []" using assms(1) by auto
  from foldl_max_best [OF assms(2), of None] ne obtain x v where
    "foldl max_step (True, None) ?vs = (True, Some (x, v))" "num_of v = Some x"
    "\<forall>w \<in> set ?vs. \<forall>y. num_of w = Some y \<longrightarrow> \<not> dbl_less x y"
    by auto
  then show ?thesis using assms(1) by (auto simp: resolve_def Let_def)
qed

section \<open>The rank of a tag\<close>

lemma rsplit_join: "0x5f \<notin> set d \<Longrightarrow> rsplit (w @ 0x5f # d) = Some (w, d)"
proof -
  assume d: "0x5f \<notin> set d"
  have "takeWhile (\<lambda>c. c \<noteq> 0x5f) (rev d @ 0x5f # rev w) = rev d"
    using d by (subst takeWhile_append2) auto
  then show ?thesis by (simp add: rsplit_def Let_def)
qed

lemma stamp_digits_append:
  "stamp_digits n (a @ b) = (case stamp_digits n a of None \<Rightarrow> None | Some m \<Rightarrow> stamp_digits m b)"
  by (induction n a rule: stamp_digits.induct) auto

text \<open>Under the guard the arithmetic does not wrap.\<close>

lemma unat_digits_limit: "unat digits_limit = (2 ^ 64 - 1 - 9) div 10"
  by (simp add: digits_limit_def)

lemma stamp_digits_no_wrap:
  assumes "\<not> n > digits_limit" "k < 10" "c - 0x30 = (word_of_nat k :: byte)"
  shows "unat (n * 10 + ucast (c - 0x30)) = unat n * 10 + k"
proof -
  have n: "unat n \<le> (2 ^ 64 - 1 - 9) div 10"
    using assms(1) by (simp only: not_less word_le_nat_alt unat_digits_limit)
  have u: "unat (ucast (c - 0x30) :: 64 word) = k"
    using assms(2) by (simp add: assms(3) unsigned_ucast_eq unsigned_of_nat take_bit_eq_mod)
  have "unat n * 10 < 2 ^ 64" using n by simp
  then have "unat (n * 10) = unat n * 10" by (simp add: unat_word_ariths)
  then show ?thesis using n assms(2) by (simp add: unat_word_ariths u)
qed

lemma digit_byte:
  assumes "k < 10"
  shows "unat (48 + word_of_nat k :: byte) = 48 + k"
proof -
  have "unat (word_of_nat k :: byte) = k" using assms by (intro unat_word_of_nat) simp
  with assms show ?thesis by (simp add: unat_word_ariths)
qed

lemma digit_byte_ok: "k < 10 \<Longrightarrow> \<not> ((48 + word_of_nat k :: byte) < 0x30 \<or> (48 + word_of_nat k :: byte) > 0x39)"
  using digit_byte [of k] by (auto simp: word_less_nat_alt)

lemma stamp_digits_one:
  assumes "k < 10" "unat n * 10 + k \<le> 2 ^ 64 - 1 - 9"
  shows "stamp_digits n [48 + word_of_nat k] = Some (word_of_nat (unat n * 10 + k))"
proof -
  let ?c = "48 + word_of_nat k :: byte"
  have le: "\<not> n > digits_limit"
    using assms(2) by (simp add: not_less word_le_nat_alt unat_digits_limit)
  have "stamp_digits n [?c] = Some (n * 10 + ucast (?c - 0x30))"
    using digit_byte_ok [OF assms(1)] le by (simp only: stamp_digits.simps) auto
  moreover have "unat (n * 10 + ucast (?c - 0x30)) = unat n * 10 + k"
    using le assms(1) by (rule stamp_digits_no_wrap) simp
  ultimately show ?thesis by (metis of_nat_unat ucast_id)
qed

lemma stamp_digits_to_string: "n \<le> 2 ^ 64 - 1 - 9 \<Longrightarrow> stamp_digits 0 (to_string n) = Some (word_of_nat n)"
proof (induction n rule: to_string.induct)
  case (1 n)
  show ?case
  proof (cases "n < 10")
    case True
    with 1 stamp_digits_one [of n 0] show ?thesis by (simp only: to_string.simps [of n]) simp
  next
    case False
    then have "stamp_digits 0 (to_string (n div 10)) = Some (word_of_nat (n div 10))"
      using "1.prems" by (intro "1.IH") auto
    moreover have "unat (word_of_nat (n div 10) :: 64 word) = n div 10"
      using "1.prems" by (intro unat_word_of_nat) simp
    ultimately show ?thesis
      using False "1.prems" stamp_digits_one [of "n mod 10" "word_of_nat (n div 10)"]
      by (simp only: to_string.simps [of n] if_False stamp_digits_append option.case) simp
  qed
qed

lemma to_string_digits: "c \<in> set (to_string n) \<Longrightarrow> \<exists>k < 10. c = 48 + word_of_nat k"
proof (induction n rule: to_string.induct)
  case (1 n)
  then show ?case
    by (subst (asm) to_string.simps) (auto split: if_splits intro: exI [of _ "n mod 10"])
qed

lemma to_string_nonempty: "to_string n \<noteq> []"
  by (subst to_string.simps) simp

lemma to_string_no_sep: "0x5f \<notin> set (to_string n)"
proof
  assume "0x5f \<in> set (to_string n)"
  then obtain k where "k < 10" "(0x5f :: byte) = 48 + word_of_nat k" using to_string_digits by blast
  then have "48 + k = unat (0x5f :: byte)" using digit_byte [of k] by metis
  with \<open>k < 10\<close> show False by simp
qed

text \<open>The stamp of a minted tag is its counter and writer, up to the last counter
  that can be read.\<close>

theorem stamp_of_minted:
  assumes "n \<le> 2 ^ 64 - 1 - 9"
  shows "stamp_of (w @ ascii ''_'' @ to_string n) = Stamp (word_of_nat n) w (w @ ascii ''_'' @ to_string n)"
proof -
  have "ascii ''_'' = [0x5f]" by (simp add: ascii_def)
  then show ?thesis
    using rsplit_join [OF to_string_no_sep] stamp_digits_to_string [OF assms] to_string_nonempty [of n]
    by (simp add: stamp_of_def)
qed

section \<open>Which policy a field gets\<close>

definition prefix_rule :: "bytes \<Rightarrow> bytes \<Rightarrow> bool" where
  "prefix_rule field q \<longleftrightarrow>
     2 \<le> length q \<and> last q = 0x2a \<and> take (length q - 1) field = butlast q"

lemma lookup_step_cases:
  "lookup_step field st kv =
     (if \<not> prefix_rule field (fst kv) then st
      else case fst st of None \<Rightarrow> (Some (fst kv), snd kv)
        | Some best \<Rightarrow> if length (fst kv) - 1 > length best then (Some (fst kv), snd kv) else st)"
  by (auto simp: lookup_step_def prefix_rule_def Let_def not_less split: option.split)

lemma foldl_lookup:
  assumes "foldl (lookup_step field) (None, fb) kvs = (b, c)"
  shows "(b = None \<longrightarrow> c = fb \<and> (\<forall>kv \<in> set kvs. \<not> prefix_rule field (fst kv))) \<and>
    (\<forall>q. b = Some q \<longrightarrow> (q, c) \<in> set kvs \<and> prefix_rule field q \<and>
      (\<forall>kv \<in> set kvs. prefix_rule field (fst kv) \<longrightarrow> length (fst kv) \<le> length q + 1))"
  using assms
proof (induction kvs arbitrary: b c rule: rev_induct)
  case (snoc kv kvs)
  obtain b' c' where f: "foldl (lookup_step field) (None, fb) kvs = (b', c')" by fastforce
  with snoc.prems have st: "lookup_step field (b', c') kv = (b, c)" by simp
  show ?case
    using st snoc.IH [OF f]
    by (cases b'; cases kv) (auto simp: lookup_step_cases split: if_splits)
qed auto

text \<open>An exact entry wins; otherwise some matching prefix rule does, and no matching rule is
  more than one byte longer than the one chosen; otherwise the fallback.\<close>

theorem lookup_spec:
  "(\<forall>j. map_of (pfields p) field = Some j \<longrightarrow> lookup p field = j) \<and>
   (map_of (pfields p) field = None \<longrightarrow>
     (\<forall>kv \<in> set (pfields p). \<not> prefix_rule field (fst kv)) \<and> lookup p field = fallback p \<or>
     (\<exists>q. (q, lookup p field) \<in> set (pfields p) \<and> prefix_rule field q \<and>
       (\<forall>kv \<in> set (pfields p). prefix_rule field (fst kv) \<longrightarrow> length (fst kv) \<le> length q + 1)))"
proof -
  obtain b c where f: "foldl (lookup_step field) (None, fallback p) (pfields p) = (b, c)" by fastforce
  show ?thesis using foldl_lookup [OF f] f by (cases b) (auto simp: lookup_def)
qed

text \<open>The comparison counts the \<^verbatim>\<open>*\<close> of the best rule and not of the candidate, so a rule
  that is longer by exactly one byte does not override.\<close>

theorem lookup_longest_misses_one:
  "lookup \<lparr> pfields = [(ascii ''content.*'', FPick), (ascii ''content.o*'', FLatest)], fallback = FConflict \<rparr>
     (ascii ''content.order'') = FPick"
  by code_simp

section \<open>At concrete inputs\<close>

theorem resolve_shows_held_witness:
  "lvalues (resolve (Some (orset_to_json (orset_add [2] [1] (orset_add [1] [2] orset_new)))) FConflict) =
   lvalues (live_of (Some (orset_to_json (orset_add [2] [1] (orset_add [1] [2] orset_new)))))"
proof -
  have "conflicted (resolve (Some (orset_to_json (orset_add [2] [1] (orset_add [1] [2] orset_new)))) FConflict)" by code_simp
  then show ?thesis using resolve_shows_held by blast
qed

theorem resolve_latest_witness:
  "\<exists>t v. lvalues (resolve (Some (orset_to_json (orset_add (ascii ''b_2'') [1] (orset_add (ascii ''a_1'') [2] orset_new)))) FLatest) = [v]
     \<and> stamp_of (ascii ''b_2'') \<le> stamp_of t"
proof -
  let ?r = "Some (orset_to_json (orset_add (ascii ''b_2'') [1] (orset_add (ascii ''a_1'') [2] orset_new)))"
  have "conflicted (live_of ?r)" by code_simp
  moreover have "map_of (adds (orset_from_json ?r)) (ascii ''b_2'') = Some [1]" by code_simp
  moreover have "removes (orset_from_json ?r) = []" by code_simp
  ultimately have "conflicted (live_of ?r)" "ascii ''b_2'' \<in> live_tags (orset_from_json ?r)"
    by (simp_all add: live_tags_def)
  then show ?thesis using resolve_latest [of ?r] by blast
qed

theorem resolve_max_witness:
  "\<exists>v x. lvalues (resolve (Some (orset_to_json (orset_add [2] [4, 0x40, 0, 0, 0, 0, 0, 0, 0]
      (orset_add [1] [4, 0x3f, 0xe0, 0, 0, 0, 0, 0, 0] orset_new)))) FMax) = [v] \<and> num_of v = Some x"
proof -
  let ?r = "Some (orset_to_json (orset_add [2] [4, 0x40, 0, 0, 0, 0, 0, 0, 0]
      (orset_add [1] [4, 0x3f, 0xe0, 0, 0, 0, 0, 0, 0] orset_new)))"
  have c: "conflicted (live_of ?r)" by code_simp
  have l: "lvalues (live_of ?r) = [[4, 0x3f, 0xe0, 0, 0, 0, 0, 0, 0], [4, 0x40, 0, 0, 0, 0, 0, 0, 0]]" by code_simp
  have n: "num_of [4, 0x3f, 0xe0, 0, 0, 0, 0, 0, 0] = Some 0x3fe0000000000000"
    "num_of [4, 0x40, 0, 0, 0, 0, 0, 0, 0] = Some 0x4000000000000000" by code_simp+
  have "\<not> dbl_is_nan 0x3fe0000000000000" "\<not> dbl_is_nan 0x4000000000000000"
    by (simp_all add: dbl_is_nan_def dbl_exp_def dbl_frac_def dbl_mag_def)
  with resolve_max [OF c] show ?thesis unfolding l by (auto simp: n)
qed

theorem stamp_of_minted_witness:
  "stamp_of (ascii ''a'' @ ascii ''_'' @ to_string 12) = Stamp 12 (ascii ''a'') (ascii ''a_12'')"
proof -
  have "stamp_of (ascii ''a'' @ ascii ''_'' @ to_string 12) = Stamp (word_of_nat 12) (ascii ''a'') (ascii ''a'' @ ascii ''_'' @ to_string 12)"
    by (rule stamp_of_minted) simp
  moreover have "to_string 12 = ascii ''12''" by code_simp
  ultimately show ?thesis by (simp add: ascii_def)
qed

theorem lookup_spec_witness: "lookup core_defaults (ascii ''placement'') = FLatest"
proof -
  have "map_of (pfields core_defaults) (ascii ''placement'') = Some FLatest" by code_simp
  then show ?thesis using lookup_spec by blast
qed

end
