(* ===== verification/Join.thy ===== *)
theory Join
  imports Policy
begin

text \<open>
  The merge of two documents (\<^verbatim>\<open>join_node\<close>, \<^verbatim>\<open>join_map\<close>, \<^verbatim>\<open>canon_doc\<close> of
  \<^verbatim>\<open>src/crdt/document.cpp\<close>). A document is the pointer \<^verbatim>\<open>Doc::root\<close>. The printer of the
  JSON library, which orders two scalars, is the parameter \<open>pr\<close>. The specification is a tree
  whose maps have no order; the merge refines its join, and the name of a merged document
  is a function of what that tree holds.
\<close>

type_synonym doc = "json option"

definition is_orset :: "json option \<Rightarrow> bool" where
  "is_orset n \<longleftrightarrow> is_JObject n \<and> is_JObject (get n (ascii ''a'')) \<and> is_JArray (get n (ascii ''r''))"

definition node_rank :: "json option \<Rightarrow> nat" where
  "node_rank n = (if is_orset n then 2 else if is_JObject n then 3 else 1)"

text \<open>The members a loop with \<^verbatim>\<open>seen\<close> visits: the first of each key.\<close>

fun firsts :: "bytes list \<Rightarrow> (bytes \<times> 'v) list \<Rightarrow> (bytes \<times> 'v) list" where
  "firsts seen [] = []"
| "firsts seen ((k, v) # ms) = (if k \<in> set seen then firsts seen ms else (k, v) # firsts (k # seen) ms)"

definition emplace_all :: "(bytes \<times> 'v) list \<Rightarrow> (bytes, 'v) omap" where
  "emplace_all ms = foldl (\<lambda>m kv. om_emplace (fst kv) (snd kv) m) [] ms"

definition join_map :: "(json \<Rightarrow> json \<Rightarrow> json) \<Rightarrow> (bytes \<times> json) list \<Rightarrow> (bytes \<times> json) list \<Rightarrow> (bytes \<times> json) list" where
  "join_map jn ams bms =
     (let in_b = emplace_all bms in
      map (\<lambda>(k, v). (k, case map_of in_b k of None \<Rightarrow> v | Some w \<Rightarrow> jn v w)) (firsts [] ams) @
      filter (\<lambda>kv. fst kv \<notin> fst ` set ams) in_b)"

lemma firsts_subset: "set (firsts seen ms) \<subseteq> set ms"
  by (induction seen ms rule: firsts.induct) auto

lemma join_map_cong [fundef_cong]:
  assumes "ams = ams'" "bms = bms'" "\<And>kv w. kv \<in> set ams' \<Longrightarrow> jn (snd kv) w = jn' (snd kv) w"
  shows "join_map jn ams bms = join_map jn' ams' bms'"
proof -
  have "(\<lambda>(k, v). (k, case map_of m k of None \<Rightarrow> v | Some w \<Rightarrow> jn v w)) kv =
      (\<lambda>(k, v). (k, case map_of m k of None \<Rightarrow> v | Some w \<Rightarrow> jn' v w)) kv"
    if "kv \<in> set (firsts [] ams')" for m kv
    using that firsts_subset [of "[]" ams'] assms(3) [of kv] by (auto split: prod.split option.split)
  then show ?thesis
    unfolding join_map_def Let_def assms(1,2) by (intro arg_cong2 [where f = append] map_cong) simp_all
qed

lemma size_members: "kv \<in> set (members (Some j)) \<Longrightarrow> size (snd kv) < size j"
proof -
  assume kv: "kv \<in> set (members (Some j))"
  then obtain ms where j: "j = JObject ms" by (cases j) auto
  with kv have "kv \<in> set ms" by simp
  then have "size_prod (\<lambda>_. 0) size kv \<le> size_list (size_prod (\<lambda>_. 0) size) ms"
    by (rule size_list_estimation') simp
  then show ?thesis by (cases kv) (simp add: j)
qed

function join_node :: "(json \<Rightarrow> bytes) \<Rightarrow> json \<Rightarrow> json \<Rightarrow> json" where
  "join_node pr a b =
     (let ra = node_rank (Some a); rb = node_rank (Some b) in
      if ra \<noteq> rb then (if ra > rb then a else b)
      else if ra = 2 then
        orset_to_json (orset_join (orset_from_json (Some a)) (orset_from_json (Some b)))
      else if ra = 3 then JObject (join_map (join_node pr) (members (Some a)) (members (Some b)))
      else (let pa = pr a; pb = pr b in if pb < pa then b else a))"
  by pat_completeness auto
termination
  by (relation "measure (\<lambda>(pr, a, b). size a)") (auto dest!: size_members)

declare join_node.simps [simp del]

text \<open>\<^verbatim>\<open>join\<close> of two documents. A null root prints as the empty string and is duplicated as
  null.\<close>

definition join_doc :: "(json \<Rightarrow> bytes) \<Rightarrow> doc \<Rightarrow> doc \<Rightarrow> doc" where
  "join_doc pr a b =
     (case (a, b) of
        (Some x, Some y) \<Rightarrow> Some (join_node pr x y)
      | _ \<Rightarrow>
         (let ra = node_rank a; rb = node_rank b;
              printed = (\<lambda>n. case n of None \<Rightarrow> [] | Some j \<Rightarrow> pr j)
          in if ra \<noteq> rb then (if ra > rb then a else b)
             else if printed b < printed a then b else a))"

function normalize_node :: "json \<Rightarrow> json" where
  "normalize_node n =
     (if is_orset (Some n) then orset_to_json (orset_from_json (Some n))
      else if is_JObject (Some n) then
        JObject (map (\<lambda>kv. (fst kv, normalize_node (snd kv))) (members (Some n)))
      else n)"
  by pat_completeness auto
termination
  by (relation "measure size") (auto dest!: size_members)

declare normalize_node.simps [simp del]

definition canon_doc :: "doc \<Rightarrow> bytes canon" where
  "canon_doc d = encode_opt (map_option normalize_node d)"

section \<open>The tree without an order\<close>

datatype node =
    NLeaf json
  | NSet orset
  | NMap "(bytes \<times> node) list"

definition combine :: "('v \<Rightarrow> 'v \<Rightarrow> 'v) \<Rightarrow> 'v option \<Rightarrow> 'v option \<Rightarrow> 'v option" where
  "combine f x y =
     (case x of None \<Rightarrow> y | Some v \<Rightarrow> (case y of None \<Rightarrow> Some v | Some w \<Rightarrow> Some (f v w)))"

definition om_merge :: "('v \<Rightarrow> 'v \<Rightarrow> 'v) \<Rightarrow> (bytes \<times> 'v) list \<Rightarrow> (bytes \<times> 'v) list \<Rightarrow> (bytes \<times> 'v) list" where
  "om_merge f a b =
     foldl (\<lambda>m kv. om_put (fst kv) (snd kv) m) b
       (map (\<lambda>kv. (fst kv, case map_of b (fst kv) of None \<Rightarrow> snd kv | Some w \<Rightarrow> f (snd kv) w)) a)"

lemma om_merge_cong [fundef_cong]:
  assumes "a = a'" "b = b'" "\<And>kv w. kv \<in> set a' \<Longrightarrow> f (snd kv) w = g (snd kv) w"
  shows "om_merge f a b = om_merge g a' b'"
  unfolding om_merge_def assms(1,2)
  by (rule arg_cong [where f = "foldl _ b'"], rule map_cong)
     (auto simp: assms(3) split: option.split)

lemma om_ok_merge: "om_ok b \<Longrightarrow> om_ok (om_merge f a b)"
  by (simp add: om_merge_def om_ok_foldl_put)

lemma map_of_merge:
  "om_ok a \<Longrightarrow> om_ok b \<Longrightarrow> map_of (om_merge f a b) k = combine f (map_of a k) (map_of b k)"
proof -
  assume a: "om_ok a" and b: "om_ok b"
  let ?g = "\<lambda>k v. case map_of b k of None \<Rightarrow> v | Some w \<Rightarrow> f v w"
  have "map_of (map (\<lambda>kv. (fst kv, ?g (fst kv) (snd kv))) a) k = map_option (?g k) (map_of a k)"
    by (induction a) auto
  with a b show ?thesis
    by (simp add: om_merge_def map_of_foldl_put o_def om_ok_distinct combine_def split: option.split)
qed

function njoin :: "(json \<Rightarrow> bytes) \<Rightarrow> node \<Rightarrow> node \<Rightarrow> node" where
  "njoin pr (NLeaf x) (NLeaf y) = (if pr y < pr x then NLeaf y else NLeaf x)"
| "njoin pr (NSet s) (NSet t) = NSet (orset_join s t)"
| "njoin pr (NMap a) (NMap b) = NMap (om_merge (njoin pr) a b)"
| "njoin pr (NLeaf x) (NSet t) = NSet t"
| "njoin pr (NLeaf x) (NMap b) = NMap b"
| "njoin pr (NSet s) (NLeaf y) = NSet s"
| "njoin pr (NSet s) (NMap b) = NMap b"
| "njoin pr (NMap a) (NLeaf y) = NMap a"
| "njoin pr (NMap a) (NSet t) = NMap a"
  by pat_completeness auto

lemma size_NMap: "kv \<in> set m \<Longrightarrow> size (snd kv) < size (NMap m)"
proof -
  assume "kv \<in> set m"
  then have "size_prod (\<lambda>_. 0) size kv \<le> size_list (size_prod (\<lambda>_. 0) size) m"
    by (rule size_list_estimation') simp
  then show ?thesis by (cases kv) simp
qed

termination njoin
  by (relation "measure (\<lambda>(pr, a, b). size a)") (auto dest: size_NMap simp del: node.size)

text \<open>The carrier: tags consistent with \<open>V\<close>, scalars that \<open>R\<close> reads back from their
  printed form.\<close>

definition leaf_ok :: "(json \<Rightarrow> bytes) \<Rightarrow> (bytes \<Rightarrow> json) \<Rightarrow> json \<Rightarrow> bool" where
  "leaf_ok pr R j \<longleftrightarrow> j = R (pr j) \<and> \<not> is_JArray (Some j) \<and> \<not> is_JObject (Some j)"

fun nok :: "(json \<Rightarrow> bytes) \<Rightarrow> (bytes \<Rightarrow> json) \<Rightarrow> (bytes \<Rightarrow> bytes) \<Rightarrow> node \<Rightarrow> bool" where
  "nok pr R V (NLeaf j) = leaf_ok pr R j"
| "nok pr R V (NSet s) = orset_ok V s"
| "nok pr R V (NMap m) = (om_ok m \<and> (\<forall>kv \<in> set m. nok pr R V (snd kv)))"

lemma nok_NMap_ran: "nok pr R V (NMap m) \<Longrightarrow> map_of m k = Some v \<Longrightarrow> nok pr R V v"
  by (force dest: map_of_SomeD)

lemma nok_NMapI: "om_ok m \<Longrightarrow> (\<And>k v. map_of m k = Some v \<Longrightarrow> nok pr R V v) \<Longrightarrow> nok pr R V (NMap m)"
  by (auto simp: map_of_eq_Some_iff [OF om_ok_distinct])

lemma combine_SomeE:
  assumes "combine f x y = Some z"
  obtains "x = Some z" "y = None" | "x = None" "y = Some z" | v w where "x = Some v" "y = Some w" "z = f v w"
  using assms by (cases x; cases y) (auto simp: combine_def)

lemma njoin_nok: "nok pr R V a \<Longrightarrow> nok pr R V b \<Longrightarrow> nok pr R V (njoin pr a b)"
proof (induction a arbitrary: b)
  case (NLeaf x)
  then show ?case by (cases b) auto
next
  case (NSet s)
  then show ?case by (cases b) (auto intro: orset.jn_ok)
next
  case (NMap m)
  show ?case
  proof (cases b)
    case (NMap b')
    have ok: "om_ok m" "om_ok b'" using NMap NMap.prems by auto
    have "nok pr R V (NMap (om_merge (njoin pr) m b'))"
    proof (rule nok_NMapI)
      fix k z assume "map_of (om_merge (njoin pr) m b') k = Some z"
      then have "combine (njoin pr) (map_of m k) (map_of b' k) = Some z"
        by (simp add: map_of_merge ok)
      then show "nok pr R V z"
      proof (cases rule: combine_SomeE)
        case (3 v w)
        from map_of_SomeD [OF 3(1)] have "(k, v) \<in> set m" .
        moreover have "nok pr R V v" "nok pr R V w"
          using 3 NMap NMap.prems nok_NMap_ran by blast+
        ultimately show ?thesis using 3(3) NMap.IH by (metis snds.intros snd_conv)
      qed (use NMap NMap.prems nok_NMap_ran in blast)+
    qed (simp add: om_ok_merge ok)
    with NMap show ?thesis by simp
  qed (use NMap.prems in auto)
qed

lemma NMap_eqI:
  "om_ok a \<Longrightarrow> om_ok b \<Longrightarrow> (\<And>k. map_of a k = map_of b k) \<Longrightarrow> NMap a = NMap b"
  using om_ext by blast

lemma combine_cong:
  assumes "x = x'" "y = y'" "\<And>v w. x' = Some v \<Longrightarrow> y' = Some w \<Longrightarrow> f v w = g v w"
  shows "combine f x y = combine g x' y'"
  using assms by (auto simp: combine_def split: option.split)

lemma njoin_comm: "nok pr R V a \<Longrightarrow> nok pr R V b \<Longrightarrow> njoin pr a b = njoin pr b a"
proof (induction a arbitrary: b)
  case (NLeaf x)
  then show ?case
    by (cases b) (auto simp: leaf_ok_def not_less dest: order.antisym)
next
  case (NSet s)
  then show ?case by (cases b) (auto intro: orset.jn_comm)
next
  case (NMap m)
  show ?case
  proof (cases b)
    case (NMap b')
    have ok: "om_ok m" "om_ok b'" using NMap NMap.prems by auto
    have "NMap (om_merge (njoin pr) m b') = NMap (om_merge (njoin pr) b' m)"
    proof (rule NMap_eqI)
      fix k
      have eq: "njoin pr v w = njoin pr w v" if "map_of m k = Some v" "map_of b' k = Some w" for v w
      proof -
        from map_of_SomeD [OF that(1)] have "(k, v) \<in> set m" .
        moreover have "nok pr R V v" "nok pr R V w" using that NMap NMap.prems nok_NMap_ran by blast+
        ultimately show ?thesis using NMap.IH by (metis snds.intros snd_conv)
      qed
      then show "map_of (om_merge (njoin pr) m b') k = map_of (om_merge (njoin pr) b' m) k"
        using ok by (auto simp: map_of_merge combine_def split: option.split)
    qed (simp_all add: om_ok_merge ok)
    with NMap show ?thesis by simp
  qed auto
qed

lemma njoin_idem: "nok pr R V a \<Longrightarrow> njoin pr a a = a"
proof (induction a)
  case (NMap m)
  then have ok: "om_ok m" by simp
  have "NMap (om_merge (njoin pr) m m) = NMap m"
  proof (rule NMap_eqI)
    fix k
    have "njoin pr v v = v" if "map_of m k = Some v" for v
    proof -
      from map_of_SomeD [OF that] have "(k, v) \<in> set m" .
      moreover have "nok pr R V v" using that NMap.prems nok_NMap_ran by blast
      ultimately show ?thesis using NMap.IH by (metis snds.intros snd_conv)
    qed
    then show "map_of (om_merge (njoin pr) m m) k = map_of m k"
      using ok by (auto simp: map_of_merge combine_def split: option.split)
  qed (simp_all add: om_ok_merge ok)
  then show ?case by simp
next
  case (NSet s)
  then show ?case by (auto intro: orset.jn_idem)
qed simp

lemma njoin_assoc:
  "nok pr R V a \<Longrightarrow> nok pr R V b \<Longrightarrow> nok pr R V c \<Longrightarrow> njoin pr (njoin pr a b) c = njoin pr a (njoin pr b c)"
proof (induction a arbitrary: b c)
  case (NLeaf x)
  then show ?case by (cases b; cases c) auto
next
  case (NSet s)
  then show ?case by (cases b; cases c) (auto intro: orset.jn_assoc)
next
  case (NMap m)
  show ?case
  proof (cases "\<exists>b' c'. b = NMap b' \<and> c = NMap c'")
    case True
    then obtain b' c' where bc: "b = NMap b'" "c = NMap c'" by blast
    have ok: "om_ok m" "om_ok b'" "om_ok c'" using bc NMap.prems by auto
    have "NMap (om_merge (njoin pr) (om_merge (njoin pr) m b') c')
        = NMap (om_merge (njoin pr) m (om_merge (njoin pr) b' c'))"
    proof (rule NMap_eqI)
      fix k
      have "njoin pr (njoin pr v w) u = njoin pr v (njoin pr w u)"
        if "map_of m k = Some v" "map_of b' k = Some w" "map_of c' k = Some u" for v w u
      proof -
        from map_of_SomeD [OF that(1)] have "(k, v) \<in> set m" .
        moreover have "nok pr R V v" "nok pr R V w" "nok pr R V u"
          using that bc NMap.prems nok_NMap_ran by blast+
        ultimately show ?thesis using NMap.IH by (metis snds.intros snd_conv)
      qed
      then show "map_of (om_merge (njoin pr) (om_merge (njoin pr) m b') c') k
          = map_of (om_merge (njoin pr) m (om_merge (njoin pr) b' c')) k"
        using ok by (auto simp: map_of_merge om_ok_merge combine_def split: option.split)
    qed (simp_all add: om_ok_merge ok)
    with bc show ?thesis by simp
  next
    case False
    then show ?thesis using NMap.prems by (cases b; cases c) auto
  qed
qed

interpretation njoin: join_laws "nok pr R V" "njoin pr" for pr R V
  by unfold_locales (auto intro: njoin_nok njoin_comm njoin_assoc njoin_idem)

section \<open>The merge refines the join of the tree\<close>

abbreviation obs_members :: "(json \<Rightarrow> node) \<Rightarrow> (bytes \<times> json) list \<Rightarrow> (bytes, node) omap" where
  "obs_members f ms \<equiv> emplace_all (map (\<lambda>kv. (fst kv, f (snd kv))) ms)"

function obs :: "json \<Rightarrow> node" where
  "obs n =
     (if is_orset (Some n) then NSet (orset_from_json (Some n))
      else if is_JObject (Some n) then NMap (obs_members obs (members (Some n)))
      else NLeaf n)"
  by pat_completeness auto
termination
  by (relation "measure size") (auto dest!: size_members)

declare obs.simps [simp del]

function tree_ok :: "(json \<Rightarrow> bytes) \<Rightarrow> (bytes \<Rightarrow> json) \<Rightarrow> (bytes \<Rightarrow> bytes) \<Rightarrow> json \<Rightarrow> bool" where
  "tree_ok pr R V n =
     (if is_orset (Some n) then
        orset_ok V (orset_from_json (Some n)) \<and> tags_printable (orset_from_json (Some n))
      else if is_JObject (Some n) then
        distinct (map fst (members (Some n))) \<and>
        (\<forall>kv \<in> set (members (Some n)). nul_free (fst kv) \<and> tree_ok pr R V (snd kv))
      else leaf_ok pr R n)"
  by pat_completeness auto
termination
  by (relation "measure (\<lambda>(pr, R, V, n). size n)") (auto dest!: size_members)

declare tree_ok.simps [simp del]

lemma om_ok_foldl_emplace:
  "om_ok m \<Longrightarrow> om_ok (foldl (\<lambda>m kv. om_emplace (fst kv) (snd kv) m) m ms)"
  by (induction ms arbitrary: m) auto

lemma map_of_foldl_emplace:
  "om_ok m \<Longrightarrow> map_of (foldl (\<lambda>m kv. om_emplace (fst kv) (snd kv) m) m ms) k =
   (case map_of m k of Some v \<Rightarrow> Some v | None \<Rightarrow> map_of ms k)"
  by (induction ms arbitrary: m) (auto split: option.splits)

lemma om_ok_emplace_all [simp]: "om_ok (emplace_all ms)"
  by (simp add: emplace_all_def om_ok_foldl_emplace)

lemma map_of_emplace_all [simp]: "map_of (emplace_all ms) k = map_of ms k"
  by (simp add: emplace_all_def map_of_foldl_emplace)

lemma map_of_map_snd: "map_of (map (\<lambda>kv. (fst kv, f (snd kv))) ms) k = map_option f (map_of ms k)"
  by (induction ms) auto

lemma map_of_firsts:
  "map_of (firsts seen ms) k = (if k \<in> set seen then None else map_of ms k)"
  by (induction seen ms rule: firsts.induct) auto

lemma distinct_firsts: "distinct (map fst (firsts seen ms)) \<and> set (map fst (firsts seen ms)) \<inter> set seen = {}"
  by (induction seen ms rule: firsts.induct) auto

lemma map_of_map_case:
  "map_of (map (\<lambda>(k, v). (k, g k v)) ms) k = map_option (g k) (map_of ms k)"
  by (induction ms) auto

lemma map_of_filter_key:
  "map_of (filter (\<lambda>kv. P (fst kv)) ms) k = (if P k then map_of ms k else None)"
  by (induction ms) auto

lemma map_of_join_map:
  "map_of (join_map jn ams bms) k = combine jn (map_of ams k) (map_of bms k)"
proof -
  have "k \<in> fst ` set ams \<longleftrightarrow> map_of ams k \<noteq> None" by (metis map_of_eq_None_iff)
  then show ?thesis
    by (auto simp: join_map_def Let_def map_add_def map_of_map_case map_of_firsts
        map_of_filter_key [of "\<lambda>k. k \<notin> fst ` set ams"] combine_def split: option.split)
qed

lemma distinct_join_map: "distinct (map fst (join_map jn ams bms))"
proof -
  have "map fst (join_map jn ams bms) =
      map fst (firsts [] ams) @ map fst (filter (\<lambda>kv. fst kv \<notin> fst ` set ams) (emplace_all bms))"
    unfolding join_map_def Let_def map_append
    by (rule arg_cong2 [where f = append]) (auto simp: case_prod_beta)
  moreover have "set (map fst (firsts [] ams)) \<subseteq> fst ` set ams" using firsts_subset by fastforce
  moreover have "distinct (map fst (filter (\<lambda>kv. fst kv \<notin> fst ` set ams) (emplace_all bms)))"
    by (rule om_ok_distinct) simp
  moreover have "distinct (map fst (firsts [] ams))" using distinct_firsts [of "[]" ams] by simp
  ultimately show ?thesis by (force simp: image_iff)
qed

lemma fst_join_map: "fst ` set (join_map jn ams bms) = fst ` set ams \<union> fst ` set bms"
proof -
  have "k \<in> fst ` set (join_map jn ams bms) \<longleftrightarrow> k \<in> fst ` set ams \<or> k \<in> fst ` set bms" for k
    using map_of_join_map [of jn ams bms k] map_of_eq_None_iff [of "join_map jn ams bms" k]
      map_of_eq_None_iff [of ams k] map_of_eq_None_iff [of bms k]
    by (auto simp: combine_def split: option.splits)
  then show ?thesis by blast
qed

lemma is_orset_cases:
  "is_orset (Some j) \<Longrightarrow> \<exists>ms. j = JObject ms"
  by (cases j) (auto simp: is_orset_def)

lemma orset_to_json_is_orset [simp]: "is_orset (Some (orset_to_json s))"
  by (simp add: is_orset_def orset_to_json_def)

lemma join_node_not_array:
  "\<not> is_JArray (Some a) \<Longrightarrow> \<not> is_JArray (Some b) \<Longrightarrow> \<not> is_JArray (Some (join_node pr a b))"
  by (subst join_node.simps) (auto simp: Let_def orset_to_json_def)

lemma is_orset_JObject: "is_orset (Some n) \<Longrightarrow> is_JObject (Some n)"
  by (simp add: is_orset_def)

lemma tree_ok_orset:
  "is_orset (Some n) \<Longrightarrow> tree_ok pr R V n \<longleftrightarrow>
     orset_ok V (orset_from_json (Some n)) \<and> tags_printable (orset_from_json (Some n))"
  by (subst tree_ok.simps) simp

lemma tree_ok_map:
  "\<not> is_orset (Some (JObject ms)) \<Longrightarrow> tree_ok pr R V (JObject ms) \<longleftrightarrow>
     distinct (map fst ms) \<and> (\<forall>kv \<in> set ms. nul_free (fst kv) \<and> tree_ok pr R V (snd kv))"
  by (subst tree_ok.simps) simp

lemma tree_ok_leaf: "\<not> is_JObject (Some n) \<Longrightarrow> tree_ok pr R V n \<longleftrightarrow> leaf_ok pr R n"
  by (subst tree_ok.simps) (auto simp: is_orset_JObject)

lemma tree_ok_not_array: "tree_ok pr R V n \<Longrightarrow> \<not> is_JArray (Some n)"
  by (cases "is_JObject (Some n)") (auto simp: tree_ok_leaf leaf_ok_def elim!: is_JObject.elims)

lemma tree_ok_child:
  "tree_ok pr R V n \<Longrightarrow> \<not> is_orset (Some n) \<Longrightarrow> map_of (members (Some n)) k = Some v \<Longrightarrow> tree_ok pr R V v"
  by (cases n) (force simp: tree_ok_map dest!: map_of_SomeD)+

lemma join_map_not_orset:
  assumes "tree_ok pr R V a" "tree_ok pr R V b" "\<not> is_orset (Some a)" "\<not> is_orset (Some b)"
  shows "\<not> is_orset (Some (JObject (join_map (join_node pr) (members (Some a)) (members (Some b)))))"
proof -
  let ?r = "ascii ''r''"
  have na: "\<not> is_JArray (Some v)"
    if "map_of (members (Some a)) ?r = Some v \<or> map_of (members (Some b)) ?r = Some v" for v
    using that tree_ok_child [OF assms(1,3)] tree_ok_child [OF assms(2,4)] tree_ok_not_array by blast
  have "\<not> is_JArray (combine (join_node pr) (map_of (members (Some a)) ?r) (map_of (members (Some b)) ?r))"
    using na join_node_not_array
    by (cases "map_of (members (Some a)) ?r"; cases "map_of (members (Some b)) ?r")
       (auto simp: combine_def)
  then show ?thesis by (simp add: is_orset_def map_of_join_map)
qed

lemma tags_printable_join:
  assumes "tags_printable s" "tags_printable t" "orset_wf s" "orset_wf t"
  shows "tags_printable (orset_join s t)"
proof -
  have "fst kv \<noteq> [] \<and> nul_free (fst kv)" if "kv \<in> set (adds (orset_join s t))" for kv
  proof -
    have "map_of (adds (orset_join s t)) (fst kv) \<noteq> None" using that by (simp add: map_of_eq_None_iff)
    then have "map_of (adds s) (fst kv) \<noteq> None \<or> map_of (adds t) (fst kv) \<noteq> None"
      by (auto simp: map_of_join_adds assms split: option.splits)
    then have "fst kv \<in> fst ` set (adds s) \<or> fst kv \<in> fst ` set (adds t)"
      by (auto simp: map_of_eq_None_iff)
    with assms(1,2) show ?thesis by (auto simp: tags_printable_def)
  qed
  with assms(1,2) show ?thesis by (auto simp: tags_printable_def removes_join)
qed

lemma obs_orset: "is_orset (Some j) \<Longrightarrow> obs j = NSet (orset_from_json (Some j))"
  by (subst obs.simps) simp

lemma obs_map: "\<not> is_orset (Some (JObject ms)) \<Longrightarrow> obs (JObject ms) = NMap (obs_members obs ms)"
  by (subst obs.simps) simp

lemma obs_leaf: "\<not> is_JObject (Some j) \<Longrightarrow> obs j = NLeaf j"
  by (subst obs.simps) (auto simp: is_orset_def)

lemma tree_ok_nok: "tree_ok pr R V n \<Longrightarrow> nok pr R V (obs n)"
proof (induction n rule: obs.induct)
  case (1 n)
  consider (o) "is_orset (Some n)" | (m) ms where "n = JObject ms" "\<not> is_orset (Some n)"
    | (l) "\<not> is_JObject (Some n)"
    by (cases n) auto
  then show ?case
  proof cases
    case o
    with "1.prems" show ?thesis by (simp add: tree_ok_orset obs_orset)
  next
    case m
    have "nok pr R V (NMap (obs_members obs ms))"
    proof (rule nok_NMapI)
      fix k v assume "map_of (obs_members obs ms) k = Some v"
      then obtain j where j: "map_of ms k = Some j" "v = obs j" by (auto simp: map_of_map_snd)
      with "1.IH" [of "(k, j)"] m tree_ok_child [OF "1.prems" m(2), of k j] show "nok pr R V v"
        by (auto dest: map_of_SomeD)
    qed simp
    with m show ?thesis by (simp add: obs_map)
  next
    case l
    with "1.prems" show ?thesis by (simp add: tree_ok_leaf obs_leaf)
  qed
qed

definition nrank :: "node \<Rightarrow> nat" where
  "nrank n = (case n of NLeaf _ \<Rightarrow> 1 | NSet _ \<Rightarrow> 2 | NMap _ \<Rightarrow> 3)"

lemma nrank_obs: "nrank (obs j) = node_rank (Some j)"
  by (subst obs.simps) (simp add: nrank_def node_rank_def)

lemma njoin_rank:
  "nrank a \<noteq> nrank b \<Longrightarrow> njoin pr a b = (if nrank a > nrank b then a else b)"
  by (cases a; cases b) (auto simp: nrank_def)

lemma join_node_refines:
  "tree_ok pr R V a \<Longrightarrow> tree_ok pr R V b \<Longrightarrow>
   tree_ok pr R V (join_node pr a b) \<and> obs (join_node pr a b) = njoin pr (obs a) (obs b)"
proof (induction pr a b rule: join_node.induct)
  case (1 pr a b)
  have arr: "\<not> is_JArray (Some a)" "\<not> is_JArray (Some b)"
    using "1.prems" tree_ok_not_array by blast+
  consider (diff) "node_rank (Some a) \<noteq> node_rank (Some b)"
    | (sets) "is_orset (Some a)" "is_orset (Some b)"
    | (maps) "\<not> is_orset (Some a)" "\<not> is_orset (Some b)" "is_JObject (Some a)" "is_JObject (Some b)"
    | (leaves) "\<not> is_JObject (Some a)" "\<not> is_JObject (Some b)"
    using is_orset_JObject [of a] is_orset_JObject [of b]
    by (cases "is_orset (Some a)"; cases "is_orset (Some b)"; cases "is_JObject (Some a)";
        cases "is_JObject (Some b)") (auto simp: node_rank_def)
  then show ?case
  proof cases
    case diff
    then have "njoin pr (obs a) (obs b) = (if node_rank (Some a) > node_rank (Some b) then obs a else obs b)"
      using njoin_rank [of "obs a" "obs b" pr] by (simp add: nrank_obs)
    moreover have "join_node pr a b = (if node_rank (Some a) > node_rank (Some b) then a else b)"
      using diff by (subst join_node.simps) (simp add: Let_def)
    ultimately show ?thesis using "1.prems" by simp
  next
    case sets
    have "join_node pr a b = orset_to_json (orset_join (orset_from_json (Some a)) (orset_from_json (Some b)))"
      by (subst join_node.simps) (simp add: node_rank_def sets)
    moreover have "tree_ok pr R V (orset_to_json s) \<and> obs (orset_to_json s) = NSet s"
      if "orset_ok V s" "tags_printable s" for s
      using that orset_from_to_json [of s]
      by (simp add: obs_orset tree_ok_orset orset_ok_def)
    ultimately show ?thesis
      using "1.prems" sets
      by (simp add: tree_ok_orset obs_orset orset.jn_ok tags_printable_join)
  next
    case maps
    then obtain ams bms where ab: "a = JObject ams" "b = JObject bms" by (cases a; cases b) auto
    let ?J = "join_map (join_node pr) ams bms"
    have j: "join_node pr a b = JObject ?J"
      by (subst join_node.simps) (simp add: node_rank_def maps ab [symmetric], simp add: ab)
    have no: "\<not> is_orset (Some (JObject ?J))"
      using join_map_not_orset [OF "1.prems" maps(1,2)] by (simp add: ab)
    have ok: "tree_ok pr R V v" if "map_of ams k = Some v \<or> map_of bms k = Some v" for k v
      using that tree_ok_child [OF "1.prems"(1) maps(1)] tree_ok_child [OF "1.prems"(2) maps(2)]
      by (auto simp: ab)
    have IH: "tree_ok pr R V (join_node pr v w) \<and> obs (join_node pr v w) = njoin pr (obs v) (obs w)"
      if "map_of ams k = Some v" "map_of bms k = Some w" for k v w
      using "1.IH" [OF refl refl _ _ _, of "(k, v)" w] that maps ok
      by (auto simp: node_rank_def ab dest: map_of_SomeD)
    have child: "tree_ok pr R V x" if "map_of ?J k = Some x" for k x
      using that ok IH by (auto simp: map_of_join_map elim!: combine_SomeE)
    have "tree_ok pr R V (JObject ?J)"
    proof -
      have "nul_free k" if "k \<in> fst ` set ?J" for k
        using that "1.prems" maps by (auto simp: fst_join_map tree_ok_map ab)
      moreover have "tree_ok pr R V (snd kv)" if "kv \<in> set ?J" for kv
        using that child [of "fst kv" "snd kv"] by (simp add: map_of_eq_Some_iff distinct_join_map)
      ultimately show ?thesis using no by (auto simp: tree_ok_map distinct_join_map)
    qed
    moreover have "obs (JObject ?J) = njoin pr (obs a) (obs b)"
    proof -
      have "NMap (obs_members obs ?J) = NMap (om_merge (njoin pr) (obs_members obs ams) (obs_members obs bms))"
        by (rule NMap_eqI)
           (auto simp: om_ok_merge map_of_merge map_of_map_snd map_of_join_map combine_def IH
             split: option.split)
      then show ?thesis using no maps by (simp add: ab obs_map)
    qed
    ultimately show ?thesis by (simp add: j)
  next
    case leaves
    then have "join_node pr a b = (if pr b < pr a then b else a)"
      by (subst join_node.simps) (auto simp: Let_def node_rank_def is_orset_def)
    with leaves "1.prems" show ?thesis by (simp add: obs_leaf)
  qed
qed

interpretation docj: join_refines "nok pr R V" "njoin pr" "tree_ok pr R V" obs "join_node pr" for pr R V
  by unfold_locales (auto intro: tree_ok_nok dest: join_node_refines)

section \<open>The name of a document is a function of the tree\<close>

function node_json :: "node \<Rightarrow> json" where
  "node_json (NLeaf j) = j"
| "node_json (NSet s) = orset_to_json s"
| "node_json (NMap m) = JObject (map (\<lambda>kv. (fst kv, node_json (snd kv))) m)"
  by pat_completeness auto
termination
  by (relation "measure size") (auto dest: size_NMap simp del: node.size)

lemma mset_of_maps:
  assumes "distinct (map fst xs)" "distinct (map fst ys)" "map_of xs = map_of ys"
  shows "mset xs = mset ys"
proof -
  have "(k, v) \<in> set xs \<longleftrightarrow> (k, v) \<in> set ys" for k v
    using map_of_eq_Some_iff [OF assms(1)] map_of_eq_Some_iff [OF assms(2)] assms(3) by metis
  then have "set xs = set ys" by auto
  moreover have "distinct xs" "distinct ys" using assms(1,2) by (simp_all add: distinct_map)
  ultimately show ?thesis by (simp add: set_eq_iff_mset_eq_distinct)
qed

lemma normalize_obs:
  "tree_ok pr R V n \<Longrightarrow> encode (normalize_node n) = Inr b \<longleftrightarrow> encode (node_json (obs n)) = Inr b"
proof (induction n arbitrary: b rule: obs.induct)
  case (1 n)
  consider (o) "is_orset (Some n)" | (m) ms where "n = JObject ms" "\<not> is_orset (Some n)"
    | (l) "\<not> is_JObject (Some n)"
    by (cases n) auto
  then show ?case
  proof cases
    case o
    then show ?thesis by (simp add: normalize_node.simps [of n] obs_orset)
  next
    case l
    then show ?thesis using is_orset_JObject by (auto simp: normalize_node.simps [of n] obs_leaf)
  next
    case m
    let ?N = "map (\<lambda>kv. (fst kv, normalize_node (snd kv))) ms"
    let ?O = "map (\<lambda>kv. (fst kv, node_json (obs (snd kv)))) ms"
    let ?S = "map (\<lambda>kv. (fst kv, node_json (snd kv))) (obs_members obs ms)"
    have d: "distinct (map fst ms)" using "1.prems" m by (simp add: tree_ok_map)
    have ok: "\<forall>kv \<in> set ms. tree_ok pr R V (snd kv)" using "1.prems" m by (simp add: tree_ok_map)
    have "normalize_node n = JObject ?N" using m by (subst normalize_node.simps) simp
    then have "encode (normalize_node n) = Inr b \<longleftrightarrow> encode (JObject ?N) = Inr b" by (simp only:)
    also have "\<dots> \<longleftrightarrow> encode (JObject ?O) = Inr b"
    proof (rule encode_JObject_cong)
      show "list_all2 (\<lambda>x y. fst x = fst y \<and> (\<forall>b. encode (snd x) = Inr b \<longleftrightarrow> encode (snd y) = Inr b)) ?N ?O"
        unfolding list.rel_map
      proof (rule list.rel_refl_strong)
        fix kv assume kv: "kv \<in> set ms"
        then have "encode (normalize_node (snd kv)) = Inr b \<longleftrightarrow> encode (node_json (obs (snd kv))) = Inr b" for b
          using m ok by (intro "1.IH") auto
        then show "fst (fst kv, normalize_node (snd kv)) = fst (fst kv, node_json (obs (snd kv))) \<and>
          (\<forall>b. encode (snd (fst kv, normalize_node (snd kv))) = Inr b \<longleftrightarrow>
               encode (snd (fst kv, node_json (obs (snd kv)))) = Inr b)"
          by simp
      qed
    qed
    also have "\<dots> \<longleftrightarrow> encode (JObject ?S) = Inr b"
    proof -
      have "mset ?O = mset ?S"
      proof (rule mset_of_maps)
        show "distinct (map fst ?O)" using d by (simp add: o_def)
        show "distinct (map fst ?S)"
          using om_ok_distinct [OF om_ok_emplace_all] by (simp add: o_def)
        show "map_of ?O = map_of ?S"
          by (rule ext) (simp add: map_of_map_snd option.map_comp o_def
              map_of_map_snd [where f = "\<lambda>v. node_json (obs v)"])
      qed
      from encode_JObject_perm [OF this] encode_JObject_perm [OF this [symmetric]] show ?thesis by blast
    qed
    also have "\<dots> \<longleftrightarrow> encode (node_json (obs n)) = Inr b"
      using m by (simp add: obs_map)
    finally show ?thesis .
  qed
qed

lemma foldl_join_doc: "foldl (join_doc pr) (Some s) (map Some xs) = Some (foldl (join_node pr) s xs)"
  by (induction xs arbitrary: s) (simp_all add: join_doc_def)

text \<open>C1. Whatever order documents arrive in and however often, the merged document has one
  name.\<close>

theorem merge_converges:
  assumes "tree_ok pr R V s" "\<forall>x \<in> set xs. tree_ok pr R V x" "set xs = set ys"
    and "canon_doc (foldl (join_doc pr) (Some s) (map Some xs)) = Inr b"
  shows "canon_doc (foldl (join_doc pr) (Some s) (map Some ys)) = Inr b"
proof -
  have "obs (foldl (join_node pr) s xs) = obs (foldl (join_node pr) s ys)"
    by (rule docj.concrete_converges [OF assms(1-3)])
  moreover have "tree_ok pr R V (foldl (join_node pr) s xs)" "tree_ok pr R V (foldl (join_node pr) s ys)"
    using docj.foldl_obs [of pr R V s xs] docj.foldl_obs [of pr R V s ys] assms by auto
  ultimately show ?thesis
    using assms(4) normalize_obs by (simp add: foldl_join_doc canon_doc_def encode_opt_def)
qed

text \<open>Merging in one's own past changes nothing, and merging is symmetric.\<close>

theorem merge_laws:
  assumes "tree_ok pr R V a" "tree_ok pr R V b" "tree_ok pr R V c"
  shows "obs (join_node pr a a) = obs a \<and>
    obs (join_node pr a b) = obs (join_node pr b a) \<and>
    obs (join_node pr (join_node pr a b) c) = obs (join_node pr a (join_node pr b c))"
proof -
  note n = assms [THEN tree_ok_nok]
  have j: "obs (join_node pr x y) = njoin pr (obs x) (obs y)" "tree_ok pr R V (join_node pr x y)"
    if "tree_ok pr R V x" "tree_ok pr R V y" for x y
    using join_node_refines [OF that] by simp_all
  show ?thesis
    using njoin.jn_idem [OF n(1)] njoin.jn_comm [OF n(1,2)] njoin.jn_assoc [OF n]
    by (simp add: j assms)
qed

section \<open>Where the laws stop\<close>

text \<open>Two objects that are not sets can join to one that is: the rank drops, and the merge is
  then not associative.\<close>

definition half_a :: json where "half_a = JObject [(ascii ''a'', JObject [])]"
definition half_r :: json where "half_r = JObject [(ascii ''r'', JArray [])]"
definition plain_set :: json where "plain_set = orset_to_json (orset_add [1] [2] orset_new)"

lemma join_members_simps:
  "join_node pr (JObject xs) (JObject ys) = JObject (join_map (join_node pr) xs ys)"
  if "\<not> is_orset (Some (JObject xs))" "\<not> is_orset (Some (JObject ys))"
  by (subst join_node.simps) (simp add: node_rank_def that)

text \<open>On malformed input the merge is not associative.\<close>

theorem join_rank_drops:
  "join_node pr (join_node pr half_a half_r) plain_set \<noteq> join_node pr half_a (join_node pr half_r plain_set)"
proof -
  have o: "\<not> is_orset (Some half_a)" "\<not> is_orset (Some half_r)" "is_orset (Some plain_set)"
    by (simp_all add: half_a_def half_r_def plain_set_def is_orset_def orset_to_json_def)
  have ar: "join_node pr half_a half_r = JObject [(ascii ''a'', JObject []), (ascii ''r'', JArray [])]"
    using o(1,2) unfolding half_a_def half_r_def
    by (subst join_members_simps) (simp_all add: join_map_def emplace_all_def om_emplace_def)
  then have os: "is_orset (Some (join_node pr half_a half_r))" by (simp add: is_orset_def)
  let ?one = "orset_add [1] [2] orset_new"
  have one: "orset_from_json (Some plain_set) = ?one"
    unfolding plain_set_def
    using orset_from_to_json [of ?one] by (simp add: tags_printable_def orset_add_def orset_new_def orset_wf_def om_ok_def)
  have "orset_from_json (Some (join_node pr half_a half_r)) = orset_new"
    by (simp add: ar orset_from_json_def orset_new_def)
  moreover have "orset_join orset_new ?one = ?one"
    by (simp add: orset_join_def orset_new_def orset_add_def os_union_def)
  ultimately have "join_node pr (join_node pr half_a half_r) plain_set = plain_set"
    using os o(3) one by (subst join_node.simps) (simp add: node_rank_def plain_set_def)
  moreover have "join_node pr half_r plain_set = half_r"
    using o by (subst join_node.simps) (simp add: node_rank_def half_r_def)
  ultimately show ?thesis
    by (simp add: ar plain_set_def orset_to_json_def orset_add_def orset_new_def)
qed

section \<open>At concrete inputs\<close>

definition reg_doc :: "bytes \<Rightarrow> bytes \<Rightarrow> json" where
  "reg_doc t v = JObject [(ascii ''x'', orset_to_json (orset_add t v orset_new))]"

lemma reg_doc_tree_ok:
  assumes "t \<noteq> []" "nul_free t"
  shows "tree_ok pr R (\<lambda>_. v) (reg_doc t v)"
proof -
  have "orset_from_json (Some (orset_to_json (orset_add t v orset_new))) = orset_add t v orset_new"
    using assms orset_from_to_json [of "orset_add t v orset_new"]
    by (simp add: tags_printable_def orset_add_def orset_new_def orset_wf_def)
  moreover have "\<not> is_orset (Some (reg_doc t v))" by (simp add: is_orset_def reg_doc_def)
  ultimately show ?thesis
    using assms
    by (simp add: tree_ok.simps [of _ _ _ "reg_doc t v"] tree_ok_orset)
       (simp add: reg_doc_def tree_ok_orset orset_ok_def tags_printable_def nul_free_ascii orset_add_def orset_new_def orset_wf_def)
qed

theorem merge_converges_witness:
  "canon_doc (foldl (join_doc (\<lambda>_. [])) (Some (reg_doc [1] [7])) (map Some [reg_doc [3] [7], reg_doc [2] [7], reg_doc [3] [7]])) =
   canon_doc (foldl (join_doc (\<lambda>_. [])) (Some (reg_doc [1] [7])) (map Some [reg_doc [2] [7], reg_doc [3] [7]]))"
proof -
  have "canon_ok (canon_doc (foldl (join_doc (\<lambda>_. [])) (Some (reg_doc [1] [7])) (map Some [reg_doc [2] [7], reg_doc [3] [7]])))"
    by code_simp
  then obtain b where b: "canon_doc (foldl (join_doc (\<lambda>_. [])) (Some (reg_doc [1] [7])) (map Some [reg_doc [2] [7], reg_doc [3] [7]])) = Inr b"
    by (auto simp: canon_ok_Inr)
  have ok: "tree_ok (\<lambda>_. []) (\<lambda>_. JNull) (\<lambda>_. [7]) (reg_doc [n] [7])" if "n \<noteq> 0" for n
    by (rule reg_doc_tree_ok) (simp_all add: that)
  show ?thesis
    unfolding b by (rule merge_converges [of "\<lambda>_. []" "\<lambda>_. JNull" "\<lambda>_. [7]", OF _ _ _ b]) (auto simp: ok)
qed

theorem merge_laws_witness:
  "obs (join_node (\<lambda>_. []) (reg_doc [1] [7]) (reg_doc [2] [7])) = obs (join_node (\<lambda>_. []) (reg_doc [2] [7]) (reg_doc [1] [7]))"
  using merge_laws [of "\<lambda>_. []" "\<lambda>_. JNull" "\<lambda>_. [7]" "reg_doc [1] [7]" "reg_doc [2] [7]" "reg_doc [1] [7]"]
  by (simp add: reg_doc_tree_ok)

end
