(* ===== verification/Document.thy ===== *)
theory Document
  imports Join
begin

text \<open>
  The enriched document (\<^verbatim>\<open>src/crdt/document.cpp\<close>): built from a Void Core state, edited
  through the register and set primitives, and read back. A mint is a state \<open>'m\<close> with
  \<open>nx\<close>, its \<^verbatim>\<open>next()\<close>. Encoding a value can throw, so \<^verbatim>\<open>enrich\<close> and the edits are fallible.
\<close>

fun cfold :: "('s \<Rightarrow> 'a \<Rightarrow> 's canon) \<Rightarrow> 's \<Rightarrow> 'a list \<Rightarrow> 's canon" where
  "cfold f s [] = Inr s"
| "cfold f s (x # xs) = cbind (f s x) (\<lambda>s'. cfold f s' xs)"

text \<open>A loop over \<^verbatim>\<open>child\<close>, with the key of each child: empty in an array.\<close>

fun child_members :: "json option \<Rightarrow> (bytes \<times> json) list" where
  "child_members (Some (JObject ms)) = ms"
| "child_members (Some (JArray xs)) = map (\<lambda>x. ([], x)) xs"
| "child_members _ = []"

text \<open>\<^verbatim>\<open>cJSON_AddItemToObject\<close> with an item that may be null.\<close>

definition add_opt :: "(bytes \<times> json) list \<Rightarrow> bytes \<Rightarrow> json option \<Rightarrow> (bytes \<times> json) list" where
  "add_opt ms k v = (case v of None \<Rightarrow> ms | Some j \<Rightarrow> add_member ms k j)"

type_synonym 'm mint = "'m \<Rightarrow> bytes \<times> 'm"

section \<open>Building\<close>

definition single :: "bytes \<Rightarrow> bytes \<Rightarrow> json" where
  "single tag value = orset_to_json (orset_add tag value orset_new)"

definition add_field ::
    "'m mint \<Rightarrow> bytes \<Rightarrow> json option \<Rightarrow> (bytes \<times> json) list \<times> 'm \<Rightarrow> ((bytes \<times> json) list \<times> 'm) canon" where
  "add_field nx name value st =
     cbind (encode_opt value) (\<lambda>b.
       let (t, m) = nx (snd st) in Inr (add_member (fst st) name (single t b), m))"

definition add_all :: "'m mint \<Rightarrow> orset \<times> 'm \<Rightarrow> json list \<Rightarrow> (orset \<times> 'm) canon" where
  "add_all nx st items =
     cfold (\<lambda>(s, m) v. cbind (encode v) (\<lambda>b. let (t, m') = nx m in Inr (orset_add t b s, m'))) st items"

definition unless_empty_array :: "json option \<Rightarrow> bool" where
  "unless_empty_array v \<longleftrightarrow> v \<noteq> None \<and> v \<noteq> Some (JArray [])"

definition enrich_rune_fields :: "'m mint \<Rightarrow> json option \<Rightarrow> 'm \<Rightarrow> ((bytes \<times> json) list \<times> 'm) canon" where
  "enrich_rune_fields nx r m =
     cbind (add_field nx (ascii ''spirit.name'') (get (get r (ascii ''spirit'')) (ascii ''name'')) ([], m)) (\<lambda>st.
     cbind (add_field nx (ascii ''glyph'') (get r (ascii ''glyph'')) st) (\<lambda>st.
     cbind (cfold (\<lambda>st k. add_field nx (ascii ''facets.'' @ ascii k)
                     (get (get r (ascii ''facets'')) (ascii k)) st) st kFacets) (\<lambda>st.
     cbind (cfold (\<lambda>st c. add_field nx (ascii ''content.'' @ fst c) (Some (snd c)) st) st
              (child_members (get r (ascii ''content'')))) (\<lambda>st.
     cbind (add_field nx (ascii ''placement'') (get r (ascii ''placement'')) st) (\<lambda>st.
     let relations = get r (ascii ''relations'') in
     if unless_empty_array relations then add_field nx (ascii ''relations'') relations st
     else Inr st)))))"

definition enrich_rune ::
    "'m mint \<Rightarrow> (bytes \<times> json) list \<times> 'm \<Rightarrow> json \<Rightarrow> ((bytes \<times> json) list \<times> 'm) canon" where
  "enrich_rune nx st r =
     (case as_string (get (get (Some r) (ascii ''spirit'')) (ascii ''id'')) of
        None \<Rightarrow> Inr st
      | Some rid \<Rightarrow>
          let (t, m) = nx (snd st) in
          cbind (enrich_rune_fields nx (Some r) m) (\<lambda>(f, m).
          cbind (add_all nx (orset_new, m) (children (get (Some r) (ascii ''tags'')))) (\<lambda>(tags, m).
          Inr (add_member (fst st) rid (JObject
            [(ascii ''present'', single t (ascii ''1'')), (ascii ''fields'', JObject f),
             (ascii ''tags'', orset_to_json tags)]), m))))"

definition enrich_mantle_fields :: "'m mint \<Rightarrow> json option \<Rightarrow> 'm \<Rightarrow> ((bytes \<times> json) list \<times> 'm) canon" where
  "enrich_mantle_fields nx m mt =
     cbind (add_field nx (ascii ''id'') (get m (ascii ''id'')) ([], mt)) (\<lambda>st.
     cbind (add_field nx (ascii ''domain'') (get m (ascii ''domain'')) st) (\<lambda>st.
     cbind (cfold (\<lambda>st tg. add_field nx (ascii ''tags.'' @ fst tg) (Some (snd tg)) st) st
              (members (get m (ascii ''tags'')))) (\<lambda>st.
     let rules = get m (ascii ''rules'') in
     if unless_empty_array rules then add_field nx (ascii ''rules'') rules st else Inr st)))"

definition enrich_mantle ::
    "'m mint \<Rightarrow> (bytes \<times> json) list \<times> 'm \<Rightarrow> json \<Rightarrow> ((bytes \<times> json) list \<times> 'm) canon" where
  "enrich_mantle nx st m =
     (case as_string (get (Some m) (ascii ''name'')) of
        None \<Rightarrow> Inr st
      | Some mname \<Rightarrow>
          let (t, mt) = nx (snd st) in
          cbind (enrich_mantle_fields nx (Some m) mt) (\<lambda>(f, mt).
          cbind (cfold (enrich_rune nx) ([], mt) (children (get (Some m) (ascii ''runes'')))) (\<lambda>(runes, mt).
          cbind (add_all nx (orset_new, mt)
                   (children (get (get (Some m) (ascii ''layout'')) (ascii ''edges'')))) (\<lambda>(edges, mt).
          Inr (add_member (fst st) mname (JObject
            [(ascii ''present'', single t (ascii ''1'')), (ascii ''fields'', JObject f),
             (ascii ''runes'', JObject runes), (ascii ''edges'', orset_to_json edges)]), mt)))))"

definition enrich_glyph ::
    "'m mint \<Rightarrow> (bytes \<times> json) list \<times> 'm \<Rightarrow> bytes \<times> json \<Rightarrow> ((bytes \<times> json) list \<times> 'm) canon" where
  "enrich_glyph nx st g =
     (let (t, m) = nx (snd st) in
      cbind (canon_glyph_descriptor (Some (snd g))) (\<lambda>b.
      let (u, m) = nx m in
      Inr (add_member (fst st) (fst g) (JObject
        [(ascii ''present'', single t []),
         (ascii ''fields'', JObject [(ascii ''descriptor'', single u b)])]), m)))"

definition enrich :: "'m mint \<Rightarrow> json option \<Rightarrow> 'm \<Rightarrow> (doc \<times> 'm) canon" where
  "enrich nx state m =
     cbind (cfold (enrich_mantle nx) ([], m) (children (get state (ascii ''mantles'')))) (\<lambda>(mantles, m).
     cbind (cfold (enrich_glyph nx) ([], m) (members (get state (ascii ''glyphs'')))) (\<lambda>(glyphs, m).
     Inr (Some (JObject
       [(ascii ''palabra'', mk_int 1), (ascii ''mantles'', JObject mantles),
        (ascii ''glyphs'', JObject glyphs)]), m)))"

section \<open>Editing\<close>

definition rune_node :: "doc \<Rightarrow> bytes \<Rightarrow> bytes \<Rightarrow> json option" where
  "rune_node doc mantle rune_id =
     (let m = get (get doc (ascii ''mantles'')) (c_str mantle)
      in if m = None then None else get (get m (ascii ''runes'')) (c_str rune_id))"

text \<open>Rewriting a member in place: the tree is edited through a pointer to the node.\<close>

fun update_member :: "bytes \<Rightarrow> (json \<Rightarrow> json) \<Rightarrow> (bytes \<times> json) list \<Rightarrow> (bytes \<times> json) list" where
  "update_member k f [] = []"
| "update_member k f ((a, v) # ms) = (if a = k then (a, f v) # ms else (a, v) # update_member k f ms)"

fun at_member :: "bytes \<Rightarrow> (json \<Rightarrow> json) \<Rightarrow> json \<Rightarrow> json" where
  "at_member k f (JObject ms) = JObject (update_member k f ms)"
| "at_member k f j = j"

definition at_rune :: "bytes \<Rightarrow> bytes \<Rightarrow> (json \<Rightarrow> json) \<Rightarrow> json \<Rightarrow> json" where
  "at_rune mantle rune_id f =
     at_member (ascii ''mantles'') (at_member (c_str mantle) (at_member (ascii ''runes'')
       (at_member (c_str rune_id) f)))"

fun put_orset :: "bytes \<Rightarrow> orset \<Rightarrow> json \<Rightarrow> json" where
  "put_orset k s (JObject ms) = JObject (add_member (delete_member (c_str k) ms) k (orset_to_json s))"
| "put_orset k s j = j"

definition set_field ::
    "'m mint \<Rightarrow> doc \<Rightarrow> bytes \<Rightarrow> bytes \<Rightarrow> bytes \<Rightarrow> json option \<Rightarrow> 'm \<Rightarrow> (bool \<times> doc \<times> 'm) canon" where
  "set_field nx doc mantle rune_id field value m =
     (case rune_node doc mantle rune_id of
        None \<Rightarrow> Inr (False, doc, m)
      | Some r \<Rightarrow>
          let f = get (get (Some r) (ascii ''fields'')) (c_str field);
              reg = (if f \<noteq> None then orset_from_json f else orset_new)
          in cbind (encode_opt value) (\<lambda>b.
             let (t, m) = nx m; reg = reg_write t b reg in
             Inr (True, map_option (at_rune mantle rune_id
                          (at_member (ascii ''fields'') (put_orset field reg))) doc, m)))"

definition add_tag ::
    "'m mint \<Rightarrow> doc \<Rightarrow> bytes \<Rightarrow> bytes \<Rightarrow> bytes \<Rightarrow> 'm \<Rightarrow> (bool \<times> doc \<times> 'm) canon" where
  "add_tag nx doc mantle rune_id tag m =
     (case rune_node doc mantle rune_id of
        None \<Rightarrow> Inr (False, doc, m)
      | Some r \<Rightarrow>
          let s = orset_from_json (get (Some r) (ascii ''tags'')) in
          cbind (encode (mk_string tag)) (\<lambda>b.
          let (t, m) = nx m in
          Inr (True, map_option (at_rune mantle rune_id (put_orset (ascii ''tags'') (orset_add t b s))) doc, m)))"

definition remove_tag :: "doc \<Rightarrow> bytes \<Rightarrow> bytes \<Rightarrow> bytes \<Rightarrow> (bool \<times> doc) canon" where
  "remove_tag doc mantle rune_id tag =
     (case rune_node doc mantle rune_id of
        None \<Rightarrow> Inr (False, doc)
      | Some r \<Rightarrow>
          let s = orset_from_json (get (Some r) (ascii ''tags'')) in
          cbind (encode (mk_string tag)) (\<lambda>b.
          Inr (True, map_option (at_rune mantle rune_id (put_orset (ascii ''tags'') (remove_value b s))) doc)))"

section \<open>Reading back\<close>

definition present_empty :: "json \<Rightarrow> bool" where
  "present_empty n \<longleftrightarrow> orset_empty (orset_from_json (get (Some n) (ascii ''present'')))"

definition decode_all :: "bytes list \<Rightarrow> json list" where
  "decode_all vs = concat (map (\<lambda>v. case decode v of None \<Rightarrow> [] | Some j \<Rightarrow> [j]) vs)"

definition shown_field :: "join_policy \<Rightarrow> json option \<Rightarrow> bytes \<Rightarrow> json option" where
  "shown_field policy fs key = first_or_null (resolve (get fs key) (lookup policy key))"

text \<open>\<^verbatim>\<open>rel.values.empty() ? nullptr : decode(rel.values[0])\<close>, and an empty array for null.\<close>

definition shown_list :: "join_policy \<Rightarrow> json option \<Rightarrow> bytes \<Rightarrow> json" where
  "shown_list policy fs key =
     (case lvalues (resolve (get fs key) (lookup policy key)) of
        [] \<Rightarrow> JArray []
      | v # _ \<Rightarrow> (case decode v of None \<Rightarrow> JArray [] | Some j \<Rightarrow> j))"

definition has_prefix :: "bytes \<Rightarrow> bytes \<Rightarrow> bool" where
  "has_prefix p s \<longleftrightarrow> take (length p) s = p"

definition flatten_content :: "join_policy \<Rightarrow> (bytes \<times> json) list \<Rightarrow> (bytes \<times> json) list" where
  "flatten_content policy fs =
     foldl (\<lambda>out fi.
       if \<not> has_prefix (ascii ''content.'') (fst fi) then out
       else if lvalues (live_of (Some (snd fi))) = [] then out
       else add_opt out (drop 8 (fst fi))
              (first_or_null (resolve (Some (snd fi)) (lookup policy (fst fi))))) [] fs"

definition flatten_rune :: "join_policy \<Rightarrow> bytes \<times> json \<Rightarrow> json" where
  "flatten_rune policy r =
     (let f = get (Some (snd r)) (ascii ''fields'');
          spirit = add_opt [(ascii ''id'', mk_string (fst r))] (ascii ''name'')
                     (shown_field policy f (ascii ''spirit.name''));
          facets = foldl (\<lambda>out k. add_opt out (ascii k) (shown_field policy f (ascii ''facets.'' @ ascii k)))
                     [] kFacets;
          ro = add_member [] (ascii ''spirit'') (JObject spirit);
          ro = add_opt ro (ascii ''glyph'') (shown_field policy f (ascii ''glyph''));
          ro = add_member ro (ascii ''facets'') (JObject facets);
          ro = add_member ro (ascii ''content'') (JObject (flatten_content policy (members f)));
          ro = add_member ro (ascii ''tags'')
                 (JArray (decode_all (orset_values (orset_from_json (get (Some (snd r)) (ascii ''tags''))))));
          ro = add_opt ro (ascii ''placement'') (shown_field policy f (ascii ''placement''));
          ro = add_member ro (ascii ''relations'') (shown_list policy f (ascii ''relations''))
      in JObject ro)"

definition flatten_mantle_tags :: "join_policy \<Rightarrow> (bytes \<times> json) list \<Rightarrow> (bytes \<times> json) list" where
  "flatten_mantle_tags policy fs =
     foldl (\<lambda>out fi.
       if \<not> has_prefix (ascii ''tags.'') (fst fi) then out
       else case lvalues (resolve (Some (snd fi)) (lookup policy (fst fi))) of
         [] \<Rightarrow> out
       | v # _ \<Rightarrow> add_opt out (drop 5 (fst fi)) (decode v)) [] fs"

definition flatten_mantle :: "join_policy \<Rightarrow> bytes \<times> json \<Rightarrow> json" where
  "flatten_mantle policy m =
     (let mf = get (Some (snd m)) (ascii ''fields'');
          mo = add_opt [] (ascii ''id'') (shown_field policy mf (ascii ''id''));
          mo = add_member mo (ascii ''name'') (mk_string (fst m));
          mo = add_opt mo (ascii ''domain'') (shown_field policy mf (ascii ''domain''));
          rs = sort_key fst (members (get (Some (snd m)) (ascii ''runes'')));
          runes = map (flatten_rune policy) (filter (\<lambda>r. \<not> present_empty (snd r)) rs);
          mo = add_member mo (ascii ''runes'') (JArray runes);
          mo = add_member mo (ascii ''tags'') (JObject (flatten_mantle_tags policy (members mf)));
          edges = decode_all (orset_values (orset_from_json (get (Some (snd m)) (ascii ''edges''))));
          mo = add_member mo (ascii ''layout'') (JObject [(ascii ''edges'', JArray edges)]);
          mo = add_member mo (ascii ''rules'') (shown_list policy mf (ascii ''rules''))
      in JObject mo)"

definition flatten_glyphs :: "(bytes \<times> json) list \<Rightarrow> (bytes \<times> json) list" where
  "flatten_glyphs gs =
     foldl (\<lambda>out g.
       case lvalues (live_of (get (get (Some (snd g)) (ascii ''fields'')) (ascii ''descriptor''))) of
         [] \<Rightarrow> out
       | v # _ \<Rightarrow> add_opt out (fst g) (decode v)) [] gs"

definition flatten :: "doc \<Rightarrow> join_policy \<Rightarrow> doc" where
  "flatten doc policy =
     (let ms = sort_key fst (members (get doc (ascii ''mantles'')));
          mantles = map (flatten_mantle policy) (filter (\<lambda>m. \<not> present_empty (snd m)) ms);
          out = add_member [] (ascii ''mantles'') (JArray mantles);
          gs = filter (\<lambda>g. \<not> present_empty (snd g)) (members (get doc (ascii ''glyphs'')));
          out = (if gs = [] then out
                 else add_member out (ascii ''glyphs'') (JObject (flatten_glyphs (sort_key fst gs))))
      in Some (JObject out))"

end
