(* ===== verification/Edits.thy ===== *)
theory Edits
  imports Document
begin

text \<open>
  What an edit of the document does and leaves alone, and which mantles and runes a
  flattened document shows.
\<close>

section \<open>Through the pointers\<close>

lemma map_of_update_member:
  "map_of (update_member k f ms) q = (if q = k then map_option f (map_of ms k) else map_of ms q)"
  by (induction k f ms rule: update_member.induct) auto

lemma get_at_member:
  "get (Some (at_member k f j)) q = (if q = k then map_option f (get (Some j) k) else get (Some j) q)"
  by (cases j) (auto simp: map_of_update_member)

lemma get_opt_at_member:
  "get (map_option (at_member k f) v) q = (if q = k then map_option f (get v k) else get v q)"
  by (cases v) (simp_all add: get_at_member)

lemma rune_node_alt:
  "rune_node d m r = get (get (get (get d (ascii ''mantles'')) (c_str m)) (ascii ''runes'')) (c_str r)"
  by (auto simp: rune_node_def Let_def)

lemma rune_node_at_rune:
  "rune_node (map_option (at_rune m r f) d) m' r' =
     (if c_str m' = c_str m \<and> c_str r' = c_str r then map_option f (rune_node d m r)
      else rune_node d m' r')"
  by (auto simp: rune_node_alt at_rune_def get_opt_at_member)

lemma map_of_delete_member:
  "distinct (map fst ms) \<Longrightarrow> map_of (delete_member k ms) q = (if q = k then None else map_of ms q)"
proof (induction k ms rule: delete_member.induct)
  case (2 k a v ms)
  then have "map_of ms a = None" by (simp add: map_of_eq_None_iff)
  with 2 show ?case by auto
qed simp

lemma get_put_orset:
  assumes "distinct (map fst ms)"
  shows "get (Some (put_orset k s (JObject ms))) q =
    (if q = c_str k then Some (orset_to_json s) else map_of ms q)"
  using assms by (auto simp: add_member_def map_of_delete_member map_add_def split: option.split)

definition distinct_members :: "json option \<Rightarrow> bool" where
  "distinct_members v \<longleftrightarrow> is_JObject v \<and> distinct (map fst (members v))"

lemma get_put_orset_opt:
  assumes "distinct_members (Some v)"
  shows "get (Some (put_orset k s v)) q = (if q = c_str k then Some (orset_to_json s) else get (Some v) q)"
  using assms by (cases v) (auto simp: distinct_members_def get_put_orset simp del: put_orset.simps)

section \<open>The edits\<close>

text \<open>The register of a field of a rune.\<close>

definition rune_reg :: "doc \<Rightarrow> bytes \<Rightarrow> bytes \<Rightarrow> bytes \<Rightarrow> orset" where
  "rune_reg d m r field = orset_from_json (get (get (rune_node d m r) (ascii ''fields'')) (c_str field))"

definition rune_tags :: "doc \<Rightarrow> bytes \<Rightarrow> bytes \<Rightarrow> orset" where
  "rune_tags d m r = orset_from_json (get (rune_node d m r) (ascii ''tags''))"

lemma from_json_None [simp]: "orset_from_json None = orset_new"
  by (simp add: orset_from_json_def orset_new_def Let_def)

lemma printable_add:
  "tags_printable s \<Longrightarrow> orset_wf s \<Longrightarrow> t \<noteq> [] \<Longrightarrow> nul_free t \<Longrightarrow> tags_printable (orset_add t v s)"
proof -
  assume s: "tags_printable s" "orset_wf s" and t: "t \<noteq> []" "nul_free t"
  have "fst kv \<noteq> [] \<and> nul_free (fst kv)" if "kv \<in> set (adds (orset_add t v s))" for kv
  proof -
    have "fst kv = t \<or> fst kv \<in> fst ` set (adds s)"
      using that fst_set_om_put [of t v "adds s"] by (auto simp: orset_add_def)
    with s t show ?thesis by (auto simp: tags_printable_def)
  qed
  with s show ?thesis by (auto simp: tags_printable_def)
qed

lemma printable_remove_value: "tags_printable s \<Longrightarrow> tags_printable (remove_value v s)"
  by (auto simp: tags_printable_def remove_value_def)

lemma printable_remove_all: "tags_printable s \<Longrightarrow> tags_printable (remove_all s)"
  by (auto simp: tags_printable_def remove_all_def)

lemma printable_write:
  "tags_printable s \<Longrightarrow> orset_wf s \<Longrightarrow> t \<noteq> [] \<Longrightarrow> nul_free t \<Longrightarrow> tags_printable (reg_write t v s)"
  by (simp add: reg_write_def printable_add printable_remove_all)

lemma from_to_json:
  "orset_wf s \<Longrightarrow> tags_printable s \<Longrightarrow> orset_from_json (Some (orset_to_json s)) = s"
  using orset_from_to_json by blast

text \<open>Set_field writes the one register and changes no other.\<close>

theorem set_field_spec:
  assumes r: "rune_node d m r = Some rn" "distinct_members (get (Some rn) (ascii ''fields''))"
    and v: "encode_opt value = Inr b"
    and t: "nx mt = (t, mt')" "t \<noteq> []" "nul_free t" "fresh_tag t (rune_reg d m r field)"
      "tags_printable (rune_reg d m r field)"
  shows "\<exists>d'. set_field nx d m r field value mt = Inr (True, d', mt') \<and>
    rune_reg d' m r field = reg_write t b (rune_reg d m r field) \<and>
    orset_values (rune_reg d' m r field) = [b] \<and>
    (\<forall>f. c_str f \<noteq> c_str field \<longrightarrow> rune_reg d' m r f = rune_reg d m r f) \<and>
    (\<forall>m2 r2. c_str m2 \<noteq> c_str m \<or> c_str r2 \<noteq> c_str r \<longrightarrow> rune_node d' m2 r2 = rune_node d m2 r2)"
proof -
  define reg where "reg = reg_write t b (rune_reg d m r field)"
  define d' where "d' = map_option (at_rune m r (at_member (ascii ''fields'') (put_orset field reg))) d"
  from r(2) obtain fs where fs: "get (Some rn) (ascii ''fields'') = Some fs" "distinct_members (Some fs)"
    by (cases "get (Some rn) (ascii ''fields'')") (auto simp: distinct_members_def)
  have s: "set_field nx d m r field value mt = Inr (True, d', mt')"
    using r(1) v t(1) by (simp add: set_field_def rune_reg_def reg_def d'_def fs(1) Let_def)
  have node: "rune_node d' m r = Some (at_member (ascii ''fields'') (put_orset field reg) rn)"
    using r(1) by (simp add: d'_def rune_node_at_rune)
  have get: "get (get (rune_node d' m r) (ascii ''fields'')) q =
      (if q = c_str field then Some (orset_to_json reg) else get (Some fs) q)" for q
    by (simp add: node get_at_member fs get_put_orset_opt del: get_JObject)
  have wf: "orset_wf (rune_reg d m r field)" by (simp add: rune_reg_def)
  have reg: "rune_reg d' m r field = reg"
    using t wf by (simp add: rune_reg_def get reg_def from_to_json printable_write)
  have "rune_reg d' m r f = rune_reg d m r f" if "c_str f \<noteq> c_str field" for f
    unfolding rune_reg_def get using that by (simp add: r(1) fs(1))
  moreover have "rune_node d' m2 r2 = rune_node d m2 r2" if "c_str m2 \<noteq> c_str m \<or> c_str r2 \<noteq> c_str r" for m2 r2
    using that by (auto simp: d'_def rune_node_at_rune)
  ultimately show ?thesis
    using s reg values_write [OF wf t(4), of b] by (auto simp: reg_def)
qed

theorem set_field_missing:
  "rune_node d m r = None \<Longrightarrow> set_field nx d m r field value mt = Inr (False, d, mt)"
  by (simp add: set_field_def)

lemma edit_tags:
  assumes "rune_node d m r = Some rn" "distinct_members (Some rn)" "orset_wf s" "tags_printable s"
    and "d' = map_option (at_rune m r (put_orset (ascii ''tags'') s)) d"
  shows "rune_tags d' m r = s"
proof -
  have "nul_free (ascii ''tags'')" by (simp add: nul_free_ascii)
  then show ?thesis
    using assms
    by (simp add: rune_tags_def rune_node_at_rune get_put_orset_opt from_to_json del: get_JObject)
qed

lemma values_remove_value:
  assumes "orset_wf s"
  shows "set (orset_values (remove_value b s)) = set (orset_values s) - {b}"
proof -
  have l: "t \<in> live_tags (remove_value b s) \<longleftrightarrow> t \<in> live_tags s \<and> x \<noteq> b"
    if "map_of (adds s) t = Some x" for t x
    using assms that by (auto simp: live_tags_def)
  have "x \<in> set (orset_values (remove_value b s)) \<longleftrightarrow> x \<in> set (orset_values s) \<and> x \<noteq> b" for x
    using assms l by (simp add: set_values) blast
  then show ?thesis by auto
qed

text \<open>Adding a tag adds its value; removing one retires what this document shows of it, and
  a concurrent addition, made elsewhere under another tag, survives the merge of the two.\<close>

theorem tag_edits:
  assumes r: "rune_node d m r = Some rn" "distinct_members (Some rn)" "tags_printable (rune_tags d m r)"
    and e: "encode (mk_string tag) = Inr b"
    and t: "nx mt = (t, mt')" "t \<noteq> []" "nul_free t" "fresh_tag t (rune_tags d m r)"
  shows "\<exists>da dr. add_tag nx d m r tag mt = Inr (True, da, mt') \<and> remove_tag d m r tag = Inr (True, dr) \<and>
    set (orset_values (rune_tags da m r)) = insert b (set (orset_values (rune_tags d m r))) \<and>
    set (orset_values (rune_tags dr m r)) = set (orset_values (rune_tags d m r)) - {b} \<and>
    b \<in> set (orset_values (orset_join (rune_tags dr m r) (rune_tags da m r)))"
proof -
  let ?s = "rune_tags d m r"
  let ?da = "map_option (at_rune m r (put_orset (ascii ''tags'') (orset_add t b ?s))) d"
  let ?dr = "map_option (at_rune m r (put_orset (ascii ''tags'') (remove_value b ?s))) d"
  have wf: "orset_wf ?s" by (simp add: rune_tags_def)
  have ra: "rune_tags ?da m r = orset_add t b ?s"
    using r t wf by (intro edit_tags [OF r(1,2)]) (simp_all add: printable_add)
  have rr: "rune_tags ?dr m r = remove_value b ?s"
    using r wf by (intro edit_tags [OF r(1,2)]) (simp_all add: printable_remove_value)
  have "add_tag nx d m r tag mt = Inr (True, ?da, mt')"
    using r(1) e t(1) by (simp add: add_tag_def rune_tags_def Let_def)
  moreover have "remove_tag d m r tag = Inr (True, ?dr)"
    using r(1) e by (simp add: remove_tag_def rune_tags_def Let_def)
  moreover have "set (orset_values (orset_add t b ?s)) = insert b (set (orset_values ?s))"
  proof -
    have l: "live_tags (orset_add t b ?s) = insert t (live_tags ?s)"
      using wf t(4) by (auto simp: live_tags_def fresh_tag_def split: if_splits)
    have "t \<notin> live_tags ?s" using t(4) by (simp add: live_tags_def fresh_tag_def)
    then have "x \<in> set (orset_values (orset_add t b ?s)) \<longleftrightarrow> x = b \<or> x \<in> set (orset_values ?s)" for x
      using wf by (auto simp: set_values l)
    then show ?thesis by auto
  qed
  moreover have "set (orset_values (remove_value b ?s)) = set (orset_values ?s) - {b}"
    by (rule values_remove_value [OF wf])
  moreover have "b \<in> set (orset_values (orset_join (remove_value b ?s) (orset_add t b ?s)))"
    using add_survives_remove [of ?s t b] wf t(4) by (simp add: fresh_tag_def)
  ultimately show ?thesis using ra rr by auto
qed

section \<open>What a flattened document shows\<close>

definition shown_mantles :: "doc \<Rightarrow> bytes list" where
  "shown_mantles d =
     sort (map fst (filter (\<lambda>m. \<not> present_empty (snd m)) (members (get d (ascii ''mantles'')))))"

lemma filter_sort_key: "filter P (sort_key f xs) = sort_key f (filter P xs)"
  by (rule filter_sort)

lemma map_sort_key_fst: "map fst (sort_key fst xs) = sort (map fst xs)"
proof -
  have "sort_key (\<lambda>x. x) (map fst xs) = map fst (sort_key (\<lambda>y. fst y) xs)"
    by (rule sort_key_map)
  then show ?thesis by simp
qed

lemma get_add_member_other: "k \<noteq> ascii q \<Longrightarrow> CHR 0x00 \<notin> set q \<Longrightarrow> map_of (add_member ms (ascii q) v) k = map_of ms k"
  by (auto simp: add_member_def nul_free_ascii map_add_def split: option.split)

lemma flatten_mantle_name:
  "nul_free (fst m) \<Longrightarrow> mantle_name (flatten_mantle policy m) = fst m"
proof -
  assume n: "nul_free (fst m)"
  have k: "ascii q = ascii p \<longleftrightarrow> q = p" for p q by simp
  have nf: "c_str (ascii ''id'') = ascii ''id''" "c_str (ascii ''name'') = ascii ''name''"
    "c_str (ascii ''domain'') = ascii ''domain''" by (simp_all add: nul_free_ascii)
  show ?thesis
    using n by (auto simp: flatten_mantle_def Let_def mantle_name_def add_opt_def add_member_def nf
        str_or_def mk_string_def split: option.split)
qed

text \<open>A flattened document lists exactly the present mantles, in name order.\<close>

theorem flatten_shows_present:
  assumes "\<forall>m \<in> set (members (get d (ascii ''mantles''))). nul_free (fst m)"
  shows "map mantle_name (mantle_list (flatten d policy)) = shown_mantles d"
proof -
  let ?ms = "filter (\<lambda>m. \<not> present_empty (snd m)) (sort_key fst (members (get d (ascii ''mantles''))))"
  have "mantle_list (flatten d policy) = map (flatten_mantle policy) ?ms"
    by (auto simp: mantle_list_def flatten_def Let_def add_member_def nul_free_ascii)
  then have "map mantle_name (mantle_list (flatten d policy)) = map fst ?ms"
    using assms by (simp add: flatten_mantle_name)
  then show ?thesis by (simp add: shown_mantles_def filter_sort_key map_sort_key_fst)
qed

section \<open>At concrete inputs\<close>

definition one_rune :: json where
  "one_rune = JObject [(ascii ''mantles'', JObject [([1], JObject
     [(ascii ''present'', orset_to_json (orset_add [3] [1] orset_new)), (ascii ''runes'', JObject [([2], JObject [(ascii ''fields'', JObject []), (ascii ''tags'', orset_to_json orset_new)])])])])]"

theorem set_field_spec_witness:
  "\<exists>d'. set_field counter_mint_next (Some one_rune) [1] [2] (ascii ''glyph'') (Some JTrue) \<lparr> cm_prefix = [0x61], cm_n = 0 \<rparr> =
     Inr (True, d', \<lparr> cm_prefix = [0x61], cm_n = 1 \<rparr>) \<and>
    orset_values (rune_reg d' [1] [2] (ascii ''glyph'')) = [[2]]"
proof -
  let ?rn = "JObject [(ascii ''fields'', JObject []), (ascii ''tags'', orset_to_json orset_new)]"
  have r: "rune_node (Some one_rune) [1] [2] = Some ?rn" by (simp add: rune_node_def one_rune_def)
  have n: "counter_mint_next \<lparr> cm_prefix = [0x61], cm_n = 0 \<rparr> = (ascii ''a_0001'', \<lparr> cm_prefix = [0x61], cm_n = 1 \<rparr>)"
    by (simp add: counter_mint_next_def to_string.simps pad4_def ascii_def numeral_3_eq_3)
  have g: "rune_reg (Some one_rune) [1] [2] (ascii ''glyph'') = orset_new"
    by (simp add: rune_reg_def r)
  have d: "distinct_members (get (Some ?rn) (ascii ''fields''))" by (simp add: distinct_members_def)
  have e: "encode_opt (Some JTrue) = Inr [2]" by code_simp
  have t: "ascii ''a_0001'' \<noteq> []" "nul_free (ascii ''a_0001'')"
    "fresh_tag (ascii ''a_0001'') (rune_reg (Some one_rune) [1] [2] (ascii ''glyph''))"
    "tags_printable (rune_reg (Some one_rune) [1] [2] (ascii ''glyph''))"
    unfolding g by (simp_all add: fresh_tag_def orset_new_def tags_printable_def nul_free_ascii)
  note f = set_field_spec [where nx = counter_mint_next, OF r d e n t]
  show ?thesis by (rule ex_forward [OF f]) (elim conjE, intro conjI, assumption+)
qed

theorem tag_edits_witness:
  "\<exists>da. add_tag counter_mint_next (Some one_rune) [1] [2] (ascii ''x'') \<lparr> cm_prefix = [0x61], cm_n = 0 \<rparr> =
     Inr (True, da, \<lparr> cm_prefix = [0x61], cm_n = 1 \<rparr>) \<and> set (orset_values (rune_tags da [1] [2])) = {[5, 1, 0x78]}"
proof -
  let ?rn = "JObject [(ascii ''fields'', JObject []), (ascii ''tags'', orset_to_json orset_new)]"
  have r: "rune_node (Some one_rune) [1] [2] = Some ?rn" by (simp add: rune_node_def one_rune_def)
  have n: "counter_mint_next \<lparr> cm_prefix = [0x61], cm_n = 0 \<rparr> = (ascii ''a_0001'', \<lparr> cm_prefix = [0x61], cm_n = 1 \<rparr>)"
    by (simp add: counter_mint_next_def to_string.simps pad4_def ascii_def numeral_3_eq_3)
  have g: "rune_tags (Some one_rune) [1] [2] = orset_new" by (simp add: rune_tags_def r) code_simp
  have d: "distinct_members (Some ?rn)" by (simp add: distinct_members_def)
  have e: "encode (mk_string (ascii ''x'')) = Inr [5, 1, 0x78]" by code_simp
  have t: "ascii ''a_0001'' \<noteq> []" "nul_free (ascii ''a_0001'')" "fresh_tag (ascii ''a_0001'') (rune_tags (Some one_rune) [1] [2])"
    unfolding g by (simp_all add: fresh_tag_def orset_new_def nul_free_ascii)
  have p: "tags_printable (rune_tags (Some one_rune) [1] [2])" unfolding g by code_simp
  have v: "set (orset_values (rune_tags (Some one_rune) [1] [2])) = {}" unfolding g by code_simp
  note f = tag_edits [where nx = counter_mint_next, OF r d p e n t, unfolded v]
  from f obtain da dr where "add_tag counter_mint_next (Some one_rune) [1] [2] (ascii ''x'') \<lparr> cm_prefix = [0x61], cm_n = 0 \<rparr> =
     Inr (True, da, \<lparr> cm_prefix = [0x61], cm_n = 1 \<rparr>)" "set (orset_values (rune_tags da [1] [2])) = {[5, 1, 0x78]}"
    by (elim exE conjE) (rule that)
  then show ?thesis by (intro exI conjI)
qed

theorem flatten_shows_present_witness:
  "map mantle_name (mantle_list (flatten (Some one_rune) \<lparr> pfields = [], fallback = FConflict \<rparr>)) = [[1]]"
proof -
  have "\<forall>m \<in> set (members (get (Some one_rune) (ascii ''mantles''))). nul_free (fst m)" by (simp add: one_rune_def)
  then have "map mantle_name (mantle_list (flatten (Some one_rune) \<lparr> pfields = [], fallback = FConflict \<rparr>)) = shown_mantles (Some one_rune)"
    by (rule flatten_shows_present)
  moreover have "shown_mantles (Some one_rune) = [[1]]" by code_simp
  ultimately show ?thesis by simp
qed

end
