(* ===== verification/Sequence.thy ===== *)
theory Sequence
  imports Edits
begin

text \<open>
  Ordered content (\<^verbatim>\<open>src/crdt/sequence.cpp\<close>): the Fugue tree, stored as a set of nodes and a
  set of tombstones. A node of the vector is a record; the explicit stack of frames is a list
  with its top first, and the loop over it runs on fuel, three steps for each node, which is
  shown to be enough. \<^verbatim>\<open>static_cast<int>\<close> of the side is the integer part of the double (the
  cast is undefined in C++ outside the range of \<^verbatim>\<open>int\<close>).
\<close>

definition kSideLeft :: int where "kSideLeft = 0"
definition kSideRight :: int where "kSideRight = 1"

record seq_node =
  sn_id :: bytes
  sn_parent :: bytes
  sn_side :: int
  sn_payload :: bytes

definition encode_node :: "bytes \<Rightarrow> int \<Rightarrow> bytes \<Rightarrow> bytes canon" where
  "encode_node parent side payload =
     encode (JArray [mk_string parent, mk_int side, mk_string (hexify payload)])"

definition decode_node :: "bytes \<Rightarrow> bytes \<Rightarrow> seq_node option" where
  "decode_node i bytes =
     (case decode bytes of
        Some (JArray [p, s, v]) \<Rightarrow>
          Some \<lparr> sn_id = i, sn_parent = str_or (Some p) [],
                 sn_side = (case as_number (Some s) of Some x \<Rightarrow> dbl_trunc x | None \<Rightarrow> kSideRight),
                 sn_payload = (case as_string (Some v) of Some h \<Rightarrow> unhexify h | None \<Rightarrow> []) \<rparr>
      | _ \<Rightarrow> None)"

definition seq_holder :: "doc \<Rightarrow> bytes \<Rightarrow> bytes \<Rightarrow> bytes \<Rightarrow> json option" where
  "seq_holder root mantle rune_id field =
     get (get (get (rune_node root mantle rune_id) (ascii ''fields'')) (c_str field)) (ascii ''seq'')"

section \<open>The order\<close>

definition seq_nodes :: "json option \<Rightarrow> seq_node list" where
  "seq_nodes seq =
     List.map_filter (\<lambda>kv. decode_node (fst kv) (snd kv)) (live_adds (orset_from_json (get seq (ascii ''nodes''))))"

definition children_of :: "seq_node list \<Rightarrow> bytes \<Rightarrow> bool \<Rightarrow> seq_node list" where
  "children_of nodes parent right =
     sort_key sn_id (filter (\<lambda>n. sn_parent n = parent \<and> (sn_side n \<noteq> kSideLeft) = right) nodes)"

type_synonym frame = "seq_node \<times> nat"

definition push_side :: "seq_node list \<Rightarrow> bytes \<Rightarrow> bool \<Rightarrow> frame list" where
  "push_side nodes parent right = map (\<lambda>n. (n, 0)) (children_of nodes parent right)"

fun seq_loop :: "nat \<Rightarrow> seq_node list \<Rightarrow> frame list \<Rightarrow> seq_node list option" where
  "seq_loop k nodes [] = Some []"
| "seq_loop 0 nodes (f # st) = None"
| "seq_loop (Suc k) nodes ((n, stage) # st) =
     (if stage = 0 then seq_loop k nodes (push_side nodes (sn_id n) False @ (n, 1) # st)
      else if stage = 1 then map_option ((#) n) (seq_loop k nodes ((n, 2) # st))
      else seq_loop k nodes (push_side nodes (sn_id n) True @ st))"

definition order_nodes :: "seq_node list \<Rightarrow> seq_node list option" where
  "order_nodes nodes =
     seq_loop (3 * length nodes) nodes (push_side nodes [] False @ push_side nodes [] True)"

definition seq_order :: "json option \<Rightarrow> seq_node list" where
  "seq_order seq = (case order_nodes (seq_nodes seq) of Some out \<Rightarrow> out | None \<Rightarrow> [])"

definition seq_dead :: "json option \<Rightarrow> bytes list" where
  "seq_dead seq = os_of (map fst (live_adds (orset_from_json (get seq (ascii ''dead'')))))"

definition has_right_child :: "seq_node list \<Rightarrow> bytes \<Rightarrow> bool" where
  "has_right_child all i \<longleftrightarrow> list_ex (\<lambda>n. sn_parent n = i \<and> sn_side n = kSideRight) all"

definition make_empty_seq :: json where
  "make_empty_seq = JObject [(ascii ''nodes'', orset_to_json orset_new), (ascii ''dead'', orset_to_json orset_new)]"

definition seq_is :: "doc \<Rightarrow> bytes \<Rightarrow> bytes \<Rightarrow> bytes \<Rightarrow> bool" where
  "seq_is doc mantle rune_id field \<longleftrightarrow> seq_holder doc mantle rune_id field \<noteq> None"

section \<open>Editing\<close>

text \<open>The scan for the visible index: the visible elements passed and the last of them, with
  its position in the full order.\<close>

fun scan_visible :: "bytes list \<Rightarrow> nat \<Rightarrow> nat \<Rightarrow> nat \<Rightarrow> (seq_node \<times> nat) option \<Rightarrow> seq_node list \<Rightarrow>
    nat \<times> (seq_node \<times> nat) option" where
  "scan_visible dead index i visible left [] = (visible, left)"
| "scan_visible dead index i visible left (n # ns) =
     (if sn_id n \<in> set dead then scan_visible dead index (i + 1) visible left ns
      else if visible = index then (visible, left)
      else scan_visible dead index (i + 1) (visible + 1) (Some (n, i)) ns)"

definition attach :: "seq_node list \<Rightarrow> (seq_node \<times> nat) option \<Rightarrow> bytes \<times> int" where
  "attach all left =
     (let after = (case left of Some (_, i) \<Rightarrow> i + 1 | None \<Rightarrow> 0);
          right = (if after < length all then Some (all ! after) else None)
      in case left of
           Some (l, _) \<Rightarrow>
             if \<not> has_right_child all (sn_id l) then (sn_id l, kSideRight)
             else (case right of Some r \<Rightarrow> (sn_id r, kSideLeft) | None \<Rightarrow> (sn_id l, kSideRight))
         | None \<Rightarrow> (case right of Some r \<Rightarrow> (sn_id r, kSideLeft) | None \<Rightarrow> ([], kSideRight)))"

definition at_seq :: "bytes \<Rightarrow> bytes \<Rightarrow> bytes \<Rightarrow> (json \<Rightarrow> json) \<Rightarrow> doc \<Rightarrow> doc" where
  "at_seq mantle rune_id field f =
     map_option (at_rune mantle rune_id (at_member (ascii ''fields'') (at_member (c_str field)
       (at_member (ascii ''seq'') f))))"

definition seq_insert ::
    "'m mint \<Rightarrow> doc \<Rightarrow> bytes \<Rightarrow> bytes \<Rightarrow> bytes \<Rightarrow> nat \<Rightarrow> json option \<Rightarrow> 'm \<Rightarrow> (bool \<times> doc \<times> 'm) canon" where
  "seq_insert nx doc mantle rune_id field index value m =
     (let seq = seq_holder doc mantle rune_id field in
      if seq = None then Inr (False, doc, m)
      else let all = seq_order seq; dead = seq_dead seq;
               (visible, left) = scan_visible dead index 0 0 None all
           in if index > visible then Inr (False, doc, m)
              else let (parent, side) = attach all left;
                       ns = orset_from_json (get seq (ascii ''nodes''))
                   in cbind (encode_opt value) (\<lambda>v.
                      cbind (encode_node parent side v) (\<lambda>b.
                      let (t, m') = nx m in
                      Inr (True, at_seq mantle rune_id field (put_orset (ascii ''nodes'') (orset_add t b ns)) doc, m'))))"

fun find_visible :: "bytes list \<Rightarrow> nat \<Rightarrow> nat \<Rightarrow> seq_node list \<Rightarrow> seq_node option" where
  "find_visible dead index visible [] = None"
| "find_visible dead index visible (n # ns) =
     (if sn_id n \<in> set dead then find_visible dead index visible ns
      else if visible = index then Some n
      else find_visible dead index (visible + 1) ns)"

definition seq_erase :: "doc \<Rightarrow> bytes \<Rightarrow> bytes \<Rightarrow> bytes \<Rightarrow> nat \<Rightarrow> bool \<times> doc" where
  "seq_erase doc mantle rune_id field index =
     (let seq = seq_holder doc mantle rune_id field in
      if seq = None then (False, doc)
      else case find_visible (seq_dead seq) index 0 (seq_order seq) of
        None \<Rightarrow> (False, doc)
      | Some n \<Rightarrow>
          let ds = orset_from_json (get seq (ascii ''dead''))
          in (True, at_seq mantle rune_id field
                 (put_orset (ascii ''dead'') (orset_add (sn_id n) (ascii ''1'') ds)) doc))"

definition seq_read :: "doc \<Rightarrow> bytes \<Rightarrow> bytes \<Rightarrow> bytes \<Rightarrow> json option" where
  "seq_read doc mantle rune_id field =
     (let seq = seq_holder doc mantle rune_id field in
      if seq = None then None
      else Some (JArray (map (\<lambda>n. case decode (sn_payload n) of Some v \<Rightarrow> v | None \<Rightarrow> JNull)
             (filter (\<lambda>n. sn_id n \<notin> set (seq_dead seq)) (seq_order seq)))))"

text \<open>Members added to an object through its pointer.\<close>

fun set_member :: "bytes \<Rightarrow> json \<Rightarrow> json \<Rightarrow> json" where
  "set_member k v (JObject ms) = JObject (add_member (delete_member (c_str k) ms) k v)"
| "set_member k v j = j"

fun insert_all ::
    "'m mint \<Rightarrow> bytes \<Rightarrow> bytes \<Rightarrow> bytes \<Rightarrow> nat \<Rightarrow> json list \<Rightarrow> doc \<times> 'm \<Rightarrow> (doc \<times> 'm) canon" where
  "insert_all nx mantle rune_id field i [] st = Inr st"
| "insert_all nx mantle rune_id field i (x # xs) st =
     cbind (seq_insert nx (fst st) mantle rune_id field i (Some x) (snd st)) (\<lambda>(_, d, m).
     insert_all nx mantle rune_id field (i + 1) xs (d, m))"

definition seq_init ::
    "'m mint \<Rightarrow> doc \<Rightarrow> bytes \<Rightarrow> bytes \<Rightarrow> bytes \<Rightarrow> json option \<Rightarrow> 'm \<Rightarrow> (bool \<times> doc \<times> 'm) canon" where
  "seq_init nx doc mantle rune_id field array m =
     (let fs = get (rune_node doc mantle rune_id) (ascii ''fields'') in
      if fs = None then Inr (False, doc, m)
      else let doc' = map_option (at_rune mantle rune_id (at_member (ascii ''fields'')
                        (set_member field (JObject [(ascii ''seq'', make_empty_seq)])))) doc
           in cbind (insert_all nx mantle rune_id field 0 (if is_JArray array then children array else [])
                       (doc', m)) (\<lambda>(d, m'). Inr (True, d, m')))"

end
