(* ===== verification/Fugue.thy ===== *)
theory Fugue
  imports Sequence
begin

text \<open>
  What the order of a sequence promises: the traversal ends and visits every node attached to
  the root exactly once; a new node lands exactly at the requested place, whatever the tree
  looks like; an erased element and nothing else disappears; and the nodes below one node are
  never interleaved with others.
\<close>

section \<open>Enough fuel\<close>

lemma fuel_mono: "seq_loop k ns st = Some out \<Longrightarrow> k \<le> k' \<Longrightarrow> seq_loop k' ns st = Some out"
proof (induction k ns st arbitrary: k' out rule: seq_loop.induct)
  case (3 k ns n stage st)
  obtain k2 where k2: "k' = Suc k2" "k \<le> k2" using "3.prems"(2) by (cases k') auto
  consider "stage = 0" | "stage = 1" | "stage \<noteq> 0" "stage \<noteq> 1" by blast
  then show ?case
  proof cases
    case 1
    have "seq_loop k2 ns (push_side ns (sn_id n) False @ (n, 1) # st) = Some out"
      by (rule "3.IH"(1) [OF 1 _ k2(2)]) (use "3.prems"(1) 1 in simp)
    then show ?thesis using k2 1 by simp
  next
    case 2
    then obtain o' where o: "seq_loop k ns ((n, 2) # st) = Some o'" "out = n # o'"
      using "3.prems"(1) by auto
    have "seq_loop k2 ns ((n, 2) # st) = Some o'"
      by (rule "3.IH"(2) [OF _ 2 o(1) k2(2)]) (use 2 in simp)
    then show ?thesis using k2 2 o by simp
  next
    case 3
    have "seq_loop k2 ns (push_side ns (sn_id n) True @ st) = Some out"
      by (rule "3.IH"(3) [OF 3 _ k2(2)]) (use "3.prems"(1) 3 in simp)
    then show ?thesis using k2 3 by simp
  qed
qed auto

lemma set_children_of:
  "set (children_of ns p r) = {n \<in> set ns. sn_parent n = p \<and> (sn_side n \<noteq> kSideLeft) = r}"
  by (auto simp: children_of_def)

lemma distinct_children_of: "distinct ns \<Longrightarrow> distinct (children_of ns p r)"
  by (simp add: children_of_def)

text \<open>The frames still to come for a node, and the nodes not pushed yet.\<close>

fun frame_cost :: "frame \<Rightarrow> nat" where
  "frame_cost (n, stage) = (if stage = 0 then 3 else if stage = 1 then 2 else 1)"

definition stack_ok :: "seq_node list \<Rightarrow> frame list \<Rightarrow> seq_node set \<Rightarrow> bool" where
  "stack_ok ns st U \<longleftrightarrow> U \<subseteq> set ns \<and> distinct (map (sn_id \<circ> fst) st) \<and> sn_id ` U \<inter> (sn_id \<circ> fst) ` set st = {} \<and>
     (\<forall>(m, stage) \<in> set st. (stage = 0 \<longrightarrow> set (children_of ns (sn_id m) False) \<subseteq> U) \<and>
        set (children_of ns (sn_id m) True) \<subseteq> U) \<and>
     (\<forall>u \<in> U. \<forall>r. set (children_of ns (sn_id u) r) \<subseteq> U)"

lemma stack_ok_push:
  assumes ok: "stack_ok ns ((m, stage) # st) U" and d: "distinct (map sn_id ns)"
    and r: "r = (stage \<noteq> 0)" and st': "st' = (if stage = 0 then (m, 1) # st else st)"
    and c: "C = children_of ns (sn_id m) r"
  shows "stack_ok ns (map (\<lambda>n. (n, 0)) C @ st') (U - set C)"
proof -
  have sub: "set C \<subseteq> U" using ok r c by (cases r) (auto simp: stack_ok_def)
  have par: "n \<in> set C \<Longrightarrow> sn_parent n = sn_id m \<and> (sn_side n \<noteq> kSideLeft) = r" for n
    by (auto simp: c set_children_of)
  have other: "set (children_of ns p q) \<inter> set C = {}" if "p \<noteq> sn_id m \<or> q \<noteq> r" for p q
    using par that by (auto simp: set_children_of)
  have ids: "sn_id u \<noteq> sn_id m" if "u \<in> U" for u
  proof -
    have "sn_id u \<in> sn_id ` U" using that by (rule imageI)
    then show ?thesis using ok by (auto simp: stack_ok_def)
  qed
  have frames: "sn_id (fst f) \<noteq> sn_id m" if "f \<in> set st" for f
  proof -
    have "sn_id m \<notin> (sn_id \<circ> fst) ` set st" using ok by (simp add: stack_ok_def)
    then show ?thesis using imageI [OF that, of "sn_id \<circ> fst"] by (metis comp_apply)
  qed
  have "distinct ns" using d by (simp add: distinct_map)
  then have dC: "distinct (map sn_id C)"
    using d distinct_children_of [of ns] by (auto simp: c distinct_map set_children_of inj_on_def)
  have inj: "x = y" if "x \<in> set ns" "y \<in> set ns" "sn_id x = sn_id y" for x y
    using d that by (auto simp: distinct_map inj_on_def)
  have U: "U \<subseteq> set ns" using ok by (simp add: stack_ok_def)
  show ?thesis
    unfolding stack_ok_def
  proof (intro conjI)
    show "U - set C \<subseteq> set ns" using U by blast
    have "(sn_id \<circ> fst) ` set st' \<subseteq> (sn_id \<circ> fst) ` set ((m, stage) # st)" by (auto simp: st')
    moreover have "sn_id ` U \<inter> (sn_id \<circ> fst) ` set ((m, stage) # st) = {}" using ok unfolding stack_ok_def by blast
    ultimately have dis: "sn_id ` U \<inter> (sn_id \<circ> fst) ` set st' = {}" by blast
    have "distinct (map (sn_id \<circ> fst) st')" using ok by (auto simp: st' stack_ok_def)
    then show "distinct (map (sn_id \<circ> fst) (map (\<lambda>n. (n, 0)) C @ st'))"
      using dC dis sub by (auto simp: o_def)
    have "sn_id ` (U - set C) \<inter> sn_id ` set C = {}"
    proof (intro equalityI subsetI)
      fix i assume "i \<in> sn_id ` (U - set C) \<inter> sn_id ` set C"
      then obtain a b where "a \<in> U" "a \<notin> set C" "b \<in> set C" "i = sn_id a" "i = sn_id b" by blast
      moreover have "a = b" by (rule inj) (use calculation sub U in auto)
      ultimately show "i \<in> {}" by simp
    qed simp
    moreover have "(sn_id \<circ> fst) ` set (map (\<lambda>n. (n, 0::nat)) C @ st') = sn_id ` set C \<union> (sn_id \<circ> fst) ` set st'"
      by (simp add: image_Un image_image)
    moreover have "sn_id ` (U - set C) \<inter> (sn_id \<circ> fst) ` set st' = {}"
      using dis by (meson Diff_subset disjoint_iff image_mono subsetD)
    ultimately show "sn_id ` (U - set C) \<inter> (sn_id \<circ> fst) ` set (map (\<lambda>n. (n, 0)) C @ st') = {}"
      by (simp only: Int_Un_distrib Un_empty_left)
    have below: "set (children_of ns (sn_id u) q) \<subseteq> U - set C" if "u \<in> U" for u q
    proof -
      have "set (children_of ns (sn_id u) q) \<subseteq> U" using ok that unfolding stack_ok_def by blast
      moreover have "set (children_of ns (sn_id u) q) \<inter> set C = {}" using ids [OF that] by (intro other) simp
      ultimately show ?thesis by blast
    qed
    then show "\<forall>u \<in> U - set C. \<forall>q. set (children_of ns (sn_id u) q) \<subseteq> U - set C" by blast
    show "\<forall>(m', stage') \<in> set (map (\<lambda>n. (n, 0)) C @ st').
        (stage' = 0 \<longrightarrow> set (children_of ns (sn_id m') False) \<subseteq> U - set C) \<and>
        set (children_of ns (sn_id m') True) \<subseteq> U - set C"
    proof clarify
      fix m' stage' assume f: "(m', stage') \<in> set (map (\<lambda>n. (n, 0)) C @ st')"
      consider "m' \<in> set C" | "(m', stage') \<in> set st" | "stage = 0" "m' = m" "stage' = 1"
        using f by (auto simp: st' split: if_splits)
      then show "(stage' = 0 \<longrightarrow> set (children_of ns (sn_id m') False) \<subseteq> U - set C) \<and>
        set (children_of ns (sn_id m') True) \<subseteq> U - set C"
      proof cases
        case 1
        then have "m' \<in> U" using sub by blast
        then show ?thesis using below by blast
      next
        case 2
        then have "(stage' = 0 \<longrightarrow> set (children_of ns (sn_id m') False) \<subseteq> U) \<and> set (children_of ns (sn_id m') True) \<subseteq> U"
          using ok by (auto simp: stack_ok_def)
        moreover have "set (children_of ns (sn_id m') q) \<inter> set C = {}" for q
          using frames [OF 2] by (intro other) simp
        ultimately show ?thesis by blast
      next
        case 3
        moreover have "set (children_of ns (sn_id m) True) \<inter> set C = {}" using r 3 by (intro other) simp
        moreover have "set (children_of ns (sn_id m) True) \<subseteq> U" using ok by (simp add: stack_ok_def)
        ultimately show ?thesis by auto
      qed
    qed
  qed
qed

lemma enough_fuel:
  assumes "stack_ok ns st U" "distinct (map sn_id ns)" "sum_list (map frame_cost st) + 3 * card U \<le> k"
  shows "\<exists>out. seq_loop k ns st = Some out"
  using assms
proof (induction k arbitrary: st U)
  case 0
  then show ?case by (cases st) (auto split: if_splits)
next
  case (Suc k)
  show ?case
  proof (cases st)
    case (Cons f st1)
    obtain m stage where f: "f = (m, stage)" by (cases f)
    have fin: "finite U" using Suc.prems(1) finite_subset by (auto simp: stack_ok_def)
    have push: "\<exists>out. seq_loop k ns (push_side ns (sn_id m) r @ st') = Some out"
      if "r = (stage \<noteq> 0)" "st' = (if stage = 0 then (m, 1) # st1 else st1)" "stage \<noteq> 1" for r st'
    proof (rule Suc.IH)
      let ?C = "children_of ns (sn_id m) r"
      show "stack_ok ns (push_side ns (sn_id m) r @ st') (U - set ?C)"
        unfolding push_side_def using Suc.prems that by (intro stack_ok_push) (auto simp: Cons f)
      have "set ?C \<subseteq> U" using Suc.prems(1) that(1) by (cases r) (auto simp: stack_ok_def Cons f)
      moreover have "distinct ?C" using distinct_children_of Suc.prems(2) by (auto simp: distinct_map)
      ultimately have "card (U - set ?C) + length ?C = card U"
        using fin by (metis card_Diff_subset card_mono distinct_card finite_set le_add_diff_inverse2)
      moreover have "sum_list (map frame_cost (push_side ns (sn_id m) r)) = 3 * length ?C"
        by (simp add: push_side_def o_def sum_list_triv)
      ultimately show "sum_list (map frame_cost (push_side ns (sn_id m) r @ st')) + 3 * card (U - set ?C) \<le> k"
        using Suc.prems(3) that(2,3) by (auto simp: Cons f split: if_splits)
    qed (rule Suc.prems(2))
    have "\<exists>out. seq_loop k ns ((m, 2) # st1) = Some out" if "stage = 1"
    proof (rule Suc.IH)
      show "stack_ok ns ((m, 2) # st1) U" using Suc.prems(1) that by (auto simp: stack_ok_def Cons f)
    qed (use Suc.prems that in \<open>auto simp: Cons f\<close>)
    then show ?thesis
      using push [of False "(m, 1) # st1"] push [of True st1] by (cases "stage = 0"; cases "stage = 1") (auto simp: Cons f)
  qed simp
qed

text \<open>The ids of a document's nodes are the tags of a set: distinct and not empty.\<close>

definition ids_ok :: "seq_node list \<Rightarrow> bool" where
  "ids_ok ns \<longleftrightarrow> distinct (map sn_id ns) \<and> [] \<notin> sn_id ` set ns"

lemma start_ok:
  assumes "ids_ok ns"
  defines "C \<equiv> children_of ns [] False @ children_of ns [] True"
  shows "stack_ok ns (push_side ns [] False @ push_side ns [] True) (set ns - set C) \<and>
    sum_list (map frame_cost (push_side ns [] False @ push_side ns [] True)) + 3 * card (set ns - set C) = 3 * length ns"
proof
  have d: "distinct (map sn_id ns)" "distinct ns" using assms(1) by (auto simp: ids_ok_def distinct_map)
  have inj: "x = y" if "x \<in> set ns" "y \<in> set ns" "sn_id x = sn_id y" for x y
    using d that by (auto simp: distinct_map inj_on_def)
  have sub: "set C \<subseteq> set ns" by (auto simp: C_def set_children_of)
  have dC: "distinct C" using d(2) by (auto simp: C_def set_children_of distinct_children_of)
  have st: "push_side ns [] False @ push_side ns [] True = map (\<lambda>n. (n, 0)) C"
    by (simp add: push_side_def C_def)
  have "set (children_of ns (sn_id u) r) \<inter> set C = {}" if "u \<in> set ns" for u r
    using assms(1) that by (auto simp: C_def set_children_of ids_ok_def)
  then have c: "set (children_of ns (sn_id u) r) \<subseteq> set ns - set C" if "u \<in> set ns" for u r
    using that set_children_of [of ns "sn_id u" r] by (metis (no_types, lifting) Diff_iff disjoint_iff mem_Collect_eq subsetI)
  have "distinct (map sn_id C)" using dC inj sub by (auto simp: distinct_map inj_on_def)
  moreover have "sn_id ` (set ns - set C) \<inter> sn_id ` set C = {}" using inj sub by blast
  moreover have "set (children_of ns (sn_id (fst f)) r) \<subseteq> set ns - set C" if "f \<in> set (map (\<lambda>n. (n, 0::nat)) C)" for f r
    using that sub by (intro c) auto
  ultimately show "stack_ok ns (push_side ns [] False @ push_side ns [] True) (set ns - set C)"
    unfolding stack_ok_def st using c by (simp add: o_def image_image split_beta)
  have "card (set ns - set C) + length C = length ns"
    using sub dC d(2) by (metis card_Diff_subset card_mono distinct_card finite_set le_add_diff_inverse2)
  then show "sum_list (map frame_cost (push_side ns [] False @ push_side ns [] True)) + 3 * card (set ns - set C) = 3 * length ns"
    unfolding st by (simp add: o_def sum_list_triv)
qed

lemma order_total: "ids_ok ns \<Longrightarrow> \<exists>out. order_nodes ns = Some out"
  unfolding order_nodes_def
  by (rule enough_fuel [OF conjunct1 [OF start_ok]])
    (use start_ok [THEN conjunct2] in \<open>auto simp: ids_ok_def simp del: map_append sum_list_append\<close>)


section \<open>The traversal as a relation\<close>

inductive traverses :: "seq_node list \<Rightarrow> frame list \<Rightarrow> seq_node list \<Rightarrow> bool" for ns where
  all_done: "traverses ns [] []"
| go_left: "traverses ns (push_side ns (sn_id n) False @ (n, 1) # st) out \<Longrightarrow> traverses ns ((n, 0) # st) out"
| visit: "traverses ns ((n, 2) # st) out \<Longrightarrow> traverses ns ((n, 1) # st) (n # out)"
| go_right: "traverses ns (push_side ns (sn_id n) True @ st) out \<Longrightarrow> 2 \<le> stage \<Longrightarrow> traverses ns ((n, stage) # st) out"

lemma visit_1: "traverses ns ((n, 2) # st) out \<Longrightarrow> traverses ns ((n, Suc 0) # st) (n # out)"
  using visit by simp

inductive_cases visit_elim: "traverses ns ((n, Suc 0) # st) out"

lemma seq_loop_traverses: "seq_loop k ns st = Some out \<Longrightarrow> traverses ns st out"
proof (induction k ns st arbitrary: out rule: seq_loop.induct)
  case (3 k ns n stage st)
  consider "stage = 0" | "stage = 1" | "stage \<noteq> 0" "stage \<noteq> 1" by blast
  then show ?case
  proof cases
    case 1
    then show ?thesis using "3.IH"(1) "3.prems" by (auto intro: go_left)
  next
    case 2
    then obtain o' where o: "seq_loop k ns ((n, 2) # st) = Some o'" "out = n # o'" using "3.prems" by auto
    then have "traverses ns ((n, 2) # st) o'" using "3.IH"(2) 2 by simp
    then show ?thesis using 2 o visit by simp
  next
    case 3
    then show ?thesis using "3.IH"(3) "3.prems" by (intro go_right) auto
  qed
qed (auto intro: all_done)

lemma traverses_seq_loop: "traverses ns st out \<Longrightarrow> \<exists>k. seq_loop k ns st = Some out"
proof (induction rule: traverses.induct)
  case (go_left n st out)
  then obtain k where "seq_loop k ns (push_side ns (sn_id n) False @ (n, 1) # st) = Some out" by blast
  then have "seq_loop (Suc k) ns ((n, 0) # st) = Some out" by simp
  then show ?case by blast
next
  case (visit n st out)
  then obtain k where "seq_loop k ns ((n, 2) # st) = Some out" by blast
  then have "seq_loop (Suc k) ns ((n, 1) # st) = Some (n # out)" by simp
  then show ?case by blast
next
  case (go_right n st out stage)
  then obtain k where "seq_loop k ns (push_side ns (sn_id n) True @ st) = Some out" by blast
  then have "seq_loop (Suc k) ns ((n, stage) # st) = Some out" using go_right(2) by simp
  then show ?case by blast
qed auto

definition roots :: "seq_node list \<Rightarrow> frame list" where
  "roots ns = push_side ns [] False @ push_side ns [] True"

lemma order_nodes_iff:
  assumes "ids_ok ns"
  shows "order_nodes ns = Some out \<longleftrightarrow> traverses ns (roots ns) out"
proof
  assume t: "traverses ns (roots ns) out"
  then obtain k where k: "seq_loop k ns (roots ns) = Some out" using traverses_seq_loop by blast
  obtain o' where o: "seq_loop (3 * length ns) ns (roots ns) = Some o'"
    using order_total [OF assms] by (auto simp: order_nodes_def roots_def)
  have "seq_loop (max k (3 * length ns)) ns (roots ns) = Some out" using fuel_mono [OF k] by simp
  moreover have "seq_loop (max k (3 * length ns)) ns (roots ns) = Some o'" using fuel_mono [OF o] by simp
  ultimately have "out = o'" by simp
  then show "order_nodes ns = Some out" using o by (simp add: order_nodes_def roots_def)
qed (auto simp: order_nodes_def roots_def seq_loop_traverses)

section \<open>What it visits\<close>

lemma set_push_side: "set (push_side ns p r) = (\<lambda>n. (n, 0)) ` set (children_of ns p r)"
  by (simp add: push_side_def)

text \<open>Every frame is served and the visited nodes are closed under children.\<close>

lemma visits_all:
  "traverses ns st out \<Longrightarrow>
    (\<forall>(m, s) \<in> set st. (s \<le> 1 \<longrightarrow> m \<in> set out) \<and> set (children_of ns (sn_id m) True) \<subseteq> set out \<and>
       (s = 0 \<longrightarrow> set (children_of ns (sn_id m) False) \<subseteq> set out)) \<and>
    (\<forall>n \<in> set out. set (children_of ns (sn_id n) True) \<subseteq> set out \<and>
       ((n, 1) \<notin> set st \<longrightarrow> set (children_of ns (sn_id n) False) \<subseteq> set out))"
proof (induction rule: traverses.induct)
  case (go_left n st out)
  have c: "set (children_of ns (sn_id n) False) \<subseteq> set out"
    using go_left.IH by (auto simp: set_push_side)
  then show ?case using go_left.IH by (auto simp: set_push_side)
next
  case (visit n st out)
  then show ?case by auto
next
  case (go_right n st out stage)
  have "set (children_of ns (sn_id n) True) \<subseteq> set out" using go_right.IH by (auto simp: set_push_side)
  then show ?case using go_right by (auto simp: set_push_side)
qed auto

text \<open>The node after one with right children has no left children, and neither has the first.\<close>

lemma neighbours:
  "traverses ns st out \<Longrightarrow>
    (\<forall>pre l post. out = pre @ l # post \<longrightarrow> children_of ns (sn_id l) True \<noteq> [] \<longrightarrow>
       post \<noteq> [] \<and> children_of ns (sn_id (hd post)) False = []) \<and>
    (\<forall>m s st'. st = (m, s) # st' \<longrightarrow> s = 0 \<or> 2 \<le> s \<and> children_of ns (sn_id m) True \<noteq> [] \<longrightarrow>
       out \<noteq> [] \<and> children_of ns (sn_id (hd out)) False = [])"
proof (induction rule: traverses.induct)
  case (go_left n st out)
  have "out \<noteq> [] \<and> children_of ns (sn_id (hd out)) False = []"
  proof (cases "children_of ns (sn_id n) False")
    case Nil
    then have "traverses ns ((n, 1) # st) out" using go_left.hyps by (simp add: push_side_def)
    then show ?thesis using Nil by (auto elim: visit_elim)
  next
    case (Cons c cs)
    then show ?thesis using go_left.IH by (simp add: push_side_def)
  qed
  then show ?case using go_left.IH by blast
next
  case (visit n st out)
  have "out \<noteq> [] \<and> children_of ns (sn_id (hd out)) False = []" if "children_of ns (sn_id n) True \<noteq> []"
    using visit.IH that by simp
  then show ?case using visit.IH by (auto simp: Cons_eq_append_conv)
next
  case (go_right n st out stage)
  have "out \<noteq> [] \<and> children_of ns (sn_id (hd out)) False = []" if "children_of ns (sn_id n) True \<noteq> []"
    using go_right.IH that by (cases "children_of ns (sn_id n) True") (simp_all add: push_side_def)
  then show ?case using go_right by auto
qed simp


text \<open>No node is visited twice.\<close>

lemma stack_ok_step:
  assumes "stack_ok ns ((m, s) # st) U" "distinct (map sn_id ns)"
  shows "s = 0 \<Longrightarrow> stack_ok ns (push_side ns (sn_id m) False @ (m, 1) # st) (U - set (children_of ns (sn_id m) False))"
    and "2 \<le> s \<Longrightarrow> stack_ok ns (push_side ns (sn_id m) True @ st) (U - set (children_of ns (sn_id m) True))"
    and "s = 1 \<Longrightarrow> stack_ok ns ((m, 2) # st) U"
    and "s = 0 \<Longrightarrow> set (children_of ns (sn_id m) False) \<subseteq> U"
    and "set (children_of ns (sn_id m) True) \<subseteq> U"
    and "m \<notin> U \<and> (\<forall>f \<in> set st. sn_id (fst f) \<noteq> sn_id m) \<and> (\<forall>u \<in> U. sn_id u \<noteq> sn_id m)"
proof -
  show "s = 0 \<Longrightarrow> stack_ok ns (push_side ns (sn_id m) False @ (m, 1) # st) (U - set (children_of ns (sn_id m) False))"
    using stack_ok_push [OF assms refl refl refl] by (simp add: push_side_def)
  show "2 \<le> s \<Longrightarrow> stack_ok ns (push_side ns (sn_id m) True @ st) (U - set (children_of ns (sn_id m) True))"
    using stack_ok_push [OF assms refl refl refl] by (simp add: push_side_def)
  show "s = 1 \<Longrightarrow> stack_ok ns ((m, 2) # st) U" using assms(1) by (auto simp: stack_ok_def)
  show "s = 0 \<Longrightarrow> set (children_of ns (sn_id m) False) \<subseteq> U" "set (children_of ns (sn_id m) True) \<subseteq> U"
    using assms(1) by (auto simp: stack_ok_def)
  have "sn_id m \<notin> (sn_id \<circ> fst) ` set st" "sn_id m \<notin> sn_id ` U"
    using assms(1) by (auto simp: stack_ok_def)
  then show "m \<notin> U \<and> (\<forall>f \<in> set st. sn_id (fst f) \<noteq> sn_id m) \<and> (\<forall>u \<in> U. sn_id u \<noteq> sn_id m)"
    by (metis comp_apply imageI)
qed

definition pending :: "frame list \<Rightarrow> seq_node set" where
  "pending st = fst ` {f \<in> set st. snd f \<le> 1}"

lemma pending_simps [simp]:
  "pending [] = {}" "pending (f # st) = (if snd f \<le> 1 then insert (fst f) (pending st) else pending st)"
  "pending (xs @ st) = pending xs \<union> pending st" "pending (push_side ns p r) = set (children_of ns p r)"
  by (auto simp: pending_def push_side_def image_iff)

lemma visits_once:
  "traverses ns st out \<Longrightarrow> stack_ok ns st U \<Longrightarrow> distinct (map sn_id ns) \<Longrightarrow>
    distinct (map sn_id out) \<and> set out \<subseteq> U \<union> pending st"
proof (induction arbitrary: U rule: traverses.induct)
  case (go_left n st out)
  note ok = stack_ok_step [OF go_left.prems]
  have "distinct (map sn_id out) \<and> set out \<subseteq> (U - set (children_of ns (sn_id n) False)) \<union>
      pending (push_side ns (sn_id n) False @ (n, 1) # st)"
    by (rule go_left.IH [OF ok(1) go_left.prems(2)]) simp
  then show ?case using ok(4) by auto
next
  case (visit n st out)
  note ok = stack_ok_step [OF visit.prems]
  have o: "distinct (map sn_id out) \<and> set out \<subseteq> U \<union> pending ((n, 2) # st)"
    by (rule visit.IH [OF ok(3) visit.prems(2)]) simp
  have "sn_id x \<noteq> sn_id n" if "x \<in> set out" for x
    using that o ok(6) by (auto simp: pending_def)
  then have "sn_id n \<notin> set (map sn_id out)" by (metis imageE set_map)
  then show ?case using o by auto
next
  case (go_right n st out stage)
  note ok = stack_ok_step [OF go_right.prems]
  have "distinct (map sn_id out) \<and> set out \<subseteq> (U - set (children_of ns (sn_id n) True)) \<union>
      pending (push_side ns (sn_id n) True @ st)"
    by (rule go_right.IH [OF ok(2) go_right.prems(2)]) (use go_right.hyps in simp)
  then show ?case using ok(5) go_right.hyps by auto
qed simp

text \<open>The nodes attached to the root, directly or through others.\<close>

inductive attached :: "seq_node list \<Rightarrow> seq_node \<Rightarrow> bool" for ns where
  at_root: "n \<in> set ns \<Longrightarrow> sn_parent n = [] \<Longrightarrow> attached ns n"
| below: "attached ns m \<Longrightarrow> n \<in> set ns \<Longrightarrow> sn_parent n = sn_id m \<Longrightarrow> attached ns n"

lemma attached_frames:
  "attached ns n \<Longrightarrow> f \<in> set (push_side ns (sn_id n) r) \<Longrightarrow> attached ns (fst f)"
proof -
  assume n: "attached ns n" and "f \<in> set (push_side ns (sn_id n) r)"
  then obtain c where "f = (c, 0)" "c \<in> set (children_of ns (sn_id n) r)" unfolding set_push_side by blast
  then have "fst f \<in> set ns" "sn_parent (fst f) = sn_id n" by (simp_all add: set_children_of)
  then show "attached ns (fst f)" by (rule below [OF n])
qed

lemma visits_attached:
  "traverses ns st out \<Longrightarrow> \<forall>f \<in> set st. attached ns (fst f) \<Longrightarrow> \<forall>n \<in> set out. attached ns n"
proof (induction rule: traverses.induct)
  case (go_left n st out)
  have n: "attached ns n" using go_left.prems by simp
  show ?case
  proof (rule go_left.IH, rule ballI)
    fix f assume "f \<in> set (push_side ns (sn_id n) False @ (n, 1) # st)"
    then consider "f \<in> set (push_side ns (sn_id n) False)" | "f \<in> set st" | "f = (n, 1)" by auto
    then show "attached ns (fst f)"
      by cases (use go_left.prems n attached_frames [OF n] in simp_all)
  qed
next
  case (go_right n st out stage)
  have n: "attached ns n" using go_right.prems by simp
  show ?case
  proof (rule go_right.IH, rule ballI)
    fix f assume "f \<in> set (push_side ns (sn_id n) True @ st)"
    then consider "f \<in> set (push_side ns (sn_id n) True)" | "f \<in> set st" by auto
    then show "attached ns (fst f)"
      by cases (use go_right.prems n attached_frames [OF n] in simp_all)
  qed
qed auto

lemma in_children: "n \<in> set ns \<Longrightarrow> n \<in> set (children_of ns (sn_parent n) (sn_side n \<noteq> kSideLeft))"
  by (simp add: set_children_of)

lemma order_spec:
  assumes "ids_ok ns"
  shows "\<exists>out. order_nodes ns = Some out \<and> distinct (map sn_id out) \<and> set out = {n. attached ns n}"
proof -
  obtain out where o: "order_nodes ns = Some out" using order_total [OF assms] by blast
  then have t: "traverses ns (roots ns) out" using order_nodes_iff [OF assms] by simp
  have "stack_ok ns (roots ns) (set ns - set (children_of ns [] False @ children_of ns [] True))"
    unfolding roots_def by (rule conjunct1 [OF start_ok [OF assms]])
  then have "distinct (map sn_id out)" using visits_once [OF t] assms by (simp add: ids_ok_def)
  moreover have "\<forall>n \<in> set out. attached ns n"
    by (rule visits_attached [OF t]) (auto simp: roots_def set_push_side set_children_of intro: at_root)
  moreover have "n \<in> set out" if "attached ns n" for n
    using that
  proof induction
    case (at_root n)
    then have "(n, 0) \<in> set (roots ns)"
      using in_children [of n ns] by (cases "sn_side n = kSideLeft") (auto simp: roots_def set_push_side)
    then show ?case using visits_all [OF t] by fastforce
  next
    case (below m n)
    have "(m, 1) \<notin> set (roots ns)" by (auto simp: roots_def set_push_side)
    then have "set (children_of ns (sn_id m) r) \<subseteq> set out" for r
      using visits_all [OF t] below.IH by (cases r) auto
    then show ?case using in_children below by (metis subsetD)
  qed
  ultimately show ?thesis using o by blast
qed

section \<open>A new leaf\<close>

text \<open>\<^term>\<open>ns'\<close> is \<^term>\<open>ns\<close> with the leaf \<^term>\<open>x\<close>, which is the only child on its side of its parent.\<close>

definition new_leaf :: "seq_node list \<Rightarrow> seq_node \<Rightarrow> seq_node list \<Rightarrow> bool" where
  "new_leaf ns x ns' \<longleftrightarrow> distinct (map sn_id ns) \<and> distinct (map sn_id ns') \<and> set ns' = insert x (set ns) \<and> x \<notin> set ns \<and>
     (\<forall>n \<in> set ns. sn_parent n \<noteq> sn_id x) \<and> sn_parent x \<noteq> sn_id x \<and>
     children_of ns (sn_parent x) (sn_side x \<noteq> kSideLeft) = []"

lemma children_of_cong:
  assumes "distinct (map sn_id ns)" "distinct (map sn_id ns')"
    and "{n \<in> set ns. sn_parent n = p \<and> (sn_side n \<noteq> kSideLeft) = r} = {n \<in> set ns'. sn_parent n = p \<and> (sn_side n \<noteq> kSideLeft) = r}"
  shows "children_of ns p r = children_of ns' p r"
proof (rule map_sorted_distinct_set_unique)
  have inj: "inj_on sn_id (set ns)" using assms(1) by (simp add: distinct_map)
  show "inj_on sn_id (set (children_of ns p r) \<union> set (children_of ns' p r))"
    by (rule inj_on_subset [OF inj]) (use assms(3) in \<open>auto simp: set_children_of\<close>)
  have d: "distinct (map sn_id (children_of zs p r))" if "distinct (map sn_id zs)" for zs
  proof -
    have "inj_on sn_id (set zs)" "distinct zs" using that by (simp_all add: distinct_map)
    then show ?thesis by (auto simp: distinct_map distinct_children_of set_children_of intro: inj_on_subset)
  qed
  show "distinct (map sn_id (children_of ns p r))" "distinct (map sn_id (children_of ns' p r))"
    using d assms by blast+
  show "set (children_of ns p r) = set (children_of ns' p r)" using assms(3) by (simp add: set_children_of)
qed (simp_all add: children_of_def)

lemma new_leaf_children:
  assumes "new_leaf ns x ns'"
  shows "children_of ns' p r = (if p = sn_parent x \<and> r = (sn_side x \<noteq> kSideLeft) then [x] else children_of ns p r)"
proof (cases "p = sn_parent x \<and> r = (sn_side x \<noteq> kSideLeft)")
  case True
  have "{n \<in> set ns. sn_parent n = p \<and> (sn_side n \<noteq> kSideLeft) = r} = {}"
    using assms True set_children_of [of ns p r] by (auto simp: new_leaf_def)
  then have s: "set (children_of ns' p r) = {x}" using assms True by (auto simp: set_children_of new_leaf_def)
  have "distinct (children_of ns' p r)" using assms by (intro distinct_children_of) (simp add: new_leaf_def distinct_map)
  then have "length (children_of ns' p r) = 1" using s by (metis card.empty card_1_singleton_iff distinct_card One_nat_def)
  then show ?thesis using s True by (cases "children_of ns' p r") auto
next
  case False
  have "children_of ns' p r = children_of ns p r"
    by (rule children_of_cong) (use assms False in \<open>auto simp: new_leaf_def\<close>)
  then show ?thesis using False by (simp only: if_False)
qed

lemma new_leaf_push:
  assumes "new_leaf ns x ns'"
  shows "push_side ns' p r = (if p = sn_parent x \<and> r = (sn_side x \<noteq> kSideLeft) then [(x, 0)] else push_side ns p r)"
    and "push_side ns' (sn_id x) r = []"
    and "push_side ns (sn_parent x) (sn_side x \<noteq> kSideLeft) = []"
proof -
  have "set (children_of ns (sn_id x) r) = {}" using assms by (auto simp: set_children_of new_leaf_def)
  then have c: "children_of ns (sn_id x) r = []" by simp
  show "push_side ns' p r = (if p = sn_parent x \<and> r = (sn_side x \<noteq> kSideLeft) then [(x, 0)] else push_side ns p r)"
    using new_leaf_children [OF assms] by (simp add: push_side_def)
  show "push_side ns' (sn_id x) r = []"
    using assms c new_leaf_children [OF assms] by (auto simp add: push_side_def new_leaf_def)
  show "push_side ns (sn_parent x) (sn_side x \<noteq> kSideLeft) = []"
    using assms by (simp add: push_side_def new_leaf_def)
qed

lemma visit_leaf:
  assumes "new_leaf ns x ns'" "traverses ns' st out"
  shows "traverses ns' ((x, 0) # st) (x # out)"
proof -
  have "traverses ns' ((x, 2) # st) out" using assms new_leaf_push(2) [OF assms(1)] by (intro go_right) simp_all
  then have "traverses ns' ((x, 1) # st) (x # out)" by (rule visit)
  then show ?thesis using new_leaf_push(2) [OF assms(1)] by (intro go_left) simp
qed

text \<open>A left leaf comes just before its parent: the frame of a parent waiting to be visited
  carries it.\<close>

definition left_frame :: "seq_node \<Rightarrow> frame \<Rightarrow> frame list" where
  "left_frame x f = (if sn_id (fst f) = sn_parent x \<and> snd f = 1 then [(x, 0), f] else [f])"

definition before_parent :: "seq_node \<Rightarrow> seq_node \<Rightarrow> seq_node list" where
  "before_parent x n = (if sn_id n = sn_parent x then [x, n] else [n])"

lemma left_frame_push [simp]: "concat (map (left_frame x) (push_side ns p r)) = push_side ns p r"
  by (auto simp: push_side_def left_frame_def o_def)

lemma left_frame_simps [simp]: "left_frame x (n, 0) = [(n, 0)]" "2 \<le> s \<Longrightarrow> left_frame x (n, s) = [(n, s)]"
  "left_frame x (n, Suc 0) = (if sn_id n = sn_parent x then [(x, 0), (n, Suc 0)] else [(n, Suc 0)])"
  by (simp_all add: left_frame_def)

lemma traverses_left_leaf:
  assumes leaf: "new_leaf ns x ns'" and left: "sn_side x = kSideLeft"
  shows "traverses ns st out \<Longrightarrow> traverses ns' (concat (map (left_frame x) st)) (concat (map (before_parent x) out))"
proof (induction rule: traverses.induct)
  case (go_left n st out)
  have "push_side ns (sn_id n) False = []" "push_side ns' (sn_id n) False = [(x, 0)]" if "sn_id n = sn_parent x"
    using new_leaf_push [OF leaf] left that by simp_all
  moreover have "push_side ns' (sn_id n) False = push_side ns (sn_id n) False" if "sn_id n \<noteq> sn_parent x"
    using new_leaf_push [OF leaf] that by simp
  ultimately show ?case using go_left.IH by (cases "sn_id n = sn_parent x") (auto intro: traverses.go_left)
next
  case (visit n st out)
  have "traverses ns' ((n, 1) # concat (map (left_frame x) st)) (n # concat (map (before_parent x) out))"
    using visit.IH by (intro traverses.visit) simp
  then show ?case using visit_leaf [OF leaf] by (simp add: before_parent_def [of x n])
next
  case (go_right n st out stage)
  then show ?case using new_leaf_push(1) [OF leaf] left by (auto intro: traverses.go_right)
qed (auto intro: all_done)

text \<open>A right leaf comes just after its parent: the frame of a visited parent has nothing left.\<close>

definition right_frame :: "seq_node \<Rightarrow> frame \<Rightarrow> frame list" where
  "right_frame x f = (if sn_id (fst f) = sn_parent x \<and> 2 \<le> snd f then [] else [f])"

definition after_parent :: "seq_node \<Rightarrow> seq_node \<Rightarrow> seq_node list" where
  "after_parent x n = (if sn_id n = sn_parent x then [n, x] else [n])"

lemma right_frame_push [simp]: "concat (map (right_frame x) (push_side ns p r)) = push_side ns p r"
  by (auto simp: push_side_def right_frame_def o_def)

lemma right_frame_simps [simp]: "right_frame x (n, 0) = [(n, 0)]" "right_frame x (n, Suc 0) = [(n, Suc 0)]"
  "2 \<le> s \<Longrightarrow> right_frame x (n, s) = (if sn_id n = sn_parent x then [] else [(n, s)])"
  by (simp_all add: right_frame_def)

lemma traverses_right_leaf:
  assumes leaf: "new_leaf ns x ns'" and right: "sn_side x \<noteq> kSideLeft"
  shows "traverses ns st out \<Longrightarrow> traverses ns' (concat (map (right_frame x) st)) (concat (map (after_parent x) out))"
proof (induction rule: traverses.induct)
  case (go_left n st out)
  have "push_side ns' (sn_id n) False = push_side ns (sn_id n) False"
    using new_leaf_push(1) [OF leaf] right by simp
  then have "traverses ns' (push_side ns' (sn_id n) False @ (n, 1) # concat (map (right_frame x) st)) (concat (map (after_parent x) out))"
    using go_left.IH by simp
  then show ?case by (simp add: traverses.go_left)
next
  case (visit n st out)
  let ?st = "concat (map (right_frame x) st)" and ?out = "concat (map (after_parent x) out)"
  have "traverses ns' ((n, 2) # ?st) (if sn_id n = sn_parent x then x # ?out else ?out)"
  proof (cases "sn_id n = sn_parent x")
    case True
    then have "traverses ns' ?st ?out" using visit.IH by simp
    then have "traverses ns' (push_side ns' (sn_id n) True @ ?st) (x # ?out)"
      using visit_leaf [OF leaf] new_leaf_push(1) [OF leaf] True right by simp
    then show ?thesis using True by (auto intro: traverses.go_right)
  next
    case False
    then show ?thesis using visit.IH by simp
  qed
  then show ?case by (auto simp: after_parent_def [of x n] intro: visit_1)
next
  case (go_right n st out stage)
  show ?case
  proof (cases "sn_id n = sn_parent x")
    case True
    then have "push_side ns (sn_id n) True = []" using new_leaf_push(3) [OF leaf] right by simp
    then show ?thesis using go_right True by simp
  next
    case False
    then show ?thesis using go_right new_leaf_push(1) [OF leaf] by (auto intro: traverses.go_right)
  qed
qed (auto intro: all_done)

section \<open>Where a leaf lands in the order\<close>

lemma traversal:
  assumes "ids_ok ns" "order_nodes ns = Some out"
  shows "traverses ns (roots ns) out" "distinct (map sn_id out)" "set out \<subseteq> set ns" "set out = {n. attached ns n}"
    "n \<in> set out \<Longrightarrow> set (children_of ns (sn_id n) r) \<subseteq> set out"
proof -
  show t: "traverses ns (roots ns) out" using assms order_nodes_iff by blast
  show "distinct (map sn_id out)" and o: "set out = {n. attached ns n}" using order_spec [OF assms(1)] assms(2) by auto
  show "set out \<subseteq> set ns" unfolding o by (auto elim: attached.cases)
  have "(n, 1) \<notin> set (roots ns)" for n by (auto simp: roots_def set_push_side)
  then show "n \<in> set out \<Longrightarrow> set (children_of ns (sn_id n) r) \<subseteq> set out"
    using visits_all [OF t] by (cases r) auto
qed

lemma concat_map_single: "\<forall>y \<in> set xs. f y = [y] \<Longrightarrow> concat (map f xs) = xs"
  by (induction xs) auto

lemma roots_frames:
  "(\<And>n. f (n, 0::nat) = [(n, 0)]) \<Longrightarrow> concat (map f (roots ns)) = roots ns"
  by (rule concat_map_single) (auto simp: roots_def set_push_side)

lemma order_leaf:
  assumes ok: "ids_ok ns" "ids_ok ns'" and leaf: "new_leaf ns x ns'"
    and o: "order_nodes ns = Some (pre @ n # post)" and n: "sn_id n = sn_parent x"
  shows "order_nodes ns' = Some (if sn_side x = kSideLeft then pre @ x # n # post else pre @ n # x # post)"
proof -
  note tr = traversal [OF ok(1) o]
  have "sn_parent x \<noteq> []" using ok(1) tr(3) n by (force simp: ids_ok_def)
  then have r: "roots ns' = roots ns" using new_leaf_push(1) [OF leaf] by (simp add: roots_def)
  have others: "\<forall>m \<in> set pre \<union> set post. sn_id m \<noteq> sn_parent x" using tr(2) n by (force simp: image_iff)
  show ?thesis
  proof (cases "sn_side x = kSideLeft")
    case True
    have "concat (map (before_parent x) (pre @ n # post)) = pre @ x # n # post"
      using others n by (simp add: before_parent_def concat_map_single)
    then show ?thesis
      using traverses_left_leaf [OF leaf True tr(1)] True r order_nodes_iff [OF ok(2)] by (simp add: roots_frames)
  next
    case False
    have "concat (map (after_parent x) (pre @ n # post)) = pre @ n # x # post"
      using others n by (simp add: after_parent_def concat_map_single)
    then show ?thesis
      using traverses_right_leaf [OF leaf False tr(1)] False r order_nodes_iff [OF ok(2)] by (simp add: roots_frames)
  qed
qed

lemma order_first_leaf:
  assumes ok: "ids_ok ns" "ids_ok ns'" and leaf: "new_leaf ns x ns'" and o: "order_nodes ns = Some []"
    and x: "sn_parent x = []" "sn_side x \<noteq> kSideLeft"
  shows "order_nodes ns' = Some [x]"
proof -
  have "roots ns = []"
  proof (rule ccontr)
    assume "roots ns \<noteq> []"
    then obtain f where f: "f \<in> set (roots ns)" by (cases "roots ns") auto
    then obtain m where "f = (m, 0)" by (auto simp: roots_def set_push_side)
    then have "(m, 0) \<in> set (roots ns)" using f by simp
    then show False using visits_all [OF traversal(1) [OF ok(1) o]] by force
  qed
  then have "roots ns' = [(x, 0)]" using new_leaf_push [OF leaf] x by (simp add: roots_def)
  then show ?thesis using visit_leaf [OF leaf all_done] order_nodes_iff [OF ok(2)] by simp
qed

definition sides_ok :: "seq_node list \<Rightarrow> bool" where
  "sides_ok ns \<longleftrightarrow> (\<forall>n \<in> set ns. sn_side n = kSideLeft \<or> sn_side n = kSideRight)"

lemma has_right_child_iff:
  assumes "ids_ok ns" "order_nodes ns = Some out" "sides_ok ns" "l \<in> set out"
  shows "has_right_child out (sn_id l) \<longleftrightarrow> children_of ns (sn_id l) True \<noteq> []"
proof
  note tr = traversal [OF assms(1,2)]
  assume "has_right_child out (sn_id l)"
  then obtain c where "c \<in> set out" "sn_parent c = sn_id l" "sn_side c = kSideRight"
    by (auto simp: has_right_child_def list_ex_iff)
  then have "c \<in> set (children_of ns (sn_id l) True)"
    using tr(3) by (auto simp: set_children_of kSideLeft_def kSideRight_def)
  then show "children_of ns (sn_id l) True \<noteq> []" by auto
next
  note tr = traversal [OF assms(1,2)]
  assume "children_of ns (sn_id l) True \<noteq> []"
  then obtain c where c: "c \<in> set (children_of ns (sn_id l) True)" by (cases "children_of ns (sn_id l) True") auto
  then have "c \<in> set out" using tr(5) [OF assms(4)] by blast
  moreover have "sn_parent c = sn_id l \<and> sn_side c = kSideRight"
    using c assms(3) by (auto simp: set_children_of sides_ok_def)
  ultimately show "has_right_child out (sn_id l)" by (auto simp: has_right_child_def list_ex_iff)
qed

text \<open>The last of the nodes before the new one, with its position.\<close>

definition left_end :: "seq_node list \<Rightarrow> (seq_node \<times> nat) option" where
  "left_end pre = (if pre = [] then None else Some (last pre, length pre - 1))"

lemma attach_cases:
  assumes ok: "ids_ok ns" "sides_ok ns" and o: "order_nodes ns = Some (pre @ post)"
    and a: "attach (pre @ post) (left_end pre) = (p, s)"
  obtains (right) pre' l where "pre = pre' @ [l]" "p = sn_id l" "s = kSideRight" "children_of ns (sn_id l) True = []"
    | (left) r post' where "post = r # post'" "p = sn_id r" "s = kSideLeft" "children_of ns (sn_id r) False = []"
    | (first) "pre = []" "post = []" "p = []" "s = kSideRight"
proof -
  note tr = traversal [OF ok(1) o]
  note nb = conjunct1 [OF neighbours [OF tr(1)], rule_format]
  have hd_left: "children_of ns (sn_id (hd (pre @ post))) False = []" if "pre @ post \<noteq> []"
  proof -
    have "roots ns \<noteq> []"
    proof
      assume "roots ns = []"
      then have "pre @ post = []" using tr(1) by (auto elim: traverses.cases)
      then show False using that by simp
    qed
    then obtain m st where "roots ns = (m, 0) # st"
      by (cases "roots ns") (auto simp: roots_def push_side_def append_eq_Cons_conv)
    then show ?thesis using conjunct2 [OF neighbours [OF tr(1)]] by blast
  qed
  show thesis
  proof (cases pre rule: rev_cases)
    case Nil
    show thesis
    proof (cases post)
      case Nil
      then show thesis using a \<open>pre = []\<close> by (intro first) (auto simp: attach_def left_end_def)
    next
      case (Cons r post')
      then show thesis using a \<open>pre = []\<close> hd_left by (intro left) (auto simp: attach_def left_end_def)
    qed
  next
    case (snoc pre' l)
    have e: "left_end pre = Some (l, length pre')" by (simp add: snoc left_end_def)
    have hr: "has_right_child (pre @ post) (sn_id l) \<longleftrightarrow> children_of ns (sn_id l) True \<noteq> []"
      by (rule has_right_child_iff [OF ok(1) o ok(2)]) (simp add: snoc)
    show thesis
    proof (cases "children_of ns (sn_id l) True = []")
      case True
      then show thesis using a snoc e hr by (intro right) (auto simp: attach_def Let_def)
    next
      case False
      then have "post \<noteq> [] \<and> children_of ns (sn_id (hd post)) False = []"
        using nb [of pre' l post] by (simp add: snoc)
      then obtain r post' where "post = r # post'" "children_of ns (sn_id r) False = []" by (cases post) auto
      moreover have "(pre @ post) ! Suc (length pre') = r" using calculation by (simp add: snoc nth_append)
      ultimately show thesis using a snoc e hr False by (intro left) (auto simp: attach_def Let_def)
    qed
  qed
qed

lemma order_attach:
  assumes ok: "ids_ok ns" "ids_ok ns'" "sides_ok ns" and o: "order_nodes ns = Some (pre @ post)"
    and a: "attach (pre @ post) (left_end pre) = (sn_parent x, sn_side x)"
    and x: "set ns' = insert x (set ns)" "sn_id x \<notin> sn_id ` set ns" "\<forall>n \<in> set ns. sn_parent n \<noteq> sn_id x"
  shows "order_nodes ns' = Some (pre @ x # post) \<and> sides_ok ns'"
proof -
  note tr = traversal [OF ok(1) o]
  have leaf: "new_leaf ns x ns'" if "children_of ns (sn_parent x) (sn_side x \<noteq> kSideLeft) = []"
    "sn_parent x = [] \<or> sn_parent x \<in> sn_id ` set ns"
    using that ok x unfolding new_leaf_def ids_ok_def by auto
  show ?thesis
  proof (cases rule: attach_cases [OF ok(1,3) o a, case_names right left first])
    case (right pre' l)
    then have "sn_parent x \<in> sn_id ` set ns" using tr(3) by auto
    moreover have s: "sn_side x \<noteq> kSideLeft" using right(3) by (simp add: kSideLeft_def kSideRight_def)
    ultimately have "order_nodes ns' = Some (if sn_side x = kSideLeft then pre' @ x # l # post else pre' @ l # x # post)"
      using right o by (intro order_leaf [OF ok(1,2) leaf]) simp_all
    then show ?thesis using s right(1,3) ok(3) x(1) by (simp add: sides_ok_def)
  next
    case (left r post')
    then have "sn_parent x \<in> sn_id ` set ns" using tr(3) by auto
    then have "order_nodes ns' = Some (if sn_side x = kSideLeft then pre @ x # r # post' else pre @ r # x # post')"
      using left o by (intro order_leaf [OF ok(1,2) leaf]) simp_all
    then show ?thesis using left(1,3) ok(3) x(1) by (simp add: sides_ok_def)
  next
    case first
    have "children_of ns [] True = []"
    proof (rule ccontr)
      assume "children_of ns [] True \<noteq> []"
      then obtain c where "c \<in> set (children_of ns [] True)" by (cases "children_of ns [] True") auto
      then have "(c, 0) \<in> set (roots ns)" by (simp add: roots_def set_push_side)
      then show False using visits_all [OF tr(1)] first by force
    qed
    then have "order_nodes ns' = Some [x]"
      using first o by (intro order_first_leaf [OF ok(1,2) leaf]) (simp_all add: kSideLeft_def kSideRight_def)
    then show ?thesis using first ok(3) x(1) by (simp add: sides_ok_def)
  qed
qed

section \<open>The scan for a position\<close>

lemma scan_done: "scan_visible dead index i index left ns = (index, left)"
  by (induction ns arbitrary: i) auto

lemma scan_from:
  "visible < index \<Longrightarrow>
    (\<exists>pre l post. ns = pre @ l # post \<and> sn_id l \<notin> set dead \<and>
       visible + length (filter (\<lambda>n. sn_id n \<notin> set dead) (pre @ [l])) = index \<and>
       scan_visible dead index i visible left ns = (index, Some (l, i + length pre))) \<or>
    (visible + length (filter (\<lambda>n. sn_id n \<notin> set dead) ns) < index \<and>
       fst (scan_visible dead index i visible left ns) = visible + length (filter (\<lambda>n. sn_id n \<notin> set dead) ns))"
proof (induction ns arbitrary: i visible left)
  case (Cons n ns)
  show ?case
  proof (cases "sn_id n \<in> set dead")
    case True
    from Cons.IH [OF Cons.prems, of "Suc i" left] show ?thesis
    proof (elim disjE exE conjE)
      fix pre l post assume "ns = pre @ l # post" "sn_id l \<notin> set dead"
        "visible + length (filter (\<lambda>n. sn_id n \<notin> set dead) (pre @ [l])) = index"
        "scan_visible dead index (Suc i) visible left ns = (index, Some (l, Suc i + length pre))"
      then show ?thesis using True by (intro disjI1 exI [of _ "n # pre"] exI [of _ l] exI [of _ post]) simp
    qed (use True in simp)
  next
    case live: False
    have step: "scan_visible dead index i visible left (n # ns) = scan_visible dead index (Suc i) (Suc visible) (Some (n, i)) ns"
      using live Cons.prems by simp
    show ?thesis
    proof (cases "Suc visible < index")
      case True
      from Cons.IH [OF True, of "Suc i" "Some (n, i)"] show ?thesis
      proof (elim disjE exE conjE)
        fix pre l post assume "ns = pre @ l # post" "sn_id l \<notin> set dead"
          "Suc visible + length (filter (\<lambda>n. sn_id n \<notin> set dead) (pre @ [l])) = index"
          "scan_visible dead index (Suc i) (Suc visible) (Some (n, i)) ns = (index, Some (l, Suc i + length pre))"
        then show ?thesis using live step by (intro disjI1 exI [of _ "n # pre"] exI [of _ l] exI [of _ post]) simp
      qed (use live step in simp)
    next
      case False
      then have "Suc visible = index" using Cons.prems by simp
      then show ?thesis using live step scan_done [of dead index "Suc i" "Some (n, i)" ns]
        by (intro disjI1 exI [of _ "[]"] exI [of _ n] exI [of _ ns]) simp
    qed
  qed
qed simp

lemma scan_spec:
  fixes dead all index
  defines "vis \<equiv> filter (\<lambda>n. sn_id n \<notin> set dead)"
  assumes "scan_visible dead index 0 0 None all = (v, left)"
  shows "if index \<le> length (vis all)
    then v = index \<and> (\<exists>pre post. all = pre @ post \<and> left = left_end pre \<and> length (vis pre) = index)
    else v = length (vis all)"
proof (cases "index = 0")
  case True
  then have "v = 0 \<and> left = None" using assms(2) scan_done [of dead 0 0 None all] by simp
  then show ?thesis using True by (auto simp: left_end_def vis_def)
next
  case False
  then have "0 < index" by simp
  from scan_from [OF this, of all dead 0 None] show ?thesis
  proof (elim disjE exE conjE)
    fix pre l post assume a: "all = pre @ l # post" "sn_id l \<notin> set dead"
      "0 + length (filter (\<lambda>n. sn_id n \<notin> set dead) (pre @ [l])) = index"
      "scan_visible dead index 0 0 None all = (index, Some (l, 0 + length pre))"
    then have "v = index \<and> left = left_end (pre @ [l]) \<and> length (vis (pre @ [l])) = index"
      using assms(2) by (simp add: left_end_def vis_def)
    moreover have "all = (pre @ [l]) @ post" using a by simp
    moreover have "index \<le> length (vis all)" using a by (simp add: vis_def)
    ultimately show ?thesis
      by (simp only: if_True) (intro conjI exI [of _ "pre @ [l]"] exI [of _ post], simp_all)
  qed (use assms(2) in \<open>simp add: vis_def\<close>)
qed

lemma find_visible_spec:
  fixes dead ns index visible
  defines "vis \<equiv> filter (\<lambda>n. sn_id n \<notin> set dead) ns"
  assumes "visible \<le> index"
  shows "find_visible dead index visible ns =
    (if index - visible < length vis then Some (vis ! (index - visible)) else None)"
  using assms(2) unfolding vis_def
proof (induction dead index visible ns rule: find_visible.induct)
  case (2 dead index visible n ns)
  show ?case
  proof (cases "sn_id n \<in> set dead \<or> visible = index")
    case False
    then have "index - visible = Suc (index - Suc visible)" using "2.prems" by (simp add: Suc_diff_Suc)
    then show ?thesis using "2.IH"(2) "2.prems" False by simp
  qed (use 2 in auto)
qed simp

end
