(* ===== verification/Ordered.thy ===== *)
theory Ordered
  imports Fugue Codec
begin

text \<open>
  Ordered content in a document: the order of any document's nodes exists, an insertion puts its
  value at the index asked for, and an erasure removes the value at the index and nothing else.
\<close>

section \<open>The nodes of a document\<close>

definition nodes_of :: "orset \<Rightarrow> seq_node list" where
  "nodes_of s = List.map_filter (\<lambda>kv. decode_node (fst kv) (snd kv)) (live_adds s)"

lemma seq_nodes_alt: "seq_nodes seq = nodes_of (orset_from_json (get seq (ascii ''nodes'')))"
  by (simp add: seq_nodes_def nodes_of_def)

lemma decode_node_id: "decode_node i b = Some n \<Longrightarrow> sn_id n = i"
  by (auto simp: decode_node_def split: option.splits json.splits list.splits)

lemma set_nodes_of: "set (nodes_of s) = {n. \<exists>kv \<in> set (live_adds s). decode_node (fst kv) (snd kv) = Some n}"
  unfolding nodes_of_def by (rule set_filter_Some)

lemma nodes_of_ids: "set (map sn_id (nodes_of s)) \<subseteq> fst ` set (live_adds s)"
  by (auto simp: set_nodes_of dest: decode_node_id)

lemma from_json_no_empty_tag: "[] \<notin> fst ` set (adds (orset_from_json v))"
proof -
  have "[] \<notin> fst ` set m \<Longrightarrow> [] \<notin> fst ` set (foldl from_add m kvs)" for m kvs
    by (induction kvs arbitrary: m) (auto simp: from_add_def fst_set_om_put split: option.splits)
  then show ?thesis by (simp add: orset_from_json_def Let_def)
qed

lemma node_id_printable:
  assumes "tags_printable s" "n \<in> set (nodes_of s)"
  shows "sn_id n \<noteq> [] \<and> nul_free (sn_id n)"
proof -
  have "sn_id n \<in> fst ` set (live_adds s)" using nodes_of_ids [of s] assms(2) by auto
  then obtain kv where "kv \<in> set (adds s)" "sn_id n = fst kv" by (auto simp: live_adds_def)
  then show ?thesis using assms(1) by (simp add: tags_printable_def)
qed

lemma distinct_map_filter:
  assumes "distinct (map f xs)" "\<And>x y. g x = Some y \<Longrightarrow> h y = f x"
  shows "distinct (map h (List.map_filter g xs))"
  using assms(1)
proof (induction xs)
  case (Cons x xs)
  have "h ` set (List.map_filter g xs) \<subseteq> f ` set xs" using assms(2) by (force simp: List.map_filter_def)
  then show ?case using Cons assms(2) by (auto simp: List.map_filter_def split: option.splits)
qed (simp add: List.map_filter_def)

lemma nodes_of_ids_ok:
  assumes "orset_wf s" "[] \<notin> fst ` set (adds s)"
  shows "ids_ok (nodes_of s)"
proof -
  have "distinct (map fst (live_adds s))"
    using assms(1) by (simp add: live_adds_def orset_wf_def om_ok_distinct)
  then have "distinct (map sn_id (nodes_of s))"
    unfolding nodes_of_def by (rule distinct_map_filter) (rule decode_node_id)
  moreover have "[] \<notin> sn_id ` set (nodes_of s)"
    using nodes_of_ids [of s] assms(2) by (auto simp: live_adds_def)
  ultimately show ?thesis by (simp add: ids_ok_def)
qed

lemma seq_nodes_ids_ok: "ids_ok (seq_nodes seq)"
  by (simp add: seq_nodes_alt nodes_of_ids_ok from_json_no_empty_tag)

lemma seq_order_eq: "order_nodes (seq_nodes seq) = Some (seq_order seq)"
  using order_total [OF seq_nodes_ids_ok [of seq]] by (auto simp: seq_order_def)

text \<open>C28. The traversal of any document's sequence ends, whatever the nodes name as their parents:
  it visits every node attached to the root, directly or through others, exactly once.\<close>

theorem seq_order_spec:
  "order_nodes (seq_nodes seq) = Some (seq_order seq) \<and> distinct (map sn_id (seq_order seq)) \<and>
   set (seq_order seq) = {n. attached (seq_nodes seq) n}"
  using seq_order_eq [of seq] order_spec [OF seq_nodes_ids_ok [of seq]] by auto

section \<open>The bytes of a node\<close>

lemma decode_encode_node:
  assumes "encode_node p s v = Inr b" "nul_free p" "s = kSideLeft \<or> s = kSideRight" "length b < 2 ^ 64"
  shows "decode_node t b = Some \<lparr> sn_id = t, sn_parent = p, sn_side = s, sn_payload = v \<rparr>"
proof -
  define x where "x = dbl_of_int s"
  have small: "\<bar>s\<bar> < 2 ^ 53" using assms(3) by (auto simp: kSideLeft_def kSideRight_def)
  have t: "dbl_trunc (if folds_to_int x then dbl_of_int (dbl_trunc x) else x) = s"
    using dbl_of_int_exact(1) [OF small] by (simp add: x_def)
  have "decode b = Some (canon_json (JArray [mk_string p, mk_int s, mk_string (hexify v)]))"
    by (rule decode_encode) (use assms in \<open>auto simp: encode_node_def mk_string_def mk_int_def nul_free_hexify kMaxDepth_def\<close>)
  then show ?thesis
    using assms(2) t nul_free_hexify [of v]
    by (simp add: decode_node_def mk_string_def mk_int_def str_or_def unhexify_def x_def [symmetric] unhex_hexify)
qed

section \<open>The sequence after an edit\<close>

lemma holder_at_seq:
  "seq_holder (at_seq m r f g d) m r f = map_option g (seq_holder d m r f)"
  by (simp add: seq_holder_def at_seq_def rune_node_at_rune get_opt_at_member)

definition seq_visible :: "json option \<Rightarrow> seq_node list" where
  "seq_visible seq = filter (\<lambda>n. sn_id n \<notin> set (seq_dead seq)) (seq_order seq)"

definition payload_value :: "bytes \<Rightarrow> json" where
  "payload_value b = (case decode b of Some v \<Rightarrow> v | None \<Rightarrow> JNull)"

lemma seq_read_alt:
  "seq_read d m r f = map_option (\<lambda>seq. JArray (map (\<lambda>n. payload_value (sn_payload n)) (seq_visible (Some seq)))) (seq_holder d m r f)"
  by (cases "seq_holder d m r f") (simp_all add: seq_read_def seq_visible_def payload_value_def Let_def)

lemma nodes_dead_differ: "c_str (ascii ''nodes'') = ascii ''nodes''" "c_str (ascii ''dead'') = ascii ''dead''"
  "ascii ''nodes'' \<noteq> ascii ''dead''"
  by (simp_all add: nul_free_ascii)

lemma set_nodes_of_add:
  assumes "orset_wf s" "t \<notin> fst ` set (adds s)" "t \<notin> set (removes s)" "decode_node t b = Some x"
  shows "set (nodes_of (orset_add t b s)) = insert x (set (nodes_of s))"
proof -
  have "k \<notin> fst ` set m \<Longrightarrow> set (om_put k v m) = insert (k, v) (set m)" for k and v :: bytes and m
    by (induction k v m rule: om_put.induct) auto
  then have "set (om_put t b (adds s)) = insert (t, b) (set (adds s))" using assms(2) .
  then have "set (live_adds (orset_add t b s)) = insert (t, b) (set (live_adds s))"
    using assms(3) by (auto simp: live_adds_def orset_add_def)
  then show ?thesis using assms(4) by (auto simp: set_nodes_of)
qed

lemma visible_after_insert:
  assumes n: "nodes = orset_from_json (get (Some seq) (ascii ''nodes''))" "tags_printable nodes" "sides_ok (seq_nodes (Some seq))"
    and seq: "distinct_members (Some seq)"
    and t: "t \<noteq> []" "nul_free t" "t \<notin> fst ` set (adds nodes)" "t \<notin> set (removes nodes)"
      "t \<notin> set (seq_dead (Some seq))" "\<forall>n \<in> set (seq_nodes (Some seq)). sn_parent n \<noteq> t"
    and scan: "scan_visible (seq_dead (Some seq)) index 0 0 None (seq_order (Some seq)) = (v, left)"
      "index \<le> length (seq_visible (Some seq))"
    and a: "attach (seq_order (Some seq)) left = (p, s)"
    and b: "encode_node p s payload = Inr b" "length b < 2 ^ 64"
  defines "x \<equiv> \<lparr> sn_id = t, sn_parent = p, sn_side = s, sn_payload = payload \<rparr>"
  shows "v = index \<and> seq_visible (Some (put_orset (ascii ''nodes'') (orset_add t b nodes) seq)) =
    take index (seq_visible (Some seq)) @ x # drop index (seq_visible (Some seq))"
proof -
  let ?ns = "seq_nodes (Some seq)" and ?seq' = "put_orset (ascii ''nodes'') (orset_add t b nodes) seq"
  let ?vis = "filter (\<lambda>n. sn_id n \<notin> set (seq_dead (Some seq)))"
  have wf: "orset_wf nodes" by (simp add: n(1))
  have ok: "ids_ok ?ns" by (rule seq_nodes_ids_ok)
  from scan_spec [OF scan(1)] scan(2) obtain pre post where
    v: "v = index" and pp: "seq_order (Some seq) = pre @ post" "left = left_end pre" "length (?vis pre) = index"
    by (auto simp: seq_visible_def)
  have o: "order_nodes ?ns = Some (pre @ post)" using seq_order_eq [of "Some seq"] pp(1) by simp
  have att: "attach (pre @ post) (left_end pre) = (p, s)" using a pp by simp
  have p: "nul_free p \<and> (s = kSideLeft \<or> s = kSideRight)"
  proof -
    have keys: "nul_free (sn_id m)" if "m \<in> set (pre @ post)" for m
    proof -
      have "m \<in> set (nodes_of nodes)"
        using traversal(3) [OF ok o] that by (auto simp: seq_nodes_alt n(1))
      then show ?thesis using node_id_printable n(2) by blast
    qed
    show ?thesis
      by (cases rule: attach_cases [OF ok n(3) o att]) (use keys in auto)
  qed
  have dx: "decode_node t b = Some x" unfolding x_def by (rule decode_encode_node) (use b p in auto)
  have gn: "get (Some ?seq') (ascii ''nodes'') = Some (orset_to_json (orset_add t b nodes))"
    and gd: "get (Some ?seq') (ascii ''dead'') = get (Some seq) (ascii ''dead'')"
    using nodes_dead_differ by (simp_all add: get_put_orset_opt [OF seq] del: get_JObject)
  have ns': "seq_nodes (Some ?seq') = nodes_of (orset_add t b nodes)"
    unfolding seq_nodes_alt gn using n(2) wf t(1,2) by (simp add: from_to_json printable_add)
  have set': "set (seq_nodes (Some ?seq')) = insert x (set ?ns)"
    unfolding ns' using set_nodes_of_add [OF wf t(3,4) dx] by (simp add: seq_nodes_alt n(1) [symmetric])
  have "sn_id x \<notin> sn_id ` set ?ns"
    using t(3) nodes_of_ids [of nodes] by (auto simp: x_def seq_nodes_alt n(1) live_adds_def)
  then have "order_nodes (seq_nodes (Some ?seq')) = Some (pre @ x # post)"
    using order_attach [OF ok seq_nodes_ids_ok n(3) o, of x] att set' t(6) by (simp add: x_def)
  then have "seq_order (Some ?seq') = pre @ x # post" by (simp add: seq_order_def)
  moreover have "seq_dead (Some ?seq') = seq_dead (Some seq)" by (simp add: seq_dead_def gd)
  ultimately have "seq_visible (Some ?seq') = ?vis pre @ x # ?vis post"
    using t(5) by (simp add: seq_visible_def x_def)
  moreover have "take index (seq_visible (Some seq)) = ?vis pre" "drop index (seq_visible (Some seq)) = ?vis post"
    using pp by (auto simp: seq_visible_def)
  ultimately show ?thesis using v by simp
qed

text \<open>What an insertion asks of the sequence and of the fresh tag.\<close>

definition seq_ready :: "json \<Rightarrow> bytes \<Rightarrow> bool" where
  "seq_ready seq t \<longleftrightarrow>
     (let nodes = orset_from_json (get (Some seq) (ascii ''nodes''))
      in distinct_members (Some seq) \<and> tags_printable nodes \<and> sides_ok (seq_nodes (Some seq)) \<and>
         t \<noteq> [] \<and> nul_free t \<and> t \<notin> fst ` set (adds nodes) \<and> t \<notin> set (removes nodes) \<and>
         t \<notin> set (seq_dead (Some seq)) \<and> (\<forall>n \<in> set (seq_nodes (Some seq)). sn_parent n \<noteq> t))"

definition node_fits :: "json \<Rightarrow> bytes \<Rightarrow> bool" where
  "node_fits seq v \<longleftrightarrow>
     (\<forall>p \<in> insert [] (sn_id ` set (seq_nodes (Some seq))). \<forall>s \<in> {kSideLeft, kSideRight}.
        case encode_node p s v of Inl _ \<Rightarrow> False | Inr b \<Rightarrow> length b < 2 ^ 64)"

lemma attach_fits:
  assumes "scan_visible (seq_dead (Some seq)) index 0 0 None (seq_order (Some seq)) = (v, left)"
    "index \<le> length (seq_visible (Some seq))" "sides_ok (seq_nodes (Some seq))"
    and a: "attach (seq_order (Some seq)) left = (p, s)" and f: "node_fits seq val"
  obtains b where "encode_node p s val = Inr b" "length b < 2 ^ 64"
proof -
  have ok: "ids_ok (seq_nodes (Some seq))" by (rule seq_nodes_ids_ok)
  from scan_spec [OF assms(1)] assms(2) obtain pre post where
    pp: "seq_order (Some seq) = pre @ post" "left = left_end pre"
    by (auto simp: seq_visible_def)
  have o: "order_nodes (seq_nodes (Some seq)) = Some (pre @ post)" using seq_order_eq [of "Some seq"] pp(1) by simp
  have att: "attach (pre @ post) (left_end pre) = (p, s)" using a pp by simp
  have "p \<in> insert [] (sn_id ` set (seq_nodes (Some seq))) \<and> s \<in> {kSideLeft, kSideRight}"
    by (cases rule: attach_cases [OF ok assms(3) o att]) (use traversal(3) [OF ok o] in auto)
  then have "case encode_node p s val of Inl _ \<Rightarrow> False | Inr b \<Rightarrow> length b < 2 ^ 64"
    using f unfolding node_fits_def by blast
  then show thesis using that by (cases "encode_node p s val") auto
qed

text \<open>C27. An insertion shows the value at the index asked for, moves no other and
  touches no other rune.\<close>

theorem seq_insert_spec:
  assumes seq: "seq_holder d m r f = Some seq" and read: "seq_read d m r f = Some (JArray xs)"
    and i: "index \<le> length xs" and v: "encode_opt value = Inr v" and t: "nx mt = (t, mt')"
    and ready: "seq_ready seq t" "node_fits seq v"
  shows "\<exists>d'. seq_insert nx d m r f index value mt = Inr (True, d', mt') \<and>
    seq_read d' m r f = Some (JArray (take index xs @ payload_value v # drop index xs)) \<and>
    (\<forall>m2 r2. c_str m2 \<noteq> c_str m \<or> c_str r2 \<noteq> c_str r \<longrightarrow> rune_node d' m2 r2 = rune_node d m2 r2)"
proof -
  let ?nodes = "orset_from_json (get (Some seq) (ascii ''nodes''))"
  have xs: "xs = map (\<lambda>n. payload_value (sn_payload n)) (seq_visible (Some seq))"
    using read by (simp add: seq_read_alt seq)
  obtain vis left where scan: "scan_visible (seq_dead (Some seq)) index 0 0 None (seq_order (Some seq)) = (vis, left)"
    by fastforce
  obtain p s where a: "attach (seq_order (Some seq)) left = (p, s)" by fastforce
  have i': "index \<le> length (seq_visible (Some seq))" using i xs by simp
  obtain b where b: "encode_node p s v = Inr b" "length b < 2 ^ 64"
    using attach_fits [OF scan i' _ a ready(2)] ready(1) by (auto simp: seq_ready_def Let_def)
  define d' where "d' = at_seq m r f (put_orset (ascii ''nodes'') (orset_add t b ?nodes)) d"
  have vis: "vis = index \<and> seq_visible (Some (put_orset (ascii ''nodes'') (orset_add t b ?nodes) seq)) =
    take index (seq_visible (Some seq)) @ \<lparr> sn_id = t, sn_parent = p, sn_side = s, sn_payload = v \<rparr> # drop index (seq_visible (Some seq))"
    by (rule visible_after_insert [OF refl _ _ _ _ _ _ _ _ _ scan i' a b]) (use ready(1) in \<open>simp_all add: seq_ready_def Let_def\<close>)
  have "seq_insert nx d m r f index value mt = Inr (True, d', mt')"
    using vis by (simp add: seq_insert_def seq Let_def scan a v b(1) cbind_def t d'_def)
  moreover have "seq_read d' m r f = Some (JArray (take index xs @ payload_value v # drop index xs))"
    using vis by (simp add: seq_read_alt d'_def holder_at_seq seq xs take_map drop_map)
  moreover have "rune_node d' m2 r2 = rune_node d m2 r2" if "c_str m2 \<noteq> c_str m \<or> c_str r2 \<noteq> c_str r" for m2 r2
    using that by (auto simp: d'_def at_seq_def rune_node_at_rune)
  ultimately show ?thesis by blast
qed

text \<open>An insertion beyond the end is refused and changes nothing.\<close>

theorem seq_insert_out_of_range:
  assumes "seq_read d m r f = Some (JArray xs)" "length xs < index"
  shows "seq_insert nx d m r f index value mt = Inr (False, d, mt)"
proof -
  obtain seq where seq: "seq_holder d m r f = Some seq" using assms(1) by (auto simp: seq_read_alt)
  then have xs: "length xs = length (seq_visible (Some seq))" using assms(1) by (auto simp: seq_read_alt)
  obtain vis left where scan: "scan_visible (seq_dead (Some seq)) index 0 0 None (seq_order (Some seq)) = (vis, left)"
    by fastforce
  then have "vis < index" using scan_spec [OF scan] assms(2) xs by (simp add: seq_visible_def)
  then show ?thesis by (simp add: seq_insert_def seq Let_def scan)
qed

lemma filter_out_nth:
  assumes "distinct (map f xs)" "i < length xs"
  shows "filter (\<lambda>x. f x \<noteq> f (xs ! i)) xs = take i xs @ drop (Suc i) xs"
proof -
  have xs: "xs = take i xs @ xs ! i # drop (Suc i) xs" using assms(2) by (rule id_take_nth_drop)
  then have "distinct (map f (take i xs @ xs ! i # drop (Suc i) xs))" using assms(1) by simp
  then have "\<forall>x \<in> set (take i xs) \<union> set (drop (Suc i) xs). f x \<noteq> f (xs ! i)" by (auto simp: image_iff)
  then have "filter (\<lambda>x. f x \<noteq> f (xs ! i)) (take i xs @ xs ! i # drop (Suc i) xs) = take i xs @ drop (Suc i) xs"
    by (simp add: filter_id_conv)
  then show ?thesis using xs by simp
qed

text \<open>An erasure removes exactly the visible value at the index, and out of range
  changes nothing.\<close>

theorem seq_erase_spec:
  assumes seq: "seq_holder d m r f = Some seq" and read: "seq_read d m r f = Some (JArray xs)"
    and ok: "distinct_members (Some seq)" "tags_printable (orset_from_json (get (Some seq) (ascii ''nodes'')))"
      "tags_printable (orset_from_json (get (Some seq) (ascii ''dead'')))"
      "removes (orset_from_json (get (Some seq) (ascii ''dead''))) = []"
  shows "if index < length xs
    then \<exists>d'. seq_erase d m r f index = (True, d') \<and> seq_read d' m r f = Some (JArray (take index xs @ drop (Suc index) xs))
    else seq_erase d m r f index = (False, d)"
proof -
  let ?vis = "seq_visible (Some seq)" and ?ds = "orset_from_json (get (Some seq) (ascii ''dead''))"
  have xs: "xs = map (\<lambda>n. payload_value (sn_payload n)) ?vis" using read by (simp add: seq_read_alt seq)
  have find: "find_visible (seq_dead (Some seq)) index 0 (seq_order (Some seq)) =
      (if index < length ?vis then Some (?vis ! index) else None)"
    using find_visible_spec [of 0 index] by (simp add: seq_visible_def)
  show ?thesis
  proof (cases "index < length xs")
    case True
    define n where "n = ?vis ! index"
    have n: "n \<in> set ?vis" using True xs by (simp add: n_def)
    define d' where "d' = at_seq m r f (put_orset (ascii ''dead'') (orset_add (sn_id n) (ascii ''1'') ?ds)) d"
    let ?seq' = "put_orset (ascii ''dead'') (orset_add (sn_id n) (ascii ''1'') ?ds) seq"
    have id: "sn_id n \<noteq> []" "nul_free (sn_id n)"
    proof -
      have "n \<in> set (seq_nodes (Some seq))"
        using n traversal(3) [OF seq_nodes_ids_ok seq_order_eq] by (auto simp: seq_visible_def)
      then show "sn_id n \<noteq> []" "nul_free (sn_id n)"
        using node_id_printable [OF ok(2)] by (simp_all add: seq_nodes_alt)
    qed
    have gn: "get (Some ?seq') (ascii ''nodes'') = get (Some seq) (ascii ''nodes'')"
      and gd: "get (Some ?seq') (ascii ''dead'') = Some (orset_to_json (orset_add (sn_id n) (ascii ''1'') ?ds))"
      using nodes_dead_differ by (simp_all add: get_put_orset_opt [OF ok(1)] del: get_JObject)
    have "set (map fst (live_adds (orset_add (sn_id n) (ascii ''1'') ?ds))) = insert (sn_id n) (set (map fst (live_adds ?ds)))"
      using ok(4) by (simp add: live_adds_def orset_add_def fst_set_om_put)
    then have dead: "set (seq_dead (Some ?seq')) = insert (sn_id n) (set (seq_dead (Some seq)))"
      using ok(3) id by (simp add: seq_dead_def gd from_to_json printable_add)
    have order: "seq_order (Some ?seq') = seq_order (Some seq)" by (simp add: seq_order_def seq_nodes_def gn)
    have "seq_visible (Some ?seq') = filter (\<lambda>x. sn_id x \<noteq> sn_id (?vis ! index)) ?vis"
      by (simp add: seq_visible_def order dead n_def [symmetric, unfolded seq_visible_def]) (rule filter_cong, auto)
    also have "\<dots> = take index ?vis @ drop (Suc index) ?vis"
      using True xs traversal(2) [OF seq_nodes_ids_ok seq_order_eq]
      by (intro filter_out_nth) (auto simp: seq_visible_def distinct_map inj_on_def)
    finally have "seq_read d' m r f = Some (JArray (take index xs @ drop (Suc index) xs))"
      by (simp add: seq_read_alt d'_def holder_at_seq seq xs take_map drop_map)
    moreover have "seq_erase d m r f index = (True, d')"
      using True xs find by (simp add: seq_erase_def seq Let_def n_def d'_def)
    ultimately show ?thesis using True by auto
  next
    case False
    then show ?thesis using find xs by (simp add: seq_erase_def seq Let_def)
  qed
qed

section \<open>At concrete inputs\<close>

lemma encode_mk_int: "\<bar>n\<bar> < 2 ^ 53 \<Longrightarrow> encode (mk_int n) = Inr (encode_int (word_of_int n))"
  using dbl_of_int_exact [of n] by (simp add: mk_int_def encode_number_def folds_to_int_def)

definition node_bytes :: "bytes \<Rightarrow> int \<Rightarrow> bytes \<Rightarrow> bytes" where
  "node_bytes p s v =
     kSeq # put_size 3 @ str_bytes p @ encode_int (word_of_int s) @ str_bytes (hexify v)"

lemma encode_node_bytes:
  assumes "valid_utf8 p" "nul_free p" "s = kSideLeft \<or> s = kSideRight" "valid_utf8 (hexify v)"
  shows "encode_node p s v = Inr (node_bytes p s v)"
proof -
  have "encode (mk_int s) = Inr (encode_int (word_of_int s))"
    by (rule encode_mk_int) (use assms(3) in \<open>auto simp: kSideLeft_def kSideRight_def\<close>)
  then show ?thesis
    using assms by (simp add: encode_node_def node_bytes_def mk_string_def nul_free_hexify encode_str_def encode_seq_def numeral_3_eq_3)
qed

text \<open>A document with one rune, whose field holds the sequence of one value.\<close>

definition one_node :: seq_node where
  "one_node = \<lparr> sn_id = [7], sn_parent = [], sn_side = kSideRight, sn_payload = [2] \<rparr>"

definition one_seq :: json where
  "one_seq = JObject [(ascii ''nodes'', orset_to_json (orset_add [7] (node_bytes [] kSideRight [2]) orset_new)),
     (ascii ''dead'', orset_to_json orset_new)]"

definition seq_doc :: json where
  "seq_doc = JObject [(ascii ''mantles'', JObject [([1], JObject [(ascii ''runes'', JObject [([2], JObject
     [(ascii ''fields'', JObject [([3], JObject [(ascii ''seq'', one_seq)])])])])])])]"

lemma seq_doc_holder: "seq_holder (Some seq_doc) [1] [2] [3] = Some one_seq"
  by (simp add: seq_holder_def seq_doc_def rune_node_def)

lemma one_node_decodes: "decode_node [7] (node_bytes [] kSideRight [2]) = Some one_node"
proof -
  have "valid_utf8 []" "valid_utf8 (hexify [2])" by code_simp+
  then have "encode_node [] kSideRight [2] = Inr (node_bytes [] kSideRight [2])"
    by (intro encode_node_bytes) simp_all
  moreover have "length (node_bytes [] kSideRight [2]) < 2 ^ 64"
  proof -
    have "length (node_bytes [] kSideRight [2]) = 10" by code_simp
    then show ?thesis by simp
  qed
  ultimately show ?thesis unfolding one_node_def by (intro decode_encode_node) simp_all
qed

lemma one_seq_sets:
  "orset_from_json (get (Some one_seq) (ascii ''nodes'')) = orset_add [7] (node_bytes [] kSideRight [2]) orset_new"
  "orset_from_json (get (Some one_seq) (ascii ''dead'')) = orset_new"
  using orset_from_to_json [of "orset_add [7] (node_bytes [] kSideRight [2]) orset_new"] orset_from_to_json [of orset_new]
  by (simp_all add: one_seq_def tags_printable_def orset_add_def orset_new_def orset_wf_def)

lemma one_seq_nodes: "seq_nodes (Some one_seq) = [one_node]"
  by (simp add: seq_nodes_alt one_seq_sets nodes_of_def live_adds_def orset_add_def orset_new_def List.map_filter_def one_node_decodes)

lemma one_seq_dead: "seq_dead (Some one_seq) = []"
  by (simp add: seq_dead_def one_seq_sets live_adds_def orset_new_def os_of_def)

lemma one_seq_read: "seq_read (Some seq_doc) [1] [2] [3] = Some (JArray [JTrue])"
proof -
  have "children_of [one_node] p r = (if p = [] \<and> r then [one_node] else [])" for p r
    by (simp add: children_of_def one_node_def kSideLeft_def kSideRight_def)
  then have "seq_order (Some one_seq) = [one_node]"
    by (simp add: seq_order_def one_seq_nodes order_nodes_def push_side_def numeral_3_eq_3 one_node_def)
  moreover have "payload_value [2] = JTrue" by code_simp
  ultimately show ?thesis by (simp add: seq_read_alt seq_doc_holder seq_visible_def one_seq_dead one_node_def)
qed

theorem seq_insert_spec_witness:
  "\<exists>d'. seq_insert counter_mint_next (Some seq_doc) [1] [2] [3] 1 (Some JFalse) \<lparr> cm_prefix = [0x61], cm_n = 0 \<rparr> =
      Inr (True, d', \<lparr> cm_prefix = [0x61], cm_n = 1 \<rparr>) \<and>
    seq_read d' [1] [2] [3] = Some (JArray [JTrue, JFalse])"
proof -
  have t: "counter_mint_next \<lparr> cm_prefix = [0x61], cm_n = 0 \<rparr> = (ascii ''a_0001'', \<lparr> cm_prefix = [0x61], cm_n = 1 \<rparr>)"
    by (simp add: counter_mint_next_def to_string.simps pad4_def ascii_def numeral_3_eq_3)
  have e: "encode_opt (Some JFalse) = Inr [1]" "payload_value [1] = JFalse" by code_simp+
  have ready: "seq_ready one_seq (ascii ''a_0001'')"
    unfolding seq_ready_def Let_def one_seq_sets one_seq_nodes one_seq_dead
    by (simp add: one_seq_def distinct_members_def tags_printable_def orset_add_def orset_new_def sides_ok_def one_node_def
        nul_free_ascii) (simp add: ascii_def)
  have "valid_utf8 []" "valid_utf8 [7]" "valid_utf8 (hexify [1])" by code_simp+
  moreover have "length (node_bytes [] kSideLeft [1]) = 10" "length (node_bytes [] kSideRight [1]) = 10"
    "length (node_bytes [7] kSideLeft [1]) = 11" "length (node_bytes [7] kSideRight [1]) = 11" by code_simp+
  ultimately have fits: "node_fits one_seq [1]"
    unfolding node_fits_def one_seq_nodes
    by (simp add: encode_node_bytes one_node_def)
  show ?thesis
    using seq_insert_spec [where nx = counter_mint_next and index = 1, OF seq_doc_holder one_seq_read _ e(1) t ready fits] e(2)
    by auto
qed

theorem seq_insert_out_of_range_witness:
  "seq_insert counter_mint_next (Some seq_doc) [1] [2] [3] 2 (Some JFalse) \<lparr> cm_prefix = [0x61], cm_n = 0 \<rparr> =
    Inr (False, Some seq_doc, \<lparr> cm_prefix = [0x61], cm_n = 0 \<rparr>)"
  using seq_insert_out_of_range [OF one_seq_read, of 2] by simp

theorem seq_erase_spec_witness:
  "\<exists>d'. seq_erase (Some seq_doc) [1] [2] [3] 0 = (True, d') \<and> seq_read d' [1] [2] [3] = Some (JArray [])"
  using seq_erase_spec [OF seq_doc_holder one_seq_read, of 0]
  by (simp add: one_seq_sets) (simp add: one_seq_def distinct_members_def tags_printable_def orset_add_def orset_new_def)

end
