(* ===== verification/Utterance.thy ===== *)
theory Utterance
  imports Codec OrSet
begin

text \<open>
  Void Core's journal (\<^verbatim>\<open>src/utterance/journal.cpp\<close>) and the utterances made of it
  (\<^verbatim>\<open>src/utterance/utterance.cpp\<close>): the strict parser of an export, the content address, the
  JSON form that is verified on the way in, and the filter of \<^verbatim>\<open>ingest\<close>. The
  \<^verbatim>\<open>std::string* error\<close> of a parser is the \<open>Inl\<close> of its result. A conversion from a double to
  \<^verbatim>\<open>int64_t\<close> is the integer part (it is undefined in C++ outside the range).
\<close>

type_synonym 'a parsed = "bytes + 'a"

record journal_entry =
  j_seq :: int
  j_command :: bytes
  j_verb :: bytes
  j_who :: "bytes option"
  j_pure :: bool
  j_slice :: bytes
  j_minted :: "bytes list"

section \<open>The journal\<close>

fun is_JBool :: "json option \<Rightarrow> bool" where
  "is_JBool (Some JTrue) = True"
| "is_JBool (Some JFalse) = True"
| "is_JBool _ = False"

definition quote_bytes :: "bytes \<Rightarrow> bytes" where
  "quote_bytes s = 0x27 # s @ [0x27]"

definition quoted :: "string \<Rightarrow> bytes" where
  "quoted s = quote_bytes (ascii s)"

text \<open>A loop that collects strings and refuses anything else.\<close>

fun strings_of :: "json list \<Rightarrow> bytes list option" where
  "strings_of [] = Some []"
| "strings_of (j # js) =
     (case as_string (Some j) of None \<Rightarrow> None
      | Some s \<Rightarrow> (case strings_of js of None \<Rightarrow> None | Some ss \<Rightarrow> Some (s # ss)))"

definition entry_at :: "nat \<Rightarrow> bytes" where
  "entry_at index = ascii ''entry '' @ to_string index @ ascii '': ''"

definition journal_who :: "json option \<Rightarrow> bytes option parsed" where
  "journal_who who =
     (case who of None \<Rightarrow> Inl (ascii ''no '' @ quoted ''who'' @ ascii '' (null is required, not absence)'')
      | Some w \<Rightarrow>
          (case as_string who of Some s \<Rightarrow> Inr (Some s)
           | None \<Rightarrow> if is_JNull who then Inr None else Inl (quoted ''who'' @ ascii '' is neither a string nor null'')))"

definition parse_entry :: "json \<Rightarrow> journal_entry parsed" where
  "parse_entry e =
     (let item = (\<lambda>k. get (Some e) (ascii k)) in
      if \<not> is_JObject (Some e) then Inl (ascii ''not an object'')
      else case as_number (item ''seq'') of None \<Rightarrow> Inl (ascii ''no numeric '' @ quoted ''seq'') | Some seq \<Rightarrow>
      (case as_string (item ''command'') of None \<Rightarrow> Inl (ascii ''no string '' @ quoted ''command'') | Some command \<Rightarrow>
      (case as_string (item ''verb'') of None \<Rightarrow> Inl (ascii ''no string '' @ quoted ''verb'') | Some verb \<Rightarrow>
      (case journal_who (item ''who'') of Inl er \<Rightarrow> Inl er | Inr who \<Rightarrow>
      if \<not> is_JBool (item ''pure'') then Inl (ascii ''no boolean '' @ quoted ''pure'')
      else case as_string (item ''slice'') of None \<Rightarrow> Inl (ascii ''no string '' @ quoted ''slice'') | Some sl \<Rightarrow>
      if sl \<noteq> ascii ''undo'' \<and> sl \<noteq> ascii ''view'' \<and> sl \<noteq> ascii ''host''
      then Inl (ascii ''unknown slice '' @ quote_bytes sl)
      else if \<not> is_JArray (item ''minted'') then Inl (ascii ''no array '' @ quoted ''minted'')
      else case strings_of (children (item ''minted'')) of None \<Rightarrow> Inl (quoted ''minted'' @ ascii '' holds a non-string'') | Some minted \<Rightarrow>
        Inr \<lparr> j_seq = dbl_trunc seq, j_command = command, j_verb = verb, j_who = who,
              j_pure = (item ''pure'' = Some JTrue), j_slice = sl, j_minted = minted \<rparr>))))"

text \<open>The entries parsed before an error stay in the output.\<close>

fun parse_entries :: "nat \<Rightarrow> json list \<Rightarrow> journal_entry list \<times> bytes option" where
  "parse_entries index [] = ([], None)"
| "parse_entries index (e # es) =
     (case parse_entry e of
        Inl er \<Rightarrow> ([], Some (entry_at index @ er))
      | Inr j \<Rightarrow> (let (js, er) = parse_entries (index + 1) es in (j # js, er)))"

definition parse_journal :: "json option \<Rightarrow> journal_entry list \<times> bytes option" where
  "parse_journal array =
     (if \<not> is_JArray array then ([], Some (ascii ''journal export is not a JSON array''))
      else parse_entries 0 (children array))"

text \<open>The overload on text; \<open>parse\<close> is \<^verbatim>\<open>cJSON_Parse\<close>.\<close>

definition parse_journal_text :: "(bytes \<Rightarrow> json option) \<Rightarrow> bytes \<Rightarrow> journal_entry list \<times> bytes option" where
  "parse_journal_text parse text =
     (case parse (c_str text) of None \<Rightarrow> ([], Some (ascii ''journal export is not JSON''))
      | Some root \<Rightarrow> parse_journal (Some root))"

section \<open>The utterance and its content address\<close>

record utterance =
  u_hash :: bytes
  u_parents :: "bytes list"
  u_command :: bytes
  u_verb :: bytes
  u_who :: "bytes option"
  u_minted :: "bytes list"
  u_group :: bytes
  u_seq :: int

definition encoded_or_null :: "bytes option \<Rightarrow> bytes canon" where
  "encoded_or_null s = (case s of Some s \<Rightarrow> encode_str s | None \<Rightarrow> Inr [kNull])"

definition encoded_each :: "bytes list \<Rightarrow> bytes list canon" where
  "encoded_each items = cmap encode_str items"

definition group_opt :: "utterance \<Rightarrow> bytes option" where
  "group_opt u = (if u_group u = [] then None else Some (u_group u))"

text \<open>The bytes under the digest.\<close>

definition utterance_bytes :: "utterance \<Rightarrow> bytes canon" where
  "utterance_bytes u =
     cbind (encode_str (u_command u)) (\<lambda>command.
     cbind (encode_str (u_verb u)) (\<lambda>verb.
     cbind (encoded_or_null (u_who u)) (\<lambda>who.
     cbind (encoded_or_null (group_opt u)) (\<lambda>group.
     cbind (encoded_each (u_parents u)) (\<lambda>parents.
     cbind (encoded_each (u_minted u)) (\<lambda>minted.
     encode_map_of_encoded
       [(ascii ''command'', command), (ascii ''verb'', verb), (ascii ''who'', who), (ascii ''group'', group),
        (ascii ''parents'', encode_set parents), (ascii ''minted'', encode_set minted)]))))))"

definition utterance_digest :: "utterance \<Rightarrow> digest canon" where
  "utterance_digest u = cbind (utterance_bytes u) (\<lambda>b. Inr (domain_digest (ascii ''utterance'') b []))"

definition utterance_name :: "utterance \<Rightarrow> bytes canon" where
  "utterance_name u = cbind (utterance_digest u) (\<lambda>d. Inr (ascii ''u:'' @ to_hex d))"

definition seal :: "utterance \<Rightarrow> utterance canon" where
  "seal u =
     (let u = u\<lparr> u_parents := sort_unique (u_parents u) \<rparr>
      in cbind (utterance_name u) (\<lambda>n. Inr (u\<lparr> u_hash := n \<rparr>)))"

section \<open>JSON\<close>

definition string_or_null :: "bytes option \<Rightarrow> json" where
  "string_or_null s = (case s of Some s \<Rightarrow> mk_string s | None \<Rightarrow> JNull)"

definition utterance_to_json :: "utterance \<Rightarrow> json" where
  "utterance_to_json u = JObject
     [(ascii ''hash'', mk_string (u_hash u)), (ascii ''parents'', JArray (map mk_string (u_parents u))),
      (ascii ''command'', mk_string (u_command u)), (ascii ''verb'', mk_string (u_verb u)),
      (ascii ''who'', string_or_null (u_who u)), (ascii ''minted'', JArray (map mk_string (u_minted u))),
      (ascii ''group'', string_or_null (group_opt u)), (ascii ''seq'', mk_int (u_seq u))]"

text \<open>A member that is an array of strings, empty when it is not an array.\<close>

definition strings_at :: "json \<Rightarrow> string \<Rightarrow> bytes list parsed" where
  "strings_at obj k =
     (let v = get (Some obj) (ascii k) in
      if is_JArray v then
        (case strings_of (children v) of
           None \<Rightarrow> Inl (ascii ''utterance '' @ quoted k @ ascii '' holds a non-string'')
         | Some ss \<Rightarrow> Inr ss)
      else Inr [])"

definition error_text :: "canon_error \<Rightarrow> bytes" where
  "error_text e = (case e of CanonicalError s \<Rightarrow> ascii s)"

definition check_claim :: "json option \<Rightarrow> utterance \<Rightarrow> utterance parsed" where
  "check_claim claimed u =
     (case utterance_name u of
        Inl e \<Rightarrow> Inl (ascii ''utterance has no canonical form: '' @ error_text e)
      | Inr n \<Rightarrow>
          (case as_string claimed of
             Some h \<Rightarrow> if n \<noteq> h then Inl (ascii ''utterance hash mismatch: stored '' @ h @ ascii '', computed '' @ n)
                       else Inr (u\<lparr> u_hash := n \<rparr>)
           | None \<Rightarrow> Inr (u\<lparr> u_hash := n \<rparr>)))"

definition utterance_fields :: "json option \<Rightarrow> utterance parsed" where
  "utterance_fields obj =
     (case obj of None \<Rightarrow> Inl (ascii ''utterance is not an object'') | Some o' \<Rightarrow>
      if \<not> is_JObject obj then Inl (ascii ''utterance is not an object'')
      else case as_string (get obj (ascii ''command'')) of
        None \<Rightarrow> Inl (ascii ''utterance has no string '' @ quoted ''command'') | Some command \<Rightarrow>
      (case as_string (get obj (ascii ''verb'')) of
        None \<Rightarrow> Inl (ascii ''utterance has no string '' @ quoted ''verb'') | Some verb \<Rightarrow>
      (case strings_at o' ''parents'' of Inl er \<Rightarrow> Inl er | Inr parents \<Rightarrow>
      (case strings_at o' ''minted'' of Inl er \<Rightarrow> Inl er | Inr minted \<Rightarrow>
        Inr \<lparr> u_hash = [], u_parents = parents, u_command = command, u_verb = verb,
              u_who = as_string (get obj (ascii ''who'')), u_minted = minted,
              u_group = (case as_string (get obj (ascii ''group'')) of Some g \<Rightarrow> g | None \<Rightarrow> []),
              u_seq = (case as_number (get obj (ascii ''seq'')) of Some x \<Rightarrow> dbl_trunc x | None \<Rightarrow> 0) \<rparr>))))"

definition utterance_from_json :: "json option \<Rightarrow> utterance parsed" where
  "utterance_from_json obj =
     (case utterance_fields obj of Inl er \<Rightarrow> Inl er
      | Inr u \<Rightarrow> check_claim (get obj (ascii ''hash'')) (u\<lparr> u_parents := sort_unique (u_parents u) \<rparr>))"

section \<open>The filter\<close>

datatype skip = effectful | view_slice | host_slice

text \<open>The reasons have a dash, in UTF-8.\<close>

definition skip_reason :: "skip \<Rightarrow> bytes" where
  "skip_reason s =
     (let dash = [0xE2, 0x80, 0x94] in
      case s of
        effectful \<Rightarrow> ascii ''effectful '' @ dash @ ascii '' it crossed the holiday boundary''
      | view_slice \<Rightarrow> ascii ''view slice '' @ dash @ ascii '' placement is not versioned content''
      | host_slice \<Rightarrow> ascii ''host slice '' @ dash @ ascii '' it changed nothing in the document'')"

record ingest_report =
  recorded :: "utterance list"
  skipped :: "(journal_entry \<times> skip) list"

definition why_skipped :: "journal_entry \<Rightarrow> skip option" where
  "why_skipped e =
     (if \<not> j_pure e then Some effectful
      else if j_slice e = ascii ''view'' then Some view_slice
      else if j_slice e \<noteq> ascii ''undo'' then Some host_slice
      else None)"

definition of_entry :: "bytes \<Rightarrow> bytes list \<Rightarrow> journal_entry \<Rightarrow> utterance" where
  "of_entry grp parents e =
     \<lparr> u_hash = [], u_parents = parents, u_command = j_command e, u_verb = j_verb e, u_who = j_who e,
       u_minted = j_minted e, u_group = grp, u_seq = j_seq e \<rparr>"

fun ingest_loop :: "bytes \<Rightarrow> bytes list \<Rightarrow> journal_entry list \<Rightarrow> ingest_report canon" where
  "ingest_loop grp current [] = Inr \<lparr> recorded = [], skipped = [] \<rparr>"
| "ingest_loop grp current (e # es) =
     (case why_skipped e of
        Some s \<Rightarrow> cbind (ingest_loop grp current es) (\<lambda>r. Inr (r\<lparr> skipped := (e, s) # skipped r \<rparr>))
      | None \<Rightarrow>
          cbind (seal (of_entry grp current e)) (\<lambda>u.
          cbind (ingest_loop grp [u_hash u] es) (\<lambda>r. Inr (r\<lparr> recorded := u # recorded r \<rparr>))))"

definition ingest :: "journal_entry list \<Rightarrow> bytes list \<Rightarrow> bytes \<Rightarrow> ingest_report canon" where
  "ingest entries parents grp = ingest_loop grp (sort_unique parents) entries"

section \<open>The address of a change\<close>

definition bad_utf8 :: canon_error where
  "bad_utf8 = CanonicalError ''string is not valid UTF-8''"

lemma encode_str_cases:
  "valid_utf8 s \<Longrightarrow> encode_str s = Inr (str_bytes s)" "\<not> valid_utf8 s \<Longrightarrow> encode_str s = Inl bad_utf8"
  unfolding encode_str_def bad_utf8_def by (simp_all only: if_True if_False simp_thms)

lemma encoded_each_eq:
  "encoded_each xs = (if list_all valid_utf8 xs then Inr (map str_bytes xs) else Inl bad_utf8)"
  unfolding encoded_each_def
proof (induction xs)
  case (Cons x xs)
  then show ?case
    by (cases "valid_utf8 x"; cases "list_all valid_utf8 xs") (simp_all add: encode_str_cases)
qed simp

lemma encoded_each_set:
  assumes "set xs = set ys"
  shows "cbind (encoded_each xs) (\<lambda>es. f (encode_set es)) = cbind (encoded_each ys) (\<lambda>es. f (encode_set es))"
proof -
  have "list_all valid_utf8 xs \<longleftrightarrow> list_all valid_utf8 ys" using assms by (simp add: list_all_iff)
  moreover have "encode_set (map str_bytes xs) = encode_set (map str_bytes ys)" using assms by (intro encode_set_cong) simp
  ultimately show ?thesis by (simp add: encoded_each_eq cbind_def)
qed

text \<open>What an address covers.\<close>

definition same_change :: "utterance \<Rightarrow> utterance \<Rightarrow> bool" where
  "same_change u v \<longleftrightarrow> u_command u = u_command v \<and> u_verb u = u_verb v \<and> u_who u = u_who v \<and>
     u_group u = u_group v \<and> set (u_parents u) = set (u_parents v) \<and> set (u_minted u) = set (u_minted v)"

lemma utterance_bytes_alt:
  "utterance_bytes u =
     cbind (encode_str (u_command u)) (\<lambda>command.
     cbind (encode_str (u_verb u)) (\<lambda>verb.
     cbind (encoded_or_null (u_who u)) (\<lambda>who.
     cbind (encoded_or_null (group_opt u)) (\<lambda>grp.
     cbind (cbind (encoded_each (u_parents u)) (\<lambda>es. Inr (encode_set es))) (\<lambda>parents.
     cbind (cbind (encoded_each (u_minted u)) (\<lambda>es. Inr (encode_set es))) (\<lambda>minted.
     encode_map_of_encoded
       [(ascii ''command'', command), (ascii ''verb'', verb), (ascii ''who'', who), (ascii ''group'', grp),
        (ascii ''parents'', parents), (ascii ''minted'', minted)]))))))"
  by (simp add: utterance_bytes_def cbind_def split: sum.split)

lemma same_change_bytes: "same_change u v \<Longrightarrow> utterance_bytes u = utterance_bytes v"
  unfolding utterance_bytes_alt same_change_def group_opt_def
  using encoded_each_set [of "u_parents u" "u_parents v" Inr] encoded_each_set [of "u_minted u" "u_minted v" Inr] by simp

lemma same_change_name: "same_change u v \<Longrightarrow> utterance_name u = utterance_name v"
  by (simp add: utterance_name_def utterance_digest_def same_change_bytes)

lemma name_form:
  assumes "utterance_name u = Inr n"
  shows "n \<noteq> [] \<and> nul_free n"
proof -
  obtain d where "n = ascii ''u:'' @ to_hex d" using assms by (auto simp: utterance_name_def cbind_Inr)
  then show ?thesis using nul_free_hexify [of d] by (simp add: hexify_to_hex nul_free_ascii)
qed

lemma seal_spec:
  "seal u = Inr v \<Longrightarrow> v = u\<lparr> u_hash := u_hash v, u_parents := sort_unique (u_parents u) \<rparr> \<and> utterance_name v = Inr (u_hash v)"
proof -
  assume "seal u = Inr v"
  then obtain n where n: "utterance_name (u\<lparr> u_parents := sort_unique (u_parents u) \<rparr>) = Inr n"
    "v = u\<lparr> u_parents := sort_unique (u_parents u), u_hash := n \<rparr>"
    by (auto simp: seal_def Let_def cbind_Inr)
  have "utterance_name v = utterance_name (u\<lparr> u_parents := sort_unique (u_parents u) \<rparr>)"
    by (rule same_change_name) (simp add: n(2) same_change_def)
  then show ?thesis using n by simp
qed

section \<open>Storage and transport\<close>

lemma strings_of_map: "list_all nul_free ss \<Longrightarrow> strings_of (map mk_string ss) = Some ss"
  by (induction ss) (simp_all add: mk_string_def)

text \<open>What a C string can carry, and a sequence number a double can.\<close>

definition printable_utterance :: "utterance \<Rightarrow> bool" where
  "printable_utterance u \<longleftrightarrow> nul_free (u_command u) \<and> nul_free (u_verb u) \<and> nul_free (u_group u) \<and>
     (case u_who u of Some w \<Rightarrow> nul_free w | None \<Rightarrow> True) \<and> list_all nul_free (u_parents u) \<and>
     list_all nul_free (u_minted u) \<and> \<bar>u_seq u\<bar> < 2 ^ 53"

lemma from_to_utterance:
  assumes "utterance_name u = Inr (u_hash u)" "sorted_wrt (<) (u_parents u)" "printable_utterance u"
  shows "utterance_from_json (Some (utterance_to_json u)) = Inr u"
proof -
  let ?o = "utterance_to_json u"
  have h: "nul_free (u_hash u)" using name_form [OF assms(1)] by blast
  have keys: "get (Some ?o) (ascii ''command'') = Some (mk_string (u_command u))"
    "get (Some ?o) (ascii ''verb'') = Some (mk_string (u_verb u))" "get (Some ?o) (ascii ''hash'') = Some (mk_string (u_hash u))"
    "get (Some ?o) (ascii ''who'') = Some (string_or_null (u_who u))" "get (Some ?o) (ascii ''group'') = Some (string_or_null (group_opt u))"
    "get (Some ?o) (ascii ''parents'') = Some (JArray (map mk_string (u_parents u)))"
    "get (Some ?o) (ascii ''minted'') = Some (JArray (map mk_string (u_minted u)))"
    "get (Some ?o) (ascii ''seq'') = Some (mk_int (u_seq u))"
    by (simp_all add: utterance_to_json_def)
  have s: "strings_at ?o ''parents'' = Inr (u_parents u)" "strings_at ?o ''minted'' = Inr (u_minted u)"
    using assms(3) by (simp_all add: strings_at_def keys printable_utterance_def strings_of_map Let_def)
  have strings: "as_string (Some (mk_string (u_command u))) = Some (u_command u)"
    "as_string (Some (mk_string (u_verb u))) = Some (u_verb u)" "as_string (Some (mk_string (u_hash u))) = Some (u_hash u)"
    "as_string (Some (string_or_null (u_who u))) = u_who u"
    "(case as_string (Some (string_or_null (group_opt u))) of Some g \<Rightarrow> g | None \<Rightarrow> []) = u_group u"
    using assms(3) h by (auto simp: mk_string_def printable_utterance_def string_or_null_def group_opt_def split: option.splits)
  have seq: "(case as_number (Some (mk_int (u_seq u))) of Some x \<Rightarrow> dbl_trunc x | None \<Rightarrow> 0) = u_seq u"
    using assms(3) dbl_of_int_exact(1) [of "u_seq u"] by (simp add: mk_int_def printable_utterance_def)
  let ?u = "u\<lparr> u_hash := [] \<rparr>"
  have "utterance_name ?u = Inr (u_hash u)"
    using assms(1) same_change_name [of ?u u] by (simp add: same_change_def)
  then have "check_claim (Some (mk_string (u_hash u))) ?u = Inr u"
    by (simp add: check_claim_def strings(3))
  moreover have "?u\<lparr> u_parents := sort_unique (u_parents u) \<rparr> = ?u" using sort_unique_id [OF assms(2)] by simp
  moreover have "is_JObject (Some ?o)" by (simp add: utterance_to_json_def)
  then have "utterance_fields (Some ?o) = Inr ?u"
    by (simp only: utterance_fields_def keys s strings seq option.case sum.case simp_thms if_False if_True) (cases u, simp)
  ultimately show ?thesis by (simp add: utterance_from_json_def keys)
qed

text \<open>What is accepted carries its own name, and the name it claimed.\<close>

lemma from_json_sealed:
  assumes "utterance_from_json obj = Inr u"
  shows "utterance_name u = Inr (u_hash u) \<and> sorted_wrt (<) (u_parents u) \<and>
    (\<forall>h. as_string (get obj (ascii ''hash'')) = Some h \<longrightarrow> h = u_hash u)"
proof -
  have claim: "check_claim c v = Inr u \<Longrightarrow> u = v\<lparr> u_hash := u_hash u \<rparr> \<and> utterance_name v = Inr (u_hash u) \<and>
      (\<forall>h. as_string c = Some h \<longrightarrow> h = u_hash u)" for c v
    by (auto simp: check_claim_def split: sum.splits option.splits if_splits)
  obtain w where w: "utterance_fields obj = Inr w" using assms by (cases "utterance_fields obj") (simp_all add: utterance_from_json_def)
  define v where "v = w\<lparr> u_parents := sort_unique (u_parents w) \<rparr>"
  have v: "check_claim (get obj (ascii ''hash'')) v = Inr u" "sorted_wrt (<) (u_parents v)"
    using assms w by (simp_all add: utterance_from_json_def v_def)
  obtain n where n: "u = v\<lparr> u_hash := n \<rparr>" using claim [OF v(1)] by blast
  then have "same_change u v" by (simp add: same_change_def)
  then have "utterance_name u = Inr (u_hash u)" using same_change_name [of u v] claim [OF v(1)] by simp
  moreover have "u_parents u = u_parents v" using n by simp
  ultimately show ?thesis using claim [OF v(1)] v(2) by simp
qed

text \<open>A name is ASCII, so an utterance can always name it as a parent.\<close>

lemma ascii_valid_utf8: "\<forall>c \<in> set s. c < 0x80 \<Longrightarrow> valid_utf8 s"
proof (induction s)
  case (Cons c s)
  have "utf8_cp_ok 0 (ucast c)"
  proof -
    have "unat (ucast c :: 32 word) < 128"
      using Cons.prems by (simp add: word_less_nat_alt unsigned_ucast_eq take_bit_nat_eq_self)
    then have "(ucast c :: 32 word) < 0x80" by (simp add: word_less_nat_alt)
    then show ?thesis unfolding utf8_cp_ok_def by (auto simp: word_less_nat_alt word_le_nat_alt)
  qed
  then show ?case using Cons by simp
qed simp

lemma hex_digit_ascii: "unat n < 16 \<Longrightarrow> hex_digit n < 0x80"
proof -
  have "\<forall>c \<in> set (ascii ''0123456789abcdef''). c < 0x80" by code_simp
  moreover have "length (ascii ''0123456789abcdef'') = 16" by code_simp
  ultimately show "unat n < 16 \<Longrightarrow> hex_digit n < 0x80" unfolding hex_digit_def by (metis nth_mem)
qed

lemma name_valid: "utterance_name u = Inr n \<Longrightarrow> valid_utf8 n"
proof (rule ascii_valid_utf8)
  assume "utterance_name u = Inr n"
  then obtain d where n: "n = ascii ''u:'' @ to_hex d" by (auto simp: utterance_name_def cbind_Inr)
  have "\<forall>c \<in> set (ascii ''u:''). c < 0x80" by code_simp
  moreover have "\<forall>c \<in> set (to_hex d). c < 0x80" by (auto simp: to_hex_def intro!: hex_digit_ascii nibble_range)
  ultimately show "\<forall>c \<in> set n. c < 0x80" by (auto simp: n)
qed

text \<open>Sealing fails only on bytes that are no UTF-8.\<close>

definition text_ok :: "utterance \<Rightarrow> bool" where
  "text_ok u \<longleftrightarrow> valid_utf8 (u_command u) \<and> valid_utf8 (u_verb u) \<and>
     (case u_who u of Some w \<Rightarrow> valid_utf8 w | None \<Rightarrow> True) \<and> valid_utf8 (u_group u) \<and>
     list_all valid_utf8 (u_parents u) \<and> list_all valid_utf8 (u_minted u)"

lemma encoded_or_null_ok: "(case s of Some w \<Rightarrow> valid_utf8 w | None \<Rightarrow> True) \<Longrightarrow> \<exists>b. encoded_or_null s = Inr b"
  by (cases s) (auto simp: encoded_or_null_def encode_str_cases)

lemma name_exists: "text_ok u \<Longrightarrow> \<exists>n. utterance_name u = Inr n"
proof -
  assume u: "text_ok u"
  obtain who where who: "encoded_or_null (u_who u) = Inr who" using u encoded_or_null_ok by (auto simp: text_ok_def)
  obtain grp where grp: "encoded_or_null (group_opt u) = Inr grp"
    using u encoded_or_null_ok [of "group_opt u"] by (cases "u_group u = []") (auto simp: text_ok_def group_opt_def)
  have keys: "valid_utf8 (ascii ''command'')" "valid_utf8 (ascii ''verb'')" "valid_utf8 (ascii ''who'')"
    "valid_utf8 (ascii ''group'')" "valid_utf8 (ascii ''parents'')" "valid_utf8 (ascii ''minted'')" by code_simp+
  have "\<exists>b. utterance_bytes u = Inr b"
    using u unfolding utterance_bytes_def who grp
    by (simp add: text_ok_def encode_str_cases encoded_each_eq cbind_def encode_map_of_encoded_def keys)
  then show ?thesis by (auto simp: utterance_name_def utterance_digest_def cbind_def)
qed

section \<open>The journal as a chain\<close>

definition records_entry :: "bytes \<Rightarrow> utterance \<Rightarrow> journal_entry \<Rightarrow> bool" where
  "records_entry grp u e \<longleftrightarrow>
     u = (of_entry grp (u_parents u) e)\<lparr> u_hash := u_hash u \<rparr> \<and> utterance_name u = Inr (u_hash u)"

lemma ingest_loop_spec:
  assumes "ingest_loop grp current es = Inr r" "sorted_wrt (<) current"
  shows "skipped r = List.map_filter (\<lambda>e. map_option (Pair e) (why_skipped e)) es \<and>
    list_all2 (records_entry grp) (recorded r) (filter (\<lambda>e. why_skipped e = None) es) \<and>
    map u_parents (recorded r) = take (length (recorded r)) (current # map (\<lambda>u. [u_hash u]) (recorded r))"
  using assms
proof (induction es arbitrary: current r)
  case (Cons e es)
  show ?case
  proof (cases "why_skipped e")
    case None
    then obtain u r' where u: "seal (of_entry grp current e) = Inr u" "ingest_loop grp [u_hash u] es = Inr r'"
      "r = r'\<lparr> recorded := u # recorded r' \<rparr>"
      using Cons.prems(1) by (auto simp: cbind_Inr)
    have s: "u = (of_entry grp current e)\<lparr> u_hash := u_hash u \<rparr> \<and> utterance_name u = Inr (u_hash u)"
      using seal_spec [OF u(1)] sort_unique_id [OF Cons.prems(2)] by (simp add: of_entry_def)
    moreover have p: "u_parents u = current" using s by (metis of_entry_def utterance.select_convs(2) utterance.update_convs(1))
    ultimately have "records_entry grp u e" by (simp add: records_entry_def)
    then show ?thesis using Cons.IH [OF u(2)] u(3) p None by (simp add: List.map_filter_simps)
  next
    case (Some sk)
    then obtain r' where "ingest_loop grp current es = Inr r'" "r = r'\<lparr> skipped := (e, sk) # skipped r' \<rparr>"
      using Cons.prems(1) by (auto simp: cbind_Inr)
    then show ?thesis using Cons.IH [OF _ Cons.prems(2)] Some by (simp add: List.map_filter_simps)
  qed
qed (simp add: List.map_filter_simps)

lemma ingest_loop_total:
  assumes "\<forall>e \<in> set es. why_skipped e = None \<longrightarrow> text_ok (of_entry grp [] e)" "list_all valid_utf8 current"
  shows "\<exists>r. ingest_loop grp current es = Inr r"
  using assms
proof (induction es arbitrary: current)
  case (Cons e es)
  show ?case
  proof (cases "why_skipped e")
    case None
    have "text_ok ((of_entry grp current e)\<lparr> u_parents := sort_unique current \<rparr>)"
      using Cons.prems None by (auto simp: text_ok_def of_entry_def list_all_iff)
    then obtain u where u: "seal (of_entry grp current e) = Inr u"
      using name_exists by (force simp: seal_def Let_def cbind_def of_entry_def)
    have "list_all valid_utf8 [u_hash u]" using seal_spec [OF u] name_valid [of u] by simp
    then obtain r where "ingest_loop grp [u_hash u] es = Inr r" using Cons.IH Cons.prems(1) by (meson list.set_intros(2))
    then show ?thesis using None u by (simp add: cbind_def)
  next
    case (Some s)
    then show ?thesis using Cons by (auto simp: cbind_def split: sum.split) (metis sum.distinct(1))
  qed
qed simp

text \<open>C33. The journal becomes a chain: exactly the pure entries of the undo slice are recorded, in
  order, each under its own name and after the one before it; every other entry is reported with
  the reason it was left out.\<close>

theorem ingest_exact:
  assumes "\<forall>e \<in> set entries. why_skipped e = None \<longrightarrow> text_ok (of_entry grp [] e)" "list_all valid_utf8 parents"
  shows "\<exists>r. ingest entries parents grp = Inr r \<and>
    skipped r = List.map_filter (\<lambda>e. map_option (Pair e) (why_skipped e)) entries \<and>
    list_all2 (records_entry grp) (recorded r) (filter (\<lambda>e. j_pure e \<and> j_slice e = ascii ''undo'') entries) \<and>
    map u_parents (recorded r) = take (length (recorded r)) (sort_unique parents # map (\<lambda>u. [u_hash u]) (recorded r))"
proof -
  have "why_skipped e = None \<longleftrightarrow> j_pure e \<and> j_slice e = ascii ''undo''" for e
    by (auto simp: why_skipped_def)
  moreover have "list_all valid_utf8 (sort_unique parents)" using assms(2) by (simp add: list_all_iff)
  then obtain r where "ingest_loop grp (sort_unique parents) entries = Inr r"
    using ingest_loop_total [OF assms(1)] by blast
  ultimately show ?thesis
    using ingest_loop_spec [OF _ strict_sorted_sort_unique] by (simp add: ingest_def)
qed

text \<open>An utterance survives its JSON form.\<close>

theorem utterance_json_roundtrip:
  assumes "utterance_name u = Inr (u_hash u)" "sorted_wrt (<) (u_parents u)" "printable_utterance u"
  shows "utterance_from_json (Some (utterance_to_json u)) = Inr u"
  using assms by (rule from_to_utterance)

text \<open>What is read under a name has that name.\<close>

theorem utterance_from_json_verifies:
  assumes "utterance_from_json obj = Inr u"
  shows "utterance_name u = Inr (u_hash u) \<and> sorted_wrt (<) (u_parents u) \<and>
    (\<forall>h. as_string (get obj (ascii ''hash'')) = Some h \<longrightarrow> h = u_hash u)"
  using assms by (rule from_json_sealed)

section \<open>At concrete inputs\<close>

definition note_entry :: journal_entry where
  "note_entry = \<lparr> j_seq = 1, j_command = ascii ''rune new note'', j_verb = ascii ''rune new'', j_who = None,
     j_pure = True, j_slice = ascii ''undo'', j_minted = [ascii ''n1''] \<rparr>"

definition save_entry :: journal_entry where
  "save_entry = \<lparr> j_seq = 2, j_command = ascii ''save'', j_verb = ascii ''save'', j_who = None,
     j_pure = False, j_slice = ascii ''host'', j_minted = [] \<rparr>"

definition note_utterance :: utterance where
  "note_utterance = (case seal (of_entry [] [] note_entry) of Inr u \<Rightarrow> u)"

lemma note_bytes: "\<exists>b. utterance_bytes (of_entry [] [] note_entry) = Inr b"
proof -
  have "canon_ok (utterance_bytes (of_entry [] [] note_entry))" by code_simp
  then show ?thesis by (cases "utterance_bytes (of_entry [] [] note_entry)") (simp_all add: canon_ok_def)
qed

lemma note_sealed:
  "seal (of_entry [] [] note_entry) = Inr note_utterance"
  "note_utterance = (of_entry [] [] note_entry)\<lparr> u_hash := u_hash note_utterance \<rparr>"
  "utterance_name note_utterance = Inr (u_hash note_utterance)"
proof -
  obtain b where b: "utterance_bytes (of_entry [] [] note_entry) = Inr b" using note_bytes by blast
  have "sort_unique ([] :: bytes list) = []" by code_simp
  then have "(of_entry [] [] note_entry)\<lparr> u_parents := sort_unique (u_parents (of_entry [] [] note_entry)) \<rparr> = of_entry [] [] note_entry"
    by (simp add: of_entry_def)
  then have s: "\<exists>u. seal (of_entry [] [] note_entry) = Inr u"
    by (simp add: seal_def Let_def utterance_name_def utterance_digest_def b cbind_def)
  then show e: "seal (of_entry [] [] note_entry) = Inr note_utterance" by (auto simp: note_utterance_def)
  then show "note_utterance = (of_entry [] [] note_entry)\<lparr> u_hash := u_hash note_utterance \<rparr>"
    "utterance_name note_utterance = Inr (u_hash note_utterance)"
    using seal_spec [OF e] \<open>sort_unique [] = []\<close> by (simp_all add: of_entry_def)
qed

lemma note_fields:
  "u_parents note_utterance = []" "u_command note_utterance = ascii ''rune new note''" "u_verb note_utterance = ascii ''rune new''"
  "u_who note_utterance = None" "u_minted note_utterance = [ascii ''n1'']" "u_group note_utterance = []" "u_seq note_utterance = 1"
  by (subst note_sealed(2), simp add: of_entry_def note_entry_def)+

lemma note_printable: "printable_utterance note_utterance"
  by (simp add: printable_utterance_def note_fields nul_free_ascii)

theorem ingest_exact_witness:
  "\<exists>r. ingest [note_entry, save_entry] [] [] = Inr r \<and> skipped r = [(save_entry, effectful)] \<and>
    list_all2 (records_entry []) (recorded r) [note_entry]"
proof -
  have w: "why_skipped note_entry = None" "why_skipped save_entry = Some effectful" by code_simp+
  have f: "filter (\<lambda>e. j_pure e \<and> j_slice e = ascii ''undo'') [note_entry, save_entry] = [note_entry]" by code_simp
  have "text_ok (of_entry [] [] note_entry)" by code_simp
  then show ?thesis using ingest_exact [of "[note_entry, save_entry]" "[]" "[]"] f w by (auto simp: List.map_filter_simps)
qed

theorem utterance_json_roundtrip_witness:
  "utterance_from_json (Some (utterance_to_json note_utterance)) = Inr note_utterance"
proof (rule utterance_json_roundtrip [OF note_sealed(3) _ note_printable])
  show "sorted_wrt (<) (u_parents note_utterance)" by (simp add: note_fields)
qed

theorem utterance_from_json_verifies_witness:
  "\<exists>u. utterance_from_json (Some (utterance_to_json note_utterance)) = Inr u \<and> utterance_name u = Inr (u_hash u)"
proof -
  have "utterance_from_json (Some (utterance_to_json note_utterance)) = Inr note_utterance"
    by (rule from_to_utterance [OF note_sealed(3) _ note_printable]) (simp add: note_fields)
  then show ?thesis using utterance_from_json_verifies by blast
qed

end
