(* ===== verification/History.thy ===== *)
theory History
  imports Utterance
begin

text \<open>
  The graph of utterances (\<^verbatim>\<open>src/utterance/history.cpp\<close>): membership, heads and cuts, ancestry,
  one linear reading, and the ways it grows. The walks over an explicit stack and the loop of the
  linear extension run on fuel; the number of steps they can take is bounded by the parents the
  graph names and by its size.
\<close>

record history =
  by_hash :: "(bytes, utterance) omap"
  kids :: "(bytes, bytes list) omap"

definition history_new :: history where
  "history_new = \<lparr> by_hash = [], kids = [] \<rparr>"

definition has :: "history \<Rightarrow> bytes \<Rightarrow> bool" where
  "has h x \<longleftrightarrow> map_of (by_hash h) x \<noteq> None"

definition get_utterance :: "history \<Rightarrow> bytes \<Rightarrow> utterance option" where
  "get_utterance h x = map_of (by_hash h) x"

definition kids_of :: "history \<Rightarrow> bytes \<Rightarrow> bytes list" where
  "kids_of h x = got (map_of (kids h) x)"

datatype add_result = added | duplicate | missing_parent | malformed

definition insert_utterance :: "utterance \<Rightarrow> history \<Rightarrow> history" where
  "insert_utterance u h =
     \<lparr> by_hash = om_put (u_hash u) u (by_hash h),
       kids = foldl (\<lambda>m p. om_push p (u_hash u) m) (kids h) (u_parents u) \<rparr>"

definition add_utterance :: "history \<Rightarrow> utterance \<Rightarrow> add_result \<times> history" where
  "add_utterance h u =
     (if u_hash u = [] then (malformed, h)
      else case utterance_name u of
        Inl e \<Rightarrow> (malformed, h)
      | Inr n \<Rightarrow>
          if n \<noteq> u_hash u then (malformed, h)
          else if has h (u_hash u) then (duplicate, h)
          else if \<not> list_all (has h) (u_parents u) then (missing_parent, h)
          else (added, insert_utterance u h))"

section \<open>Heads and cuts\<close>

definition heads :: "history \<Rightarrow> bytes list" where
  "heads h = sort (map fst (filter (\<lambda>kv. kids_of h (fst kv) = []) (by_hash h)))"

definition cut_name_of :: "bytes list \<Rightarrow> bytes canon" where
  "cut_name_of hs = cbind (encoded_each hs) (\<lambda>es. Inr (ascii ''c:'' @ to_hex (domain_digest (ascii ''cut'') (encode_set es) [])))"

definition cut_name :: "history \<Rightarrow> bytes canon" where
  "cut_name h = cut_name_of (heads h)"

section \<open>Ancestry\<close>

definition parents_of :: "history \<Rightarrow> bytes \<Rightarrow> bytes list" where
  "parents_of h x = (case get_utterance h x of Some u \<Rightarrow> u_parents u | None \<Rightarrow> [])"

text \<open>The stack of a walk has its top last in the code and first here: parents are pushed in
  order, so the last one is on top.\<close>

fun walk :: "nat \<Rightarrow> history \<Rightarrow> bytes list \<Rightarrow> bytes list \<Rightarrow> bytes list option" where
  "walk k h seen [] = Some seen"
| "walk 0 h seen (x # st) = None"
| "walk (Suc k) h seen (x # st) =
     (if x \<in> set seen then walk k h seen st
      else walk k h (os_insert x seen) (rev (parents_of h x) @ st))"

definition walk_fuel :: "history \<Rightarrow> bytes \<Rightarrow> nat" where
  "walk_fuel h x = length (parents_of h x) + sum_list (map (\<lambda>kv. length (u_parents (snd kv))) (by_hash h))"

definition ancestors :: "history \<Rightarrow> bytes \<Rightarrow> bytes list option" where
  "ancestors h x = (if \<not> has h x then Some [] else walk (walk_fuel h x) h [] (rev (parents_of h x)))"

fun reach :: "nat \<Rightarrow> history \<Rightarrow> bytes \<Rightarrow> bytes list \<Rightarrow> bytes list \<Rightarrow> bool option" where
  "reach k h a seen [] = Some False"
| "reach 0 h a seen (x # st) = None"
| "reach (Suc k) h a seen (x # st) =
     (if x = a then Some True
      else if x \<in> set seen then reach k h a seen st
      else reach k h a (os_insert x seen) (rev (parents_of h x) @ st))"

definition is_ancestor :: "history \<Rightarrow> bytes \<Rightarrow> bytes \<Rightarrow> bool option" where
  "is_ancestor h a b =
     (if a = b then Some False
      else if \<not> has h a \<or> \<not> has h b then Some False
      else reach (walk_fuel h b) h a [] (rev (parents_of h b)))"

definition concurrent :: "history \<Rightarrow> bytes \<Rightarrow> bytes \<Rightarrow> bool option" where
  "concurrent h a b =
     (if \<not> has h a \<or> \<not> has h b then Some False
      else if a = b then Some False
      else case is_ancestor h a b of None \<Rightarrow> None
        | Some True \<Rightarrow> Some False
        | Some False \<Rightarrow> map_option Not (is_ancestor h b a))"

section \<open>One reading of the order\<close>

type_synonym kahn_state = "(bytes, nat) omap \<times> bytes list"

definition release :: "kahn_state \<Rightarrow> bytes \<Rightarrow> kahn_state" where
  "release st c =
     (let (remaining, ready) = st in
      case map_of remaining c of None \<Rightarrow> st
      | Some n \<Rightarrow>
          if n = 0 then st
          else (om_put c (n - 1) remaining, if n - 1 = 0 then os_insert c ready else ready))"

fun kahn :: "nat \<Rightarrow> history \<Rightarrow> kahn_state \<Rightarrow> bytes list option" where
  "kahn k h (remaining, []) = Some []"
| "kahn 0 h (remaining, x # ready) = None"
| "kahn (Suc k) h (remaining, x # ready) =
     map_option ((#) x) (kahn k h (foldl release (remaining, ready) (kids_of h x)))"

definition kahn_start :: "history \<Rightarrow> kahn_state" where
  "kahn_start h =
     (map (\<lambda>kv. (fst kv, length (u_parents (snd kv)))) (by_hash h),
      map fst (filter (\<lambda>kv. length (u_parents (snd kv)) = 0) (by_hash h)))"

definition linear_extension :: "history \<Rightarrow> bytes list option" where
  "linear_extension h = kahn (length (by_hash h)) h (kahn_start h)"

section \<open>Growing\<close>

definition record_entries :: "history \<Rightarrow> journal_entry list \<Rightarrow> bytes \<Rightarrow> (ingest_report \<times> history) canon" where
  "record_entries h entries grp =
     cbind (ingest entries (heads h) grp) (\<lambda>report.
     Inr (report, foldl (\<lambda>h u. snd (add_utterance h u)) h (recorded report)))"

text \<open>One pass over what is pending: how many were added, whether anything was placed, and what
  still waits.\<close>

fun pass :: "history \<Rightarrow> utterance list \<Rightarrow> history \<times> nat \<times> bool \<times> utterance list" where
  "pass h [] = (h, 0, False, [])"
| "pass h (u # us) =
     (let (r, h1) = add_utterance h u; (h2, n, progress, still) = pass h1 us
      in if r = added then (h2, n + 1, True, still)
         else if r = duplicate then (h2, n, True, still)
         else (h2, n, progress, u # still))"

lemma pass_shrinks: "pass h us = (h', n, progress, still) \<Longrightarrow> length still \<le> length us \<and> (progress \<longrightarrow> length still < length us)"
  by (induction us arbitrary: h h' n progress still) (force simp: Let_def split: prod.splits if_splits)+

function receive_loop :: "history \<Rightarrow> nat \<Rightarrow> utterance list \<Rightarrow> history \<times> nat \<times> utterance list" where
  "receive_loop h n pending =
     (if pending = [] then (h, n, [])
      else case pass h pending of (h', m, progress, still) \<Rightarrow>
        if progress then receive_loop h' (n + m) still else (h', n + m, still))"
  by pat_completeness auto
termination
  by (relation "measure (\<lambda>(h, n, pending). length pending)") (auto dest!: pass_shrinks [OF sym])

declare receive_loop.simps [simp del]

definition receive :: "history \<Rightarrow> utterance list \<Rightarrow> history \<times> nat \<times> utterance list" where
  "receive h inbox = receive_loop h 0 inbox"

definition absorb :: "history \<Rightarrow> history \<Rightarrow> history \<times> nat" where
  "absorb h other = (let (h', n, rest) = receive h (map snd (by_hash other)) in (h', n))"

section \<open>Persistence\<close>

definition history_to_json :: "history \<Rightarrow> json option" where
  "history_to_json h =
     map_option (\<lambda>order. JObject
       [(ascii ''palabra_history'', mk_int 1),
        (ascii ''utterances'', JArray (map utterance_to_json (List.map_filter (get_utterance h) order)))])
     (linear_extension h)"

fun parse_utterances :: "json list \<Rightarrow> utterance list parsed" where
  "parse_utterances [] = Inr []"
| "parse_utterances (e # es) =
     (case utterance_from_json (Some e) of Inl er \<Rightarrow> Inl er
      | Inr u \<Rightarrow> (case parse_utterances es of Inl er \<Rightarrow> Inl er | Inr us \<Rightarrow> Inr (u # us)))"

definition history_from_json :: "json option \<Rightarrow> history parsed" where
  "history_from_json obj =
     (if \<not> is_JObject obj then Inl (ascii ''history is not an object'')
      else let arr = get obj (ascii ''utterances'') in
        if \<not> is_JArray arr then Inl (ascii ''history has no '' @ quoted ''utterances'' @ ascii '' array'')
        else case parse_utterances (children arr) of Inl er \<Rightarrow> Inl er
        | Inr parsed \<Rightarrow>
            (let (h, n, rest) = receive_loop history_new 0 parsed in
             if rest \<noteq> [] then Inl (ascii ''history is incomplete: '' @ to_string (length rest) @
               ascii '' utterance(s) name a parent that is not in the file'')
             else Inr h))"

section \<open>Well-formed histories\<close>

definition keys :: "history \<Rightarrow> bytes set" where
  "keys h = {x. has h x}"

definition sealed :: "utterance \<Rightarrow> bool" where
  "sealed u \<longleftrightarrow> u_hash u \<noteq> [] \<and> utterance_name u = Inr (u_hash u)"

definition history_ok :: "history \<Rightarrow> bool" where
  "history_ok h \<longleftrightarrow> om_ok (by_hash h) \<and> om_ok (kids h) \<and>
     (\<forall>x u. get_utterance h x = Some u \<longrightarrow> u_hash u = x \<and> sealed u \<and> set (u_parents u) \<subseteq> keys h) \<and>
     (\<forall>x c. count_list (kids_of h x) c = count_list (parents_of h c) x) \<and>
     (\<exists>rank :: bytes \<Rightarrow> nat. \<forall>c. \<forall>p \<in> set (parents_of h c). rank p < rank c)"

lemma keys_iff: "x \<in> keys h \<longleftrightarrow> (\<exists>u. get_utterance h x = Some u)"
  by (auto simp: keys_def has_def get_utterance_def)

lemma keys_alt: "keys h = fst ` set (by_hash h)"
  unfolding keys_def has_def map_of_eq_None_iff by blast

lemma has_iff [simp]: "has h x \<longleftrightarrow> x \<in> keys h"
  by (simp add: keys_def)

lemma parents_in_keys: "history_ok h \<Longrightarrow> set (parents_of h c) \<subseteq> keys h"
  by (cases "get_utterance h c") (auto simp: history_ok_def parents_of_def)

lemma kids_iff: "history_ok h \<Longrightarrow> c \<in> set (kids_of h p) \<longleftrightarrow> p \<in> set (parents_of h c)"
  by (metis history_ok_def count_list_0_iff)

lemma history_new_ok: "history_ok history_new" and keys_new [simp]: "keys history_new = {}"
proof -
  have g: "get_utterance history_new x = None" for x by (simp add: get_utterance_def history_new_def)
  then have p: "parents_of history_new x = []" "kids_of history_new x = []" for x
    by (simp_all add: parents_of_def kids_of_def history_new_def)
  show "keys history_new = {}" by (auto simp: keys_iff g)
  show "history_ok history_new" unfolding history_ok_def by (simp add: g p) (simp add: history_new_def)
qed

lemma kids_fold:
  "om_ok m \<Longrightarrow> om_ok (foldl (\<lambda>m p. om_push p c m) m ps) \<and>
    got (map_of (foldl (\<lambda>m p. om_push p c m) m ps) x) = got (map_of m x) @ replicate (count_list ps x) c"
proof (induction ps arbitrary: m)
  case (Cons p ps)
  have "om_ok (om_push p c m)" using Cons.prems by simp
  from Cons.IH [OF this] show ?case using Cons.prems by (simp add: map_of_push)
qed simp

lemma insert_fields:
  assumes "om_ok (by_hash h)" "om_ok (kids h)"
  shows "om_ok (by_hash (insert_utterance u h))" "om_ok (kids (insert_utterance u h))"
    and "get_utterance (insert_utterance u h) x = (if x = u_hash u then Some u else get_utterance h x)"
    and "kids_of (insert_utterance u h) x = kids_of h x @ replicate (count_list (u_parents u) x) (u_hash u)"
  using assms kids_fold [OF assms(2), where c = "u_hash u" and ps = "u_parents u" and x = x]
  by (simp_all add: insert_utterance_def get_utterance_def kids_of_def)

lemma history_ok_add:
  assumes ok: "history_ok h" and u: "sealed u" "u_hash u \<notin> keys h" "set (u_parents u) \<subseteq> keys h"
  shows "history_ok (insert_utterance u h) \<and> keys (insert_utterance u h) = insert (u_hash u) (keys h)"
proof -
  let ?h = "insert_utterance u h"
  have om: "om_ok (by_hash h)" "om_ok (kids h)" using ok by (simp_all add: history_ok_def)
  note f = insert_fields [OF om]
  have keys: "keys ?h = insert (u_hash u) (keys h)" by (auto simp: keys_iff f split: if_splits)
  have new: "parents_of h (u_hash u) = []" using u(2) by (simp add: parents_of_def keys_iff)
  have par: "parents_of ?h c = (if c = u_hash u then u_parents u else parents_of h c)" for c
    by (simp add: parents_of_def f)
  obtain rank :: "bytes \<Rightarrow> nat" where rank: "\<And>c p. p \<in> set (parents_of h c) \<Longrightarrow> rank p < rank c"
    using ok unfolding history_ok_def by blast
  define r where "r = rank(u_hash u := Suc (sum_list (map rank (u_parents u))))"
  have "r p < r c" if "p \<in> set (parents_of ?h c)" for p c
  proof (cases "c = u_hash u")
    case True
    then have p: "p \<in> set (u_parents u)" using that par by simp
    then have "rank p \<le> sum_list (map rank (u_parents u))" by (simp add: member_le_sum_list)
    moreover have "p \<noteq> u_hash u" using p u(2,3) by blast
    ultimately show ?thesis using True by (simp add: r_def)
  next
    case False
    then have p: "p \<in> set (parents_of h c)" using that par by simp
    then have "p \<noteq> u_hash u" using parents_in_keys [OF ok] u(2) by blast
    then show ?thesis using False rank [OF p] by (simp add: r_def)
  qed
  moreover have "count_list (kids_of ?h x) c = count_list (parents_of ?h c) x" for x c
  proof -
    have "count_list (kids_of h x) c = count_list (parents_of h c) x" using ok by (simp add: history_ok_def)
    moreover have "count_list (replicate n y) c = (if y = c then n else 0)" for n and y :: bytes
      by (induction n) auto
    ultimately show ?thesis using new by (auto simp: f par)
  qed
  moreover have "u_hash v = x \<and> sealed v \<and> set (u_parents v) \<subseteq> keys ?h" if "get_utterance ?h x = Some v" for x v
  proof (cases "x = u_hash u")
    case True
    then show ?thesis using that u keys by (auto simp: f)
  next
    case False
    then have "get_utterance h x = Some v" using that by (simp add: f)
    then have "u_hash v = x \<and> sealed v \<and> set (u_parents v) \<subseteq> keys h" using ok unfolding history_ok_def by blast
    then show ?thesis using keys by blast
  qed
  ultimately show ?thesis using keys f(1,2) by (auto simp: history_ok_def)
qed

lemma add_cases:
  assumes "history_ok h" "add_utterance h u = (r, h')"
  shows "history_ok h'"
    and "r = added \<Longrightarrow> sealed u \<and> u_hash u \<notin> keys h \<and> set (u_parents u) \<subseteq> keys h \<and> keys h' = insert (u_hash u) (keys h)"
    and "r \<noteq> added \<Longrightarrow> h' = h"
    and "r = duplicate \<longleftrightarrow> sealed u \<and> u_hash u \<in> keys h"
    and "r = malformed \<longleftrightarrow> \<not> sealed u"
    and "r = missing_parent \<longleftrightarrow> sealed u \<and> u_hash u \<notin> keys h \<and> \<not> set (u_parents u) \<subseteq> keys h"
proof -
  have "r = (if \<not> sealed u then malformed else if u_hash u \<in> keys h then duplicate
      else if set (u_parents u) \<subseteq> keys h then added else missing_parent)"
    "h' = (if r = added then insert_utterance u h else h)"
    using assms(2) by (auto simp: add_utterance_def sealed_def list_all_iff split: sum.splits if_splits)
  then show "history_ok h'" "r = added \<Longrightarrow> sealed u \<and> u_hash u \<notin> keys h \<and> set (u_parents u) \<subseteq> keys h \<and> keys h' = insert (u_hash u) (keys h)"
    "r \<noteq> added \<Longrightarrow> h' = h" "r = duplicate \<longleftrightarrow> sealed u \<and> u_hash u \<in> keys h"
    "r = malformed \<longleftrightarrow> \<not> sealed u" "r = missing_parent \<longleftrightarrow> sealed u \<and> u_hash u \<notin> keys h \<and> \<not> set (u_parents u) \<subseteq> keys h"
    using history_ok_add [OF assms(1), of u] assms(1) by (auto split: if_splits)
qed

section \<open>Ancestry is reachability\<close>

definition par :: "history \<Rightarrow> bytes rel" where
  "par h = {(p, c). p \<in> set (parents_of h c)}"

lemma par_rank:
  assumes "history_ok h"
  obtains rank :: "bytes \<Rightarrow> nat" where "\<And>p c. (p, c) \<in> (par h)\<^sup>+ \<Longrightarrow> rank p < rank c"
proof -
  obtain rank :: "bytes \<Rightarrow> nat" where r: "\<And>c p. p \<in> set (parents_of h c) \<Longrightarrow> rank p < rank c"
    using assms unfolding history_ok_def by blast
  have "rank p < rank c" if "(p, c) \<in> (par h)\<^sup>+" for p c
    using that by induction (auto simp: par_def dest: r)
  then show thesis by (rule that)
qed

text \<open>A walk adds to what it has seen exactly what its stack can reach.\<close>

lemma walk_sound:
  "walk k h seen st = Some s \<Longrightarrow> set s \<subseteq> set seen \<union> {a. \<exists>y \<in> set st. (a, y) \<in> (par h)\<^sup>*}"
proof (induction k h seen st rule: walk.induct)
  case (3 k h seen x st)
  show ?case
  proof (cases "x \<in> set seen")
    case True
    then show ?thesis using 3 by auto
  next
    case False
    then have "set s \<subseteq> set (os_insert x seen) \<union> {a. \<exists>y \<in> set (rev (parents_of h x) @ st). (a, y) \<in> (par h)\<^sup>*}"
      using 3 by simp
    moreover have "(a, x) \<in> (par h)\<^sup>*" if "(a, y) \<in> (par h)\<^sup>*" "y \<in> set (parents_of h x)" for a y
      using that by (auto simp: par_def intro: rtrancl_into_rtrancl)
    ultimately show ?thesis by auto
  qed
qed auto

lemma walk_closed:
  "walk k h seen st = Some s \<Longrightarrow> (\<forall>y \<in> set seen. set (parents_of h y) \<subseteq> set seen \<union> set st) \<Longrightarrow>
    set seen \<union> set st \<subseteq> set s \<and> (\<forall>y \<in> set s. set (parents_of h y) \<subseteq> set s)"
proof (induction k h seen st rule: walk.induct)
  case (3 k h seen x st)
  show ?case
  proof (cases "x \<in> set seen")
    case True
    have "set seen \<union> set st \<subseteq> set s \<and> (\<forall>y \<in> set s. set (parents_of h y) \<subseteq> set s)"
      by (rule "3.IH"(1) [OF True]) (use 3 True in auto)
    then show ?thesis using True by auto
  next
    case False
    have "set (os_insert x seen) \<union> set (rev (parents_of h x) @ st) \<subseteq> set s \<and> (\<forall>y \<in> set s. set (parents_of h y) \<subseteq> set s)"
      by (rule "3.IH"(2) [OF False]) (use 3 False in auto)
    then show ?thesis by auto
  qed
qed auto

text \<open>Each step takes a name off the stack, and the parents of a node are pushed once.\<close>

definition unseen :: "history \<Rightarrow> bytes set \<Rightarrow> nat" where
  "unseen h S = sum_list (map (\<lambda>kv. length (u_parents (snd kv))) (filter (\<lambda>kv. fst kv \<notin> S) (by_hash h)))"

lemma unseen_insert:
  assumes "distinct (map fst m)" "x \<notin> S"
  shows "sum_list (map (\<lambda>kv. length (u_parents (snd kv))) (filter (\<lambda>kv. fst kv \<notin> S) m)) =
    sum_list (map (\<lambda>kv. length (u_parents (snd kv))) (filter (\<lambda>kv. fst kv \<notin> insert x S) m)) +
    (case map_of m x of Some u \<Rightarrow> length (u_parents u) | None \<Rightarrow> 0)"
  using assms
proof (induction m)
  case (Cons kv m)
  show ?case
  proof (cases "fst kv = x")
    case True
    then have "map_of m x = None" using Cons.prems by (simp add: map_of_eq_None_iff)
    then show ?thesis using Cons True by simp
  next
    case False
    then show ?thesis using Cons by simp
  qed
qed simp

lemma walk_total:
  "om_ok (by_hash h) \<Longrightarrow> length st + unseen h (set seen) \<le> k \<Longrightarrow> \<exists>s. walk k h seen st = Some s"
proof (induction k h seen st rule: walk.induct)
  case (3 k h seen x st)
  show ?case
  proof (cases "x \<in> set seen")
    case False
    have "unseen h (set seen) = unseen h (insert x (set seen)) + length (parents_of h x)"
      using unseen_insert [OF om_ok_distinct [OF "3.prems"(1)] False]
      by (simp add: unseen_def parents_of_def get_utterance_def split: option.splits)
    then show ?thesis using 3 False by simp
  qed (use 3 in simp)
qed simp_all

lemma reach_walk:
  "walk k h seen st = Some s \<Longrightarrow> a \<notin> set seen \<Longrightarrow> (\<forall>y \<in> set seen. set (parents_of h y) \<subseteq> set seen \<union> set st) \<Longrightarrow>
    reach k h a seen st = Some (a \<in> set s)"
proof (induction k h seen st rule: walk.induct)
  case (3 k h seen x st)
  have "set (x # st) \<subseteq> set s" using walk_closed [OF "3.prems"(1,3)] by blast
  moreover have "reach k h a seen st = Some (a \<in> set s)" if "x \<in> set seen"
    by (rule "3.IH"(1) [OF that]) (use 3 that in auto)
  moreover have "reach k h a (os_insert x seen) (rev (parents_of h x) @ st) = Some (a \<in> set s)"
    if "x \<notin> set seen" "a \<noteq> x"
    by (rule "3.IH"(2) [OF that(1)]) (use 3 that in auto)
  ultimately show ?case by auto
qed auto

lemma ancestry:
  assumes ok: "history_ok h" and b: "b \<in> keys h"
  shows "\<exists>s. ancestors h b = Some s \<and> set s = {a. (a, b) \<in> (par h)\<^sup>+} \<and>
    (\<forall>a \<in> keys h. is_ancestor h a b = Some ((a, b) \<in> (par h)\<^sup>+))"
proof -
  let ?st = "rev (parents_of h b)"
  have om: "om_ok (by_hash h)" using ok by (simp add: history_ok_def)
  obtain s where s: "walk (walk_fuel h b) h [] ?st = Some s"
    using walk_total [OF om, of ?st "[]" "walk_fuel h b"] by (auto simp: walk_fuel_def unseen_def)
  have closed: "set ?st \<subseteq> set s" "\<forall>y \<in> set s. set (parents_of h y) \<subseteq> set s" using walk_closed [OF s] by auto
  have set: "set s = {a. (a, b) \<in> (par h)\<^sup>+}"
  proof
    have "(a, b) \<in> (par h)\<^sup>+" if "(a, y) \<in> (par h)\<^sup>*" "y \<in> set (parents_of h b)" for a y
      using that by (auto simp: par_def intro: rtrancl_into_trancl1)
    then show "set s \<subseteq> {a. (a, b) \<in> (par h)\<^sup>+}" using walk_sound [OF s] by auto
    have "a \<in> set s" if "(a, c) \<in> (par h)\<^sup>+" "c = b \<or> c \<in> set s" for a c
      using that by (induction rule: trancl_induct) (use closed in \<open>auto simp: par_def\<close>)
    then show "{a. (a, b) \<in> (par h)\<^sup>+} \<subseteq> set s" by blast
  qed
  have "is_ancestor h a b = Some ((a, b) \<in> (par h)\<^sup>+)" if "a \<in> keys h" for a
  proof (cases "a = b")
    case True
    then show ?thesis using par_rank [OF ok] by (metis is_ancestor_def less_irrefl)
  next
    case False
    then show ?thesis using reach_walk [OF s, of a] that b set by (simp add: is_ancestor_def)
  qed
  then show ?thesis using s b set by (auto simp: ancestors_def)
qed

section \<open>One timeline\<close>

lemma release_fold:
  "om_ok m \<Longrightarrow> sorted_wrt (<) ready \<Longrightarrow> foldl release (m, ready) cs = (m', ready') \<Longrightarrow>
    om_ok m' \<and> sorted_wrt (<) ready' \<and> (\<forall>c. map_of m' c = map_option (\<lambda>n. n - count_list cs c) (map_of m c)) \<and>
    set ready' = set ready \<union> {c. \<exists>n. map_of m c = Some n \<and> 0 < n \<and> n \<le> count_list cs c}"
proof (induction cs arbitrary: m ready)
  case Nil
  then show ?case by (auto simp: option.map_ident)
next
  case (Cons d cs)
  obtain m1 r1 where r: "release (m, ready) d = (m1, r1)" by fastforce
  have m1: "om_ok m1" "sorted_wrt (<) r1"
    "map_of m1 c = (if c = d then map_option (\<lambda>n. n - 1) (map_of m c) else map_of m c)"
    "set r1 = set ready \<union> (if map_of m d = Some 1 then {d} else {})" for c
    using r Cons.prems(1,2) by (auto simp: release_def Let_def split: option.splits if_splits)
  have "foldl release (m1, r1) cs = (m', ready')" using Cons.prems(3) r by simp
  from Cons.IH [OF m1(1,2) this]
  have IH: "om_ok m'" "sorted_wrt (<) ready'" "map_of m' c = map_option (\<lambda>n. n - count_list cs c) (map_of m1 c)"
    "set ready' = set r1 \<union> {c. \<exists>n. map_of m1 c = Some n \<and> 0 < n \<and> n \<le> count_list cs c}" for c
    by auto
  have "map_of m' c = map_option (\<lambda>n. n - count_list (d # cs) c) (map_of m c)" for c
    by (cases "c = d"; cases "map_of m c") (simp_all add: IH(3) m1(3))
  moreover have "set ready' = set ready \<union> {c. \<exists>n. map_of m c = Some n \<and> 0 < n \<and> n \<le> count_list (d # cs) c}"
  proof -
    have "c \<in> set ready' \<longleftrightarrow> c \<in> set ready \<or> (\<exists>n. map_of m c = Some n \<and> 0 < n \<and> n \<le> count_list (d # cs) c)" for c
      by (cases "map_of m c"; cases "c = d") (auto simp: IH(4) m1)
    then show ?thesis by blast
  qed
  ultimately show ?case using IH(1,2) by blast
qed

text \<open>The nodes whose parents have all been shown.\<close>

definition next_up :: "history \<Rightarrow> bytes set \<Rightarrow> bytes set" where
  "next_up h D = {c \<in> keys h. c \<notin> D \<and> set (parents_of h c) \<subseteq> D}"

definition kahn_ok :: "history \<Rightarrow> bytes set \<Rightarrow> kahn_state \<Rightarrow> bool" where
  "kahn_ok h D st \<longleftrightarrow> om_ok (fst st) \<and> sorted_wrt (<) (snd st) \<and> D \<subseteq> keys h \<and> set (snd st) = next_up h D \<and>
     (\<forall>c \<in> D. set (parents_of h c) \<subseteq> D) \<and>
     (\<forall>c. map_of (fst st) c = (if c \<in> keys h then Some (length (filter (\<lambda>p. p \<notin> D) (parents_of h c))) else None))"

lemma filter_count: "x \<notin> D \<Longrightarrow>
    length (filter (\<lambda>p. p \<notin> D) ps) = length (filter (\<lambda>p. p \<notin> insert x D) ps) + count_list ps x"
  by (induction ps) auto

lemma kahn_step:
  assumes h: "history_ok h" and ok: "kahn_ok h D (m, x # ready)"
  shows "kahn_ok h (insert x D) (foldl release (m, ready) (kids_of h x))"
proof -
  obtain m' ready' where st: "foldl release (m, ready) (kids_of h x) = (m', ready')" by fastforce
  have o: "om_ok m" "sorted_wrt (<) (x # ready)" "D \<subseteq> keys h" "insert x (set ready) = next_up h D"
    "map_of m c = (if c \<in> keys h then Some (length (filter (\<lambda>p. p \<notin> D) (parents_of h c))) else None)" for c
    using ok by (auto simp: kahn_ok_def)
  have closed: "\<forall>c \<in> D. set (parents_of h c) \<subseteq> D" using ok by (simp add: kahn_ok_def)
  have x: "x \<in> keys h" "x \<notin> D" "set (parents_of h x) \<subseteq> D" using o(4) by (auto simp: next_up_def)
  have count: "count_list (kids_of h x) c = count_list (parents_of h c) x" for c using h by (simp add: history_ok_def)
  from release_fold [OF o(1) _ st] o(2)
  have r: "om_ok m'" "sorted_wrt (<) ready'" "map_of m' c = map_option (\<lambda>n. n - count_list (parents_of h c) x) (map_of m c)"
    "set ready' = set ready \<union> {c. \<exists>n. map_of m c = Some n \<and> 0 < n \<and> n \<le> count_list (parents_of h c) x}" for c
    by (auto simp: count)
  have left: "length (filter (\<lambda>p. p \<notin> D) (parents_of h c)) =
      length (filter (\<lambda>p. p \<notin> insert x D) (parents_of h c)) + count_list (parents_of h c) x" for c
    by (rule filter_count [OF x(2)])
  have none_left: "length (filter (\<lambda>p. p \<notin> E) ps) = 0 \<longleftrightarrow> set ps \<subseteq> E" for E and ps :: "bytes list"
    by (auto simp: filter_empty_conv)
  have "map_of m' c = (if c \<in> keys h then Some (length (filter (\<lambda>p. p \<notin> insert x D) (parents_of h c))) else None)" for c
    unfolding r(3) o(5) left by simp
  moreover have "set ready' = next_up h (insert x D)"
  proof -
    have "c \<in> set ready' \<longleftrightarrow> c \<in> next_up h (insert x D)" for c
    proof (cases "c \<in> keys h")
      case True
      let ?n = "length (filter (\<lambda>p. p \<notin> D) (parents_of h c))"
      have "c \<in> set ready' \<longleftrightarrow> c \<in> set ready \<or> 0 < ?n \<and> set (parents_of h c) \<subseteq> insert x D"
        using True left [of c] none_left [of "insert x D" "parents_of h c"] by (auto simp: r(4) o(5))
      moreover have "c \<in> set ready \<longleftrightarrow> c \<in> next_up h D \<and> c \<noteq> x" using o(2,4) by auto
      moreover have "?n = 0 \<longleftrightarrow> set (parents_of h c) \<subseteq> D" by (rule none_left)
      moreover have "c \<notin> D" if "0 < ?n"
      proof
        assume "c \<in> D"
        then show False using that closed none_left [of D "parents_of h c"] by simp
      qed
      ultimately show ?thesis using True x(3) by (auto simp: next_up_def)
    next
      case False
      then have "c \<notin> set ready" using o(4) by (auto simp: next_up_def)
      then show ?thesis using False by (auto simp: r(4) o(5) next_up_def)
    qed
    then show ?thesis by blast
  qed
  ultimately show ?thesis using r(1,2) o(3) x(1,3) closed unfolding st kahn_ok_def by auto
qed

lemma finite_keys: "finite (keys h)"
  by (simp add: keys_alt)

lemma nothing_next:
  assumes "history_ok h" "next_up h D = {}" "D \<subseteq> keys h"
  shows "D = keys h"
proof (rule ccontr)
  assume "D \<noteq> keys h"
  then obtain x where x: "x \<in> keys h - D" using assms(3) by blast
  obtain rank :: "bytes \<Rightarrow> nat" where r: "\<And>c p. p \<in> set (parents_of h c) \<Longrightarrow> rank p < rank c"
    using assms(1) unfolding history_ok_def by blast
  obtain c where c: "c \<in> keys h - D" "\<And>y. y \<in> keys h - D \<Longrightarrow> rank c \<le> rank y"
    using ex_has_least_nat [of "\<lambda>c. c \<in> keys h - D" x rank] x by blast
  have "p \<in> D" if "p \<in> set (parents_of h c)" for p
  proof (rule ccontr)
    assume "p \<notin> D"
    then have "p \<in> keys h - D" using parents_in_keys [OF assms(1)] that by blast
    then show False using c(2) r [OF that] by (meson not_le)
  qed
  then have "c \<in> next_up h D" using c(1) by (auto simp: next_up_def)
  then show False using assms(2) by simp
qed

text \<open>A timeline shows everything once, and next is always the smallest name that can be.\<close>

definition is_timeline :: "history \<Rightarrow> bytes set \<Rightarrow> bytes list \<Rightarrow> bool" where
  "is_timeline h D out \<longleftrightarrow> distinct out \<and> set out = keys h - D \<and>
     (\<forall>i < length out. out ! i \<in> next_up h (D \<union> set (take i out)) \<and>
        (\<forall>c \<in> next_up h (D \<union> set (take i out)). out ! i \<le> c))"

lemma is_timeline_Cons:
  assumes "x \<in> next_up h D" "\<forall>c \<in> next_up h D. x \<le> c" "is_timeline h (insert x D) out"
  shows "is_timeline h D (x # out)"
  unfolding is_timeline_def
proof (intro conjI allI impI)
  show "distinct (x # out)" "set (x # out) = keys h - D" using assms(1,3) by (auto simp: is_timeline_def next_up_def)
  fix i assume i: "i < length (x # out)"
  show "(x # out) ! i \<in> next_up h (D \<union> set (take i (x # out)))"
    using assms(1,3) i by (cases i) (auto simp: is_timeline_def)
  show "\<forall>c \<in> next_up h (D \<union> set (take i (x # out))). (x # out) ! i \<le> c"
    using assms(2,3) i by (cases i) (auto simp: is_timeline_def)
qed

lemma kahn_spec:
  "history_ok h \<Longrightarrow> kahn_ok h D st \<Longrightarrow> card (keys h - D) \<le> k \<Longrightarrow> \<exists>out. kahn k h st = Some out \<and> is_timeline h D out"
proof (induction k arbitrary: D st)
  case 0
  then have "D = keys h" using finite_keys by (auto simp: kahn_ok_def)
  then have "next_up h D = {}" by (auto simp: next_up_def)
  then have "snd st = []" using 0(2) by (simp add: kahn_ok_def)
  then have "kahn 0 h st = Some []" by (cases st) simp
  then show ?case using \<open>D = keys h\<close> by (auto simp: is_timeline_def)
next
  case (Suc k)
  obtain m ready where st: "st = (m, ready)" by (cases st)
  show ?case
  proof (cases ready)
    case Nil
    then have "next_up h D = {}" "D \<subseteq> keys h" using Suc.prems(2) by (auto simp: kahn_ok_def st)
    then have "D = keys h" using nothing_next [OF Suc.prems(1)] by blast
    then have "is_timeline h D []" by (simp add: is_timeline_def)
    then show ?thesis by (auto simp: st Nil)
  next
    case (Cons x ready')
    have "set (x # ready') = next_up h D" "sorted_wrt (<) (x # ready')"
      using Suc.prems(2) by (simp_all add: kahn_ok_def st Cons)
    then have x: "x \<in> next_up h D" "\<forall>c \<in> next_up h D. x \<le> c" by (auto simp: order.order_iff_strict)
    have "kahn_ok h (insert x D) (foldl release (m, ready') (kids_of h x))"
      using kahn_step [OF Suc.prems(1)] Suc.prems(2) by (simp add: st Cons)
    moreover have "card (keys h - insert x D) \<le> k"
    proof -
      have "x \<in> keys h - D" using x(1) by (auto simp: next_up_def)
      then have "card (keys h - D - {x}) = card (keys h - D) - 1" using finite_keys by simp
      then show ?thesis using Suc.prems(3) by (simp add: Diff_insert [symmetric])
    qed
    ultimately obtain out where "kahn k h (foldl release (m, ready') (kids_of h x)) = Some out" "is_timeline h (insert x D) out"
      using Suc.IH [OF Suc.prems(1)] by blast
    then show ?thesis using is_timeline_Cons [OF x] by (auto simp: st Cons)
  qed
qed

lemma kahn_start_ok: "history_ok h \<Longrightarrow> kahn_ok h {} (kahn_start h)"
proof -
  assume h: "history_ok h"
  then have om: "om_ok (by_hash h)" by (simp add: history_ok_def)
  have m: "map_of (map (\<lambda>kv. (fst kv, length (u_parents (snd kv)))) xs) c = map_option (\<lambda>u. length (u_parents u)) (map_of xs c)"
    for xs :: "(bytes, utterance) omap" and c
    by (induction xs) auto
  have r: "set (snd (kahn_start h)) = {c. \<exists>u. get_utterance h c = Some u \<and> u_parents u = []}"
    using om by (force simp: kahn_start_def get_utterance_def om_ok_distinct)
  have "set (snd (kahn_start h)) = next_up h {}"
    unfolding r by (auto simp: next_up_def keys_iff parents_of_def)
  moreover have "sorted_wrt (<) (snd (kahn_start h))"
    using om_ok_filter [OF om] by (simp add: kahn_start_def om_ok_def)
  moreover have "om_ok (fst (kahn_start h))" using om by (simp add: kahn_start_def om_ok_def o_def)
  moreover have "map_of (fst (kahn_start h)) c = (if c \<in> keys h then Some (length (filter (\<lambda>p. p \<notin> {}) (parents_of h c))) else None)" for c
    by (cases "map_of (by_hash h) c") (auto simp: kahn_start_def m keys_iff get_utterance_def parents_of_def)
  ultimately show ?thesis by (simp add: kahn_ok_def)
qed

lemma timeline: "history_ok h \<Longrightarrow> \<exists>out. linear_extension h = Some out \<and> is_timeline h {} out"
proof -
  assume h: "history_ok h"
  have "card (set (map fst (by_hash h))) \<le> length (map fst (by_hash h))" by (rule card_length)
  then have "card (keys h - {}) \<le> length (by_hash h)" by (simp add: keys_alt)
  then show ?thesis using kahn_spec [OF h kahn_start_ok [OF h]] by (simp add: linear_extension_def)
qed

lemma timeline_unique:
  assumes "is_timeline h D out" "is_timeline h' D out'" "keys h = keys h'" "\<And>c. set (parents_of h c) = set (parents_of h' c)"
  shows "out = out'"
proof (rule nth_equalityI)
  have nu: "next_up h E = next_up h' E" for E using assms(3,4) by (simp add: next_up_def)
  have "length out = card (keys h - D)" "length out' = card (keys h' - D)"
    using assms(1,2) distinct_card [of out] distinct_card [of out'] by (auto simp: is_timeline_def)
  then show len: "length out = length out'" using assms(3) by simp
  have "out ! i = out' ! i \<and> take i out = take i out'" if "i < length out" for i
    using that
  proof (induction i)
    case 0
    have "out ! 0 \<in> next_up h D" "\<forall>c \<in> next_up h D. out ! 0 \<le> c" "out' ! 0 \<in> next_up h' D" "\<forall>c \<in> next_up h' D. out' ! 0 \<le> c"
      using assms(1,2) 0 len unfolding is_timeline_def by (metis Un_empty_right list.set(1) take0)+
    then show ?case using nu by (simp add: order.antisym)
  next
    case (Suc i)
    then have t: "take (Suc i) out = take (Suc i) out'" using len by (simp add: take_Suc_conv_app_nth)
    have "out ! Suc i \<in> next_up h (D \<union> set (take (Suc i) out))" "\<forall>c \<in> next_up h (D \<union> set (take (Suc i) out)). out ! Suc i \<le> c"
      "out' ! Suc i \<in> next_up h' (D \<union> set (take (Suc i) out'))" "\<forall>c \<in> next_up h' (D \<union> set (take (Suc i) out')). out' ! Suc i \<le> c"
      using assms(1,2) Suc.prems len unfolding is_timeline_def by auto
    then show ?case using t nu by (metis order.antisym)
  qed
  then show "out ! i = out' ! i" if "i < length out" for i using that by blast
qed

section \<open>What arrives is placed\<close>

text \<open>The names a bag of utterances adds to those held: a sealed one arrives with its parents.\<close>

inductive arrives :: "bytes set \<Rightarrow> utterance set \<Rightarrow> bytes \<Rightarrow> bool" for K inbox where
  held_already: "x \<in> K \<Longrightarrow> arrives K inbox x"
| delivered: "u \<in> inbox \<Longrightarrow> sealed u \<Longrightarrow> \<forall>p \<in> set (u_parents u). arrives K inbox p \<Longrightarrow> arrives K inbox (u_hash u)"

text \<open>What growing by a bag of utterances keeps, whatever the order.\<close>

definition grows :: "history \<Rightarrow> utterance set \<Rightarrow> history \<Rightarrow> bool" where
  "grows h I h' \<longleftrightarrow> history_ok h' \<and> keys h \<subseteq> keys h' \<and>
     (\<forall>x u. get_utterance h x = Some u \<longrightarrow> get_utterance h' x = Some u) \<and>
     (\<forall>x u. get_utterance h' x = Some u \<longrightarrow> get_utterance h x = Some u \<or> u \<in> I) \<and>
     (\<forall>K. keys h \<subseteq> {x. arrives K I x} \<longrightarrow> keys h' \<subseteq> {x. arrives K I x})"

lemma grows_refl: "history_ok h \<Longrightarrow> grows h I h"
  by (simp add: grows_def)

lemma grows_trans: "grows h I h' \<Longrightarrow> grows h' I h'' \<Longrightarrow> grows h I h''"
  unfolding grows_def by (elim conjE) (intro conjI; blast)

lemma grows_add:
  assumes "history_ok h" "add_utterance h u = (r, h')" "u \<in> I"
  shows "grows h I h'"
proof (cases "r = added")
  case True
  note a = add_cases(2) [OF assms(1,2) True]
  have h': "h' = insert_utterance u h" using assms(2) True
    by (auto simp: add_utterance_def split: sum.splits if_splits)
  have om: "om_ok (by_hash h)" "om_ok (kids h)" using assms(1) by (simp_all add: history_ok_def)
  have get: "get_utterance h' x = (if x = u_hash u then Some u else get_utterance h x)" for x
    unfolding h' by (rule insert_fields(3) [OF om])
  have new: "get_utterance h (u_hash u) = None" using a by (simp add: keys_iff)
  have "keys h' \<subseteq> {x. arrives K I x}" if "keys h \<subseteq> {x. arrives K I x}" for K
    using a that assms(3) by (auto intro!: delivered)
  then show ?thesis using add_cases(1) [OF assms(1,2)] a get new assms(3) by (auto simp: grows_def)
next
  case False
  then show ?thesis using add_cases(1,3) [OF assms(1,2)] grows_refl by metis
qed

lemma pass_spec:
  assumes "pass h us = (h', n, progress, still)" "history_ok h" "set us \<subseteq> I"
  shows "grows h I h' \<and> card (keys h') = card (keys h) + n \<and> set still \<subseteq> set us \<and>
    (\<forall>u \<in> set us. u \<notin> set still \<longrightarrow> sealed u \<and> u_hash u \<in> keys h') \<and>
    (\<not> progress \<longrightarrow> h' = h \<and> still = us \<and> (\<forall>u \<in> set us. \<not> sealed u \<or> \<not> set (u_parents u) \<subseteq> keys h))"
  using assms
proof (induction us arbitrary: h h' n progress still)
  case Nil
  then show ?case by (simp add: grows_refl)
next
  case (Cons u us)
  obtain r h1 where a: "add_utterance h u = (r, h1)" by fastforce
  obtain h2 m pr st where p: "pass h1 us = (h2, m, pr, st)" by (metis prod_cases4)
  note add = add_cases [OF Cons.prems(2) a]
  have g: "grows h I h1" using grows_add [OF Cons.prems(2) a] Cons.prems(3) by simp
  have IH: "grows h1 I h2" "card (keys h2) = card (keys h1) + m" "set st \<subseteq> set us"
    "\<forall>u \<in> set us. u \<notin> set st \<longrightarrow> sealed u \<and> u_hash u \<in> keys h2"
    "\<not> pr \<longrightarrow> h2 = h1 \<and> st = us \<and> (\<forall>u \<in> set us. \<not> sealed u \<or> \<not> set (u_parents u) \<subseteq> keys h1)"
    using Cons.IH [OF p add(1)] Cons.prems(3) by simp_all
  have g2: "grows h I h2" "keys h1 \<subseteq> keys h2" using grows_trans [OF g IH(1)] IH(1) by (simp_all add: grows_def)
  have out: "(h', n, progress, still) = (if r = added then (h2, m + 1, True, st)
      else if r = duplicate then (h2, m, True, st) else (h2, m, pr, u # st))"
    using Cons.prems(1) by (simp add: a p)
  consider "r = added" | "r = duplicate" | "r = malformed \<or> r = missing_parent" by (cases r) auto
  then show ?case
  proof cases
    case 1
    note ad = add(2) [OF 1]
    then have "card (keys h1) = Suc (card (keys h))" using finite_keys by simp
    then show ?thesis using out 1 IH g2 ad by auto
  next
    case 2
    then have "h1 = h" "sealed u" "u_hash u \<in> keys h" using add(3,4) by auto
    then show ?thesis using out 2 IH g2 by auto
  next
    case 3
    then have "h1 = h" "\<not> sealed u \<or> \<not> set (u_parents u) \<subseteq> keys h" using add(3,5,6) by auto
    then show ?thesis using out 3 IH g2 by auto
  qed
qed

lemma receive_loop_spec:
  assumes "receive_loop h n us = (h', n', rest)" "history_ok h" "set us \<subseteq> I"
  shows "grows h I h' \<and> n' + card (keys h) = n + card (keys h') \<and> set rest \<subseteq> set us \<and>
    (\<forall>u \<in> set us. u \<notin> set rest \<longrightarrow> sealed u \<and> u_hash u \<in> keys h') \<and>
    (\<forall>u \<in> set rest. \<not> sealed u \<or> \<not> set (u_parents u) \<subseteq> keys h')"
  using assms
proof (induction h n us rule: receive_loop.induct)
  case (1 h n us)
  show ?case
  proof (cases "us = []")
    case True
    then show ?thesis using 1 by (simp add: receive_loop.simps grows_refl)
  next
    case False
    obtain h1 m pr st where p: "pass h us = (h1, m, pr, st)" by (metis prod_cases4)
    note ps = pass_spec [OF p "1.prems"(2,3)]
    show ?thesis
    proof (cases pr)
      case True
      have l: "receive_loop h1 (n + m) st = (h', n', rest)"
        using "1.prems"(1) False p True by (simp add: receive_loop.simps [of h])
      have "grows h1 I h' \<and> n' + card (keys h1) = n + m + card (keys h') \<and> set rest \<subseteq> set st \<and>
        (\<forall>u \<in> set st. u \<notin> set rest \<longrightarrow> sealed u \<and> u_hash u \<in> keys h') \<and>
        (\<forall>u \<in> set rest. \<not> sealed u \<or> \<not> set (u_parents u) \<subseteq> keys h')"
        using ps "1.prems"(3) by (intro "1.IH" [OF False p [symmetric] refl refl True l]) (simp add: grows_def, blast)
      moreover have "keys h1 \<subseteq> keys h'" using calculation by (simp add: grows_def)
      moreover have "grows h I h'" using grows_trans calculation ps by blast
      ultimately show ?thesis using ps by auto
    next
      case no: False
      then have "h' = h1" "n' = n + m" "rest = st" using "1.prems"(1) False p by (simp_all add: receive_loop.simps [of h])
      then show ?thesis using ps no by auto
    qed
  qed
qed

lemma receive_keys:
  assumes "receive h inbox = (h', n, rest)" "history_ok h"
  shows "keys h' = {x. arrives (keys h) (set inbox) x}"
proof
  note r = receive_loop_spec [OF assms(1) [unfolded receive_def] assms(2) subset_refl]
  show "keys h' \<subseteq> {x. arrives (keys h) (set inbox) x}" using r by (auto simp: grows_def intro: held_already)
  have "x \<in> keys h'" if "arrives (keys h) (set inbox) x" for x
    using that
  proof induction
    case (held_already x)
    then show ?case using r by (auto simp: grows_def)
  next
    case (delivered u)
    then show ?case using r by blast
  qed
  then show "{x. arrives (keys h) (set inbox) x} \<subseteq> keys h'" by blast
qed

lemma absorb_spec:
  assumes "absorb h other = (h', n)" "history_ok h" "history_ok other"
  shows "history_ok h' \<and> keys h' = keys h \<union> keys other \<and> n = card (keys other - keys h) \<and>
    receive h (map snd (by_hash other)) = (h', n, [])"
proof -
  let ?box = "map snd (by_hash other)"
  obtain rest where r: "receive h ?box = (h', n, rest)"
    using assms(1) by (auto simp: absorb_def Let_def split: prod.splits)
  note s = receive_loop_spec [OF r [unfolded receive_def] assms(2) subset_refl]
  have om: "om_ok (by_hash other)" using assms(3) by (simp add: history_ok_def)
  have mem: "u \<in> set ?box \<longleftrightarrow> get_utterance other (u_hash u) = Some u" for u
  proof -
    have "u \<in> set ?box \<longleftrightarrow> (\<exists>k. get_utterance other k = Some u)"
      using om by (force simp: get_utterance_def om_ok_distinct)
    then show ?thesis using assms(3) unfolding history_ok_def by metis
  qed
  have sealed: "sealed u" "set (u_parents u) \<subseteq> keys other" if "u \<in> set ?box" for u
    using that mem assms(3) unfolding history_ok_def by blast+
  obtain rank :: "bytes \<Rightarrow> nat" where rank: "\<And>c p. p \<in> set (parents_of other c) \<Longrightarrow> rank p < rank c"
    using assms(3) unfolding history_ok_def by blast
  have arr: "arrives (keys h) (set ?box) x" if "x \<in> keys other" for x
    using that
  proof (induction "rank x" arbitrary: x rule: less_induct)
    case less
    then obtain u where u: "get_utterance other x = Some u" by (auto simp: keys_iff)
    then have hx: "u_hash u = x" using assms(3) unfolding history_ok_def by blast
    then have in_box: "u \<in> set ?box" using mem u by simp
    have "arrives (keys h) (set ?box) p" if "p \<in> set (u_parents u)" for p
    proof (rule less.hyps)
      show "rank p < rank x" using rank that u by (simp add: parents_of_def)
      show "p \<in> keys other" using sealed(2) [OF in_box] that by blast
    qed
    then have "arrives (keys h) (set ?box) (u_hash u)" using in_box sealed(1) [OF in_box] by (intro delivered) auto
    then show ?case using hx by simp
  qed
  have within: "x \<in> keys h \<or> x \<in> keys other" if "arrives (keys h) (set ?box) x" for x
    using that
  proof cases
    case (delivered u)
    then show ?thesis using mem by (auto simp: keys_iff)
  qed simp
  have k: "keys h' = keys h \<union> keys other"
    unfolding receive_keys [OF r assms(2)] using arr within by (auto intro: held_already)
  have "rest = []"
  proof (rule ccontr)
    assume "rest \<noteq> []"
    then obtain u where "u \<in> set rest" by (cases rest) auto
    then show False using s sealed k by blast
  qed
  moreover have "card (keys h \<union> keys other) = card (keys h) + card (keys other - keys h)"
    using card_Un_disjoint [OF finite_keys, of "keys other - keys h" h] finite_keys [of other] by simp
  ultimately show ?thesis using s k r by (auto simp: grows_def)
qed

section \<open>A journal recorded onto the heads\<close>

lemma heads_in_keys: "set (heads h) \<subseteq> keys h"
  by (auto simp: heads_def keys_alt)

lemma add_chain:
  assumes "history_ok h" "list_all2 (records_entry grp) us es" "\<forall>u \<in> set us. u_hash u \<noteq> []"
    "map u_parents us = take (length us) (ps # map (\<lambda>u. [u_hash u]) us)" "set ps \<subseteq> keys h"
  defines "h' \<equiv> foldl (\<lambda>h u. snd (add_utterance h u)) h us"
  shows "history_ok h' \<and> keys h' = keys h \<union> u_hash ` set us"
  using assms(1-5) unfolding h'_def
proof (induction us arbitrary: h es ps)
  case (Cons u us)
  then obtain e es' where es: "es = e # es'" "records_entry grp u e" "list_all2 (records_entry grp) us es'"
    by (cases es) auto
  obtain r h1 where a: "add_utterance h u = (r, h1)" by fastforce
  have p: "u_parents u = ps" "map u_parents us = take (length us) ([u_hash u] # map (\<lambda>u. [u_hash u]) us)"
    using Cons.prems(4) by auto
  have "sealed u" using es(2) Cons.prems(3) by (simp add: sealed_def records_entry_def)
  then have h1: "history_ok h1" "keys h1 = insert (u_hash u) (keys h)"
    using add_cases [OF Cons.prems(1) a] Cons.prems(5) p(1) by (cases r; auto)+
  from Cons.IH [OF h1(1) es(3) _ p(2)] h1(2) Cons.prems(3) show ?case by (simp add: a)
qed simp

lemma list_all2_left: "list_all2 P xs ys \<Longrightarrow> x \<in> set xs \<Longrightarrow> \<exists>y \<in> set ys. P x y"
  by (induction rule: list_all2_induct) auto

lemma record_spec:
  assumes "record_entries h es grp = Inr (r, h')" "history_ok h"
  shows "history_ok h' \<and> keys h' = keys h \<union> u_hash ` set (recorded r)"
proof -
  have i: "ingest_loop grp (sort_unique (heads h)) es = Inr r"
    "h' = foldl (\<lambda>h u. snd (add_utterance h u)) h (recorded r)"
    using assms(1) by (auto simp: record_entries_def ingest_def cbind_Inr)
  note s = ingest_loop_spec [OF i(1) strict_sorted_sort_unique]
  have "u_hash u \<noteq> []" if u: "u \<in> set (recorded r)" for u
  proof -
    obtain e where "records_entry grp u e" using list_all2_left [OF conjunct1 [OF conjunct2 [OF s]] u] by blast
    then show ?thesis using name_form [of u] by (auto simp: records_entry_def)
  qed
  then show ?thesis
    using add_chain [OF assms(2) conjunct1 [OF conjunct2 [OF s]] _ conjunct2 [OF conjunct2 [OF s]]] heads_in_keys [of h] i(2)
    by simp
qed

lemma heads_maximal:
  assumes ok: "history_ok h"
  shows "sorted (heads h)" "set (heads h) = {x \<in> keys h. \<forall>c. (x, c) \<notin> (par h)\<^sup>+}"
    and "x \<in> keys h \<Longrightarrow> \<exists>m \<in> set (heads h). (x, m) \<in> (par h)\<^sup>*"
proof -
  show "sorted (heads h)" by (simp add: heads_def)
  have leaf: "kids_of h x = [] \<longleftrightarrow> (\<forall>c. (x, c) \<notin> par h)" for x
  proof -
    have "set (kids_of h x) = {c. (x, c) \<in> par h}" using kids_iff [OF ok] by (auto simp: par_def)
    then show ?thesis by (metis (no_types, lifting) empty_Collect_eq set_empty)
  qed
  have trans: "(\<forall>c. (x, c) \<notin> par h) \<longleftrightarrow> (\<forall>c. (x, c) \<notin> (par h)\<^sup>+)" for x
    by (metis r_into_trancl' tranclD)
  have "set (heads h) = {x \<in> keys h. kids_of h x = []}" by (auto simp: heads_def keys_alt)
  then show heads: "set (heads h) = {x \<in> keys h. \<forall>c. (x, c) \<notin> (par h)\<^sup>+}" using leaf trans by simp
  obtain rank :: "bytes \<Rightarrow> nat" where rank: "\<And>p c. (p, c) \<in> (par h)\<^sup>+ \<Longrightarrow> rank p < rank c"
    using par_rank [OF ok] by blast
  define top where "top = Max (rank ` keys h)"
  have child: "c \<in> keys h" if "(x, c) \<in> par h" for x c
    using that by (cases "get_utterance h c") (auto simp: par_def parents_of_def keys_iff)
  show "x \<in> keys h \<Longrightarrow> \<exists>m \<in> set (heads h). (x, m) \<in> (par h)\<^sup>*"
  proof (induction "top - rank x" arbitrary: x rule: less_induct)
    case less
    show ?case
    proof (cases "\<exists>c. (x, c) \<in> par h")
      case True
      then obtain c where c: "(x, c) \<in> par h" by blast
      have "rank x < rank c" using rank c by blast
      moreover have "rank c \<le> top" unfolding top_def using child [OF c] finite_keys by simp
      ultimately have "top - rank c < top - rank x" by simp
      from less.hyps [OF this child [OF c]] show ?thesis using c by (meson converse_rtrancl_into_rtrancl)
    next
      case False
      then have "x \<in> set (heads h)" using less.prems heads trans by blast
      then show ?thesis by blast
    qed
  qed
qed

section \<open>What a history promises\<close>

text \<open>C30. Every way a history grows keeps it well formed: closed under parents, each utterance
  under its own name, the index of children exact, and without a cycle.\<close>

theorem history_invariant:
  assumes "history_ok h"
  shows "history_ok (snd (add_utterance h u)) \<and>
    (\<forall>r h'. record_entries h es grp = Inr (r, h') \<longrightarrow> history_ok h' \<and> keys h' = keys h \<union> u_hash ` set (recorded r)) \<and>
    history_ok (fst (receive h inbox)) \<and> history_ok (fst (absorb h other)) \<and>
    (\<forall>h'. history_from_json obj = Inr h' \<longrightarrow> history_ok h')"
proof (intro conjI allI impI)
  have receive: "history_ok (fst (receive_loop h1 n us))" if "history_ok h1" for h1 n us
  proof -
    obtain h2 m rest where r: "receive_loop h1 n us = (h2, m, rest)" by (metis prod_cases3)
    then show ?thesis using receive_loop_spec [OF r that subset_refl] by (simp add: grows_def)
  qed
  show "history_ok (snd (add_utterance h u))"
    using add_cases(1) [OF assms, of u "fst (add_utterance h u)"] by simp
  show "history_ok h'" "keys h' = keys h \<union> u_hash ` set (recorded r)" if "record_entries h es grp = Inr (r, h')" for r h'
    using record_spec [OF that assms] by simp_all
  show "history_ok (fst (receive h inbox))" unfolding receive_def by (rule receive [OF assms])
  show "history_ok (fst (absorb h other))"
    using receive [OF assms, of 0 "map snd (by_hash other)"] by (auto simp: absorb_def receive_def Let_def split: prod.split)
  show "history_ok h'" if from_json: "history_from_json obj = Inr h'" for h'
  proof -
    obtain us where "h' = fst (receive_loop history_new 0 us)"
    proof -
      obtain us where us: "parse_utterances (children (get obj (ascii ''utterances''))) = Inr us"
        using from_json by (cases "parse_utterances (children (get obj (ascii ''utterances'')))")
          (simp_all add: history_from_json_def Let_def split: if_splits)
      obtain h1 n rest where r: "receive_loop history_new 0 us = (h1, n, rest)" by (metis prod_cases3)
      have "h1 = h'" using from_json by (simp add: history_from_json_def Let_def us r split: if_splits)
      then show thesis using that [of us] r by simp
    qed
    then show ?thesis using receive [OF history_new_ok] by simp
  qed
qed

text \<open>The walks end; they find exactly the utterances reachable over parents, and no utterance
  is its own ancestor.\<close>

theorem ancestry_exact:
  assumes "history_ok h" "b \<in> keys h"
  shows "(\<exists>s. ancestors h b = Some s \<and> set s = {a. (a, b) \<in> (par h)\<^sup>+}) \<and> (b, b) \<notin> (par h)\<^sup>+ \<and>
    (\<forall>a \<in> keys h. is_ancestor h a b = Some ((a, b) \<in> (par h)\<^sup>+) \<and>
       concurrent h a b = Some (a \<noteq> b \<and> (a, b) \<notin> (par h)\<^sup>+ \<and> (b, a) \<notin> (par h)\<^sup>+))"
proof -
  have irr: "(x, x) \<notin> (par h)\<^sup>+" for x using par_rank [OF assms(1)] by (metis less_irrefl)
  have anc: "is_ancestor h x y = Some ((x, y) \<in> (par h)\<^sup>+)" if "x \<in> keys h" "y \<in> keys h" for x y
    using ancestry [OF assms(1) that(2)] that(1) by blast
  have "concurrent h a b = Some (a \<noteq> b \<and> (a, b) \<notin> (par h)\<^sup>+ \<and> (b, a) \<notin> (par h)\<^sup>+)" if "a \<in> keys h" for a
    using anc [OF that assms(2)] anc [OF assms(2) that] that assms(2)
    by (cases "(a, b) \<in> (par h)\<^sup>+") (auto simp: concurrent_def irr)
  then show ?thesis using ancestry [OF assms] irr anc [OF _ assms(2)] by blast
qed

text \<open>C32. The timeline shows every utterance once, after its parents, the smallest name first; a
  history with the same utterances has the same timeline, in whatever order it was built.\<close>

theorem timeline_exact:
  assumes "history_ok h"
  shows "\<exists>out. linear_extension h = Some out \<and> is_timeline h {} out \<and>
    (\<forall>h'. history_ok h' \<and> by_hash h' = by_hash h \<longrightarrow> linear_extension h' = Some out)"
proof -
  obtain out where out: "linear_extension h = Some out" "is_timeline h {} out" using timeline [OF assms] by blast
  have "linear_extension h' = Some out" if h': "history_ok h'" "by_hash h' = by_hash h" for h'
  proof -
    obtain out' where o': "linear_extension h' = Some out'" "is_timeline h' {} out'" using timeline [OF h'(1)] by blast
    have "keys h = keys h'" "parents_of h c = parents_of h' c" for c
      using h'(2) by (simp_all add: keys_alt parents_of_def get_utterance_def)
    then have "out = out'" by (intro timeline_unique [OF out(2) o'(2)]) simp_all
    then show ?thesis using o'(1) by simp
  qed
  then show ?thesis using out by blast
qed

text \<open>The heads are the maximal utterances, in order, and everything held is below one of them:
  they name the whole cut.\<close>

theorem heads_exact:
  assumes "history_ok h"
  shows "sorted (heads h) \<and> set (heads h) = {x \<in> keys h. \<forall>c. (x, c) \<notin> (par h)\<^sup>+} \<and>
    keys h = {x. \<exists>m \<in> set (heads h). (x, m) \<in> (par h)\<^sup>*}"
proof -
  have "x \<in> keys h" if "(x, m) \<in> (par h)\<^sup>*" "m \<in> set (heads h)" for x m
    using that(1)
  proof (cases rule: converse_rtranclE)
    case base
    then show ?thesis using that(2) heads_in_keys by blast
  next
    case (step y)
    then show ?thesis using parents_in_keys [OF assms] by (auto simp: par_def)
  qed
  then show ?thesis using heads_maximal [OF assms] by blast
qed

text \<open>C31. A bag of utterances in any order, with losses and repetitions: what can be placed is placed,
  and what is handed back is broken or misses a parent.\<close>

theorem receive_exact:
  assumes "history_ok h" "receive h inbox = (h', n, rest)"
  shows "keys h' = {x. arrives (keys h) (set inbox) x} \<and> n = card (keys h' - keys h) \<and>
    (\<forall>u \<in> set rest. u \<in> set inbox \<and> (\<not> sealed u \<or> \<not> set (u_parents u) \<subseteq> keys h')) \<and>
    (\<forall>u \<in> set inbox - set rest. sealed u \<and> u_hash u \<in> keys h')"
proof -
  note s = receive_loop_spec [OF assms(2) [unfolded receive_def] assms(1) subset_refl]
  then have "keys h \<subseteq> keys h'" by (simp add: grows_def)
  then have "card (keys h' - keys h) + card (keys h) = card (keys h')"
    using finite_keys by (simp add: card_Diff_subset card_mono)
  then show ?thesis using s receive_keys [OF assms(2,1)] by auto
qed

text \<open>A graph is merged whole or not at all.\<close>

theorem absorb_whole:
  assumes "history_ok h" "history_ok other"
  shows "\<exists>h'. absorb h other = (h', card (keys other - keys h)) \<and> keys h' = keys h \<union> keys other \<and>
    receive h (map snd (by_hash other)) = (h', card (keys other - keys h), [])"
proof -
  obtain h' n where a: "absorb h other = (h', n)" by fastforce
  then show ?thesis using absorb_spec [OF a assms] by auto
qed

section \<open>At concrete inputs\<close>

text \<open>A note and an edit that follows it.\<close>

definition next_utterance :: utterance where
  "next_utterance = (case seal (of_entry [] [u_hash note_utterance] note_entry) of Inr u \<Rightarrow> u)"

lemma next_sealed:
  "u_parents next_utterance = [u_hash note_utterance]" "sealed next_utterance" "sealed note_utterance"
proof -
  let ?u = "of_entry [] [u_hash note_utterance] note_entry"
  have one: "sort_unique [x] = [x]" for x :: bytes by (simp add: sort_unique_def)
  have "text_ok (of_entry [] [] note_entry)" by code_simp
  then have "text_ok ?u" using name_valid [OF note_sealed(3)] by (simp add: text_ok_def of_entry_def)
  moreover have "?u\<lparr> u_parents := sort_unique (u_parents ?u) \<rparr> = ?u" by (simp add: of_entry_def one)
  ultimately obtain u where u: "seal ?u = Inr u" using name_exists by (fastforce simp: seal_def Let_def cbind_def)
  then have next': "next_utterance = u" by (simp add: next_utterance_def)
  show "u_parents next_utterance = [u_hash note_utterance]"
    using seal_spec [OF u] by (simp add: next' of_entry_def one) (metis utterance.select_convs(2) utterance.update_convs(2))
  show "sealed next_utterance" "sealed note_utterance"
    using seal_spec [OF u] note_sealed(3) name_form [of u] name_form [of note_utterance] by (simp_all add: next' sealed_def)
qed

definition note_history :: history where
  "note_history = snd (add_utterance (snd (add_utterance history_new note_utterance)) next_utterance)"

lemma note_history_ok: "history_ok note_history" "u_hash note_utterance \<in> keys note_history"
proof -
  obtain r h1 where a: "add_utterance history_new note_utterance = (r, h1)" by fastforce
  obtain q h2 where b: "add_utterance h1 next_utterance = (q, h2)" by fastforce
  note ac = add_cases [OF history_new_ok a]
  have h1: "history_ok h1" "u_hash note_utterance \<in> keys h1"
    using ac next_sealed(3) note_fields(1) by (cases r; simp)+
  note bc = add_cases [OF h1(1) b]
  have "keys h1 \<subseteq> keys h2" using bc(2,3) by (cases "q = added") auto
  moreover have "note_history = h2" by (simp add: note_history_def a b)
  ultimately show "history_ok note_history" "u_hash note_utterance \<in> keys note_history"
    using bc(1) h1(2) by auto
qed

theorem history_invariant_witness:
  "history_ok (snd (add_utterance history_new note_utterance)) \<and>
   history_ok (fst (receive history_new [next_utterance, note_utterance]))"
  using history_invariant [OF history_new_ok] by blast

theorem ancestry_exact_witness:
  "concurrent note_history (u_hash note_utterance) (u_hash note_utterance) = Some False"
  using ancestry_exact [OF note_history_ok] note_history_ok(2) by simp

theorem timeline_exact_witness:
  "\<exists>out. linear_extension note_history = Some out \<and> is_timeline note_history {} out"
  using timeline_exact [OF note_history_ok(1)] by blast

theorem heads_exact_witness:
  "\<exists>m \<in> set (heads note_history). (u_hash note_utterance, m) \<in> (par note_history)\<^sup>*"
  using heads_exact [OF note_history_ok(1)] note_history_ok(2) by blast

theorem receive_exact_witness:
  "\<exists>h n rest. receive history_new [next_utterance, note_utterance] = (h, n, rest) \<and>
     u_hash note_utterance \<in> keys h \<and> u_hash next_utterance \<in> keys h"
proof -
  obtain h n rest where r: "receive history_new [next_utterance, note_utterance] = (h, n, rest)" by (metis prod_cases3)
  let ?arr = "arrives (keys history_new) (set [next_utterance, note_utterance])"
  have a: "?arr (u_hash note_utterance)"
    by (rule delivered) (simp_all add: next_sealed note_fields)
  have "?arr (u_hash next_utterance)"
    by (rule delivered) (use a in \<open>simp_all add: next_sealed\<close>)
  then show ?thesis using receive_exact [OF history_new_ok r] a r by auto
qed

theorem absorb_whole_witness:
  "\<exists>h. absorb history_new note_history = (h, card (keys note_history)) \<and> keys h = keys note_history"
  using absorb_whole [OF history_new_ok note_history_ok(1)] by auto

end
