(* ===== verification/Chunking.thy ===== *)
theory Chunking
  imports Prelude
begin

text \<open>
  Content-defined chunking (\<^verbatim>\<open>src/store/chunk.cpp\<close>): the gear table, the cut conditions and the
  loop that splits a byte range. The loop is a partial function: with a \<^verbatim>\<open>max_size\<close> of zero the
  code never returns. A \<^verbatim>\<open>size_t\<close> is a natural number (a byte range has fewer than \<open>2 ^ 64\<close>
  bytes); the hash is a \<open>64 word\<close> and wraps.
\<close>

unbundle bit_operations_syntax

section \<open>The gear table\<close>

definition golden :: "64 word" where "golden = 0x9E3779B97F4A7C15"

definition splitmix :: "64 word \<Rightarrow> 64 word" where
  "splitmix x =
     (let z = (x XOR drop_bit 30 x) * 0xBF58476D1CE4E5B9;
          z = (z XOR drop_bit 27 z) * 0x94D049BB133111EB
      in z XOR drop_bit 31 z)"

fun gear_from :: "nat \<Rightarrow> 64 word \<Rightarrow> 64 word list" where
  "gear_from 0 x = []"
| "gear_from (Suc n) x = splitmix (x + golden) # gear_from n (x + golden)"

definition gear_table :: "64 word list" where
  "gear_table = gear_from 256 golden"

definition gear :: "byte \<Rightarrow> 64 word" where
  "gear b = gear_table ! unat b"

section \<open>Cut conditions\<close>

record chunk_params =
  min_size :: nat
  avg_size :: nat
  max_size :: nat

definition default_params :: chunk_params where
  "default_params = \<lparr> min_size = 2 * 1024, avg_size = 8 * 1024, max_size = 64 * 1024 \<rparr>"

text \<open>The loop of \<^verbatim>\<open>cut_bits\<close>: the first power of two that reaches the average.\<close>

function reach_bits :: "nat \<Rightarrow> nat \<Rightarrow> nat" where
  "reach_bits avg bits = (if 2 ^ bits < avg then reach_bits avg (bits + 1) else bits)"
  by pat_completeness auto
termination
  by (relation "measure (\<lambda>(avg, bits). avg - 2 ^ bits)") (auto intro!: diff_less_mono2)

declare reach_bits.simps [simp del]

definition cut_bits :: "nat \<Rightarrow> int \<Rightarrow> int" where
  "cut_bits avg extra =
     (let bits = int (reach_bits avg 0) + extra;
          bits = (if bits < 1 then 1 else bits)
      in if bits > 40 then 40 else bits)"

definition is_cut :: "64 word \<Rightarrow> int \<Rightarrow> bool" where
  "is_cut h bits \<longleftrightarrow> drop_bit (nat (64 - bits)) h = 0"

definition kWindow :: nat where "kWindow = 64"

section \<open>The loop\<close>

definition roll :: "64 word \<Rightarrow> byte \<Rightarrow> 64 word" where
  "roll h c = push_bit 1 h + gear c"

text \<open>A scan: from \<open>i\<close> up to a limit, stopping on the byte after which the hash says to cut.\<close>

function scan :: "bytes \<Rightarrow> int \<Rightarrow> nat \<Rightarrow> nat \<Rightarrow> 64 word \<Rightarrow> nat \<times> 64 word" where
  "scan b bits stop i h =
     (if i < stop then
        let h = roll h (b ! i) in if is_cut h bits then (i, h) else scan b bits stop (i + 1) h
      else (i, h))"
  by pat_completeness auto
termination
  by (relation "measure (\<lambda>(b, bits, stop, i, h). stop - i)") auto

declare scan.simps [simp del]

definition prime_hash :: "chunk_params \<Rightarrow> bytes \<Rightarrow> 64 word" where
  "prime_hash p b =
     (let from = (if min_size p > kWindow then min_size p - kWindow else 0)
      in foldl roll 0 (map (\<lambda>j. b ! j) [from..<min_size p]))"

text \<open>The size of the next chunk of \<open>b\<close>, the bytes from \<^verbatim>\<open>start\<close> on.\<close>

definition chunk_size :: "chunk_params \<Rightarrow> bytes \<Rightarrow> nat" where
  "chunk_size p b =
     (let remaining = length b in
      if remaining \<le> min_size p then remaining
      else
        let limit = (if remaining < max_size p then remaining else max_size p);
            normal = (if remaining < avg_size p then remaining else avg_size p);
            (i, h) = scan b (cut_bits (avg_size p) 2) normal (min_size p) (prime_hash p b);
            i = (if i \<ge> normal then fst (scan b (cut_bits (avg_size p) (- 2)) limit i h) else i);
            size = (if i < limit then i + 1 else limit)
        in if size > remaining then remaining else size)"

partial_function (option) chunk :: "chunk_params \<Rightarrow> bytes \<Rightarrow> nat list option" where
  "chunk p b =
     (if b = [] then Some []
      else if length b \<le> min_size p then Some [length b]
      else Option.bind (chunk p (drop (chunk_size p b) b)) (\<lambda>ns. Some (chunk_size p b # ns)))"

section \<open>What chunking promises\<close>

lemma scan_bounds: "i \<le> fst (scan b bits stop i h) \<and> fst (scan b bits stop i h) \<le> max i stop"
proof (induction b bits stop i h rule: scan.induct)
  case (1 b bits stop i h)
  then show ?case by (subst (1 2) scan.simps) (auto simp: Let_def)
qed

text \<open>The index the two scans stop at is at least the minimum.\<close>

lemma chunk_size_index:
  assumes "\<not> length b \<le> min_size p"
  obtains i where "min_size p \<le> i"
    "chunk_size p b = min (length b) (if i < min (length b) (max_size p) then i + 1 else min (length b) (max_size p))"
proof -
  let ?normal = "min (length b) (avg_size p)"
  let ?limit = "min (length b) (max_size p)"
  let ?s = "scan b (cut_bits (avg_size p) 2) ?normal (min_size p) (prime_hash p b)"
  let ?i = "if fst ?s \<ge> ?normal then fst (scan b (cut_bits (avg_size p) (- 2)) ?limit (fst ?s) (snd ?s)) else fst ?s"
  have m: "(if length b < n then length b else n) = min (length b) n" for n by simp
  have "min_size p \<le> fst ?s" using scan_bounds by blast
  moreover have "fst ?s \<le> ?i" using scan_bounds by simp
  ultimately have "min_size p \<le> ?i" by (rule order_trans)
  moreover have "chunk_size p b = min (length b) (if ?i < ?limit then ?i + 1 else ?limit)"
    using assms by (simp only: chunk_size_def Let_def m case_prod_beta if_False)
  ultimately show ?thesis by (rule that)
qed

lemma chunk_size_bounds:
  assumes "b \<noteq> []" "0 < max_size p"
  shows "0 < chunk_size p b" "chunk_size p b \<le> length b"
    "chunk_size p b \<le> max (max_size p) (min_size p)"
    "min_size p \<le> max_size p \<Longrightarrow> chunk_size p b < length b \<Longrightarrow> min_size p \<le> chunk_size p b"
proof -
  have "0 < chunk_size p b \<and> chunk_size p b \<le> length b \<and> chunk_size p b \<le> max (max_size p) (min_size p) \<and>
      (min_size p \<le> max_size p \<longrightarrow> chunk_size p b < length b \<longrightarrow> min_size p \<le> chunk_size p b)"
  proof (cases "length b \<le> min_size p")
    case True
    then show ?thesis using assms by (simp add: chunk_size_def)
  next
    case False
    then obtain i where "min_size p \<le> i"
      "chunk_size p b = min (length b) (if i < min (length b) (max_size p) then i + 1 else min (length b) (max_size p))"
      by (rule chunk_size_index)
    then show ?thesis using assms False by (auto simp: min_def)
  qed
  then show "0 < chunk_size p b" "chunk_size p b \<le> length b"
    "chunk_size p b \<le> max (max_size p) (min_size p)"
    "min_size p \<le> max_size p \<Longrightarrow> chunk_size p b < length b \<Longrightarrow> min_size p \<le> chunk_size p b"
    by blast+
qed

lemma chunk_exists:
  assumes "0 < max_size p"
  shows "\<exists>ns. chunk p b = Some ns \<and> sum_list ns = length b \<and>
    (\<forall>n \<in> set ns. 0 < n \<and> n \<le> max (max_size p) (min_size p)) \<and>
    (min_size p \<le> max_size p \<longrightarrow> (\<forall>n \<in> set (butlast ns). min_size p \<le> n))"
proof (induction b rule: measure_induct_rule [of length])
  case (less b)
  show ?case
  proof (cases "b = [] \<or> length b \<le> min_size p")
    case True
    then show ?thesis by (subst chunk.simps) auto
  next
    case False
    let ?n = "chunk_size p b"
    note bd = chunk_size_bounds [of b p]
    have shorter: "length (drop ?n b) < length b" using bd(1) False assms by simp
    obtain ns where ns: "chunk p (drop ?n b) = Some ns" "sum_list ns = length b - ?n"
      "\<forall>n \<in> set ns. 0 < n \<and> n \<le> max (max_size p) (min_size p)"
      "min_size p \<le> max_size p \<longrightarrow> (\<forall>n \<in> set (butlast ns). min_size p \<le> n)"
      using less.IH [OF shorter] by auto
    have "chunk p b = Some (?n # ns)" using False ns(1) by (subst chunk.simps) simp
    moreover have "?n < length b" if "ns \<noteq> []"
      using that ns(2,3) by (cases ns) auto
    moreover have "0 < ?n" "?n \<le> length b" "?n \<le> max (max_size p) (min_size p)"
      using bd(1-3) False assms by simp_all
    moreover have "min_size p \<le> n" if "min_size p \<le> max_size p" "n \<in> set (butlast (?n # ns))" for n
    proof (cases "ns = []")
      case nonempty: False
      then have "n = ?n \<or> n \<in> set (butlast ns)" using that(2) by simp
      then show ?thesis
        using ns(4) that(1) bd(4) nonempty \<open>ns \<noteq> [] \<Longrightarrow> ?n < length b\<close> False assms by auto
    qed (use that(2) in simp)
    ultimately show ?thesis using ns(2,3) by (intro exI [of _ "?n # ns"]) simp
  qed
qed

text \<open>A chunk is decided by the bytes up to the limit: what follows does not matter.\<close>

definition reach :: "chunk_params \<Rightarrow> nat" where
  "reach p = max (Suc (min_size p)) (max (max_size p) (avg_size p))"

lemma scan_cong: "(\<And>j. i \<le> j \<Longrightarrow> j < stop \<Longrightarrow> b ! j = c ! j) \<Longrightarrow> scan b bits stop i h = scan c bits stop i h"
proof (induction b bits stop i h rule: scan.induct)
  case (1 b bits stop i h)
  show ?case
  proof (cases "i < stop")
    case True
    then have "b ! i = c ! i" using "1.prems" by simp
    moreover have "scan b bits stop (i + 1) h' = scan c bits stop (i + 1) h'" if "h' = roll h (b ! i)" "\<not> is_cut h' bits" for h'
      using "1.IH" [OF True that] "1.prems" by simp
    ultimately show ?thesis using True by (subst (1 2) scan.simps) (simp add: Let_def)
  qed (subst (1 2) scan.simps, simp)
qed

lemma chunk_size_append:
  assumes "reach p \<le> length b"
  shows "chunk_size p (b @ x) = chunk_size p b"
proof -
  have l: "min_size p < length b" "max_size p \<le> length b" "avg_size p \<le> length b"
    using assms by (auto simp: reach_def)
  have a: "(b @ x) ! j = b ! j" if "j < length b" for j using that by (simp add: nth_append)
  have "map (\<lambda>j. (b @ x) ! j) [k..<min_size p] = map (\<lambda>j. b ! j) [k..<min_size p]" for k
    using l(1) a by simp
  then have h: "prime_hash p (b @ x) = prime_hash p b" by (simp only: prime_hash_def Let_def)
  have s: "scan (b @ x) bits stop i h = scan b bits stop i h" if "stop \<le> length b" for bits stop i h
    using that by (intro scan_cong a) simp
  have m: "(if n < max_size p then n else max_size p) = max_size p"
    "(if n < avg_size p then n else avg_size p) = avg_size p" if "length b \<le> n" for n
    using that l by auto
  show ?thesis
    using l scan_bounds [of "min_size p" b "cut_bits (avg_size p) 2" "avg_size p" "prime_hash p b"]
    by (simp add: chunk_size_def Let_def h s m case_prod_beta)
qed

text \<open>C39. With a maximum above zero the loop ends, and the chunks are the whole range: in order,
  none empty, none longer than the maximum (or than the minimum, if that is larger), and all but
  the last no shorter than the minimum.\<close>

theorem chunking_ends:
  assumes "0 < max_size p"
  shows "\<exists>ns. chunk p b = Some ns \<and> sum_list ns = length b \<and>
    (\<forall>n \<in> set ns. 0 < n \<and> n \<le> max (max_size p) (min_size p)) \<and>
    (min_size p \<le> max_size p \<longrightarrow> (\<forall>n \<in> set (butlast ns). min_size p \<le> n))"
  using assms by (rule chunk_exists)

text \<open>C40. Appending disturbs the end only: the chunks of a longer range begin with the same chunks, up
  to one that starts less than one reach from the old end.\<close>

theorem appending_keeps_chunks:
  assumes "0 < max_size p"
  shows "\<exists>ks rest ns. chunk p b = Some (ks @ rest) \<and> chunk p (b @ x) = Some (ks @ ns) \<and>
    length b < sum_list ks + reach p"
proof (induction b rule: measure_induct_rule [of length])
  case (less b)
  show ?case
  proof (cases "length b < reach p")
    case True
    obtain rest ns where "chunk p b = Some rest" "chunk p (b @ x) = Some ns"
      using chunk_exists [OF assms, of b] chunk_exists [OF assms, of "b @ x"] by auto
    with True have "chunk p b = Some ([] @ rest) \<and> chunk p (b @ x) = Some ([] @ ns) \<and> length b < sum_list [] + reach p"
      by simp
    then show ?thesis by blast
  next
    case False
    let ?n = "chunk_size p b"
    have b: "b \<noteq> []" "min_size p < length b" using False by (auto simp: reach_def)
    note bd = chunk_size_bounds [OF b(1) assms]
    have "length (drop ?n b) < length b" using bd(1) b by simp
    from less.IH [OF this] obtain ks rest ns where r:
      "chunk p (drop ?n b) = Some (ks @ rest)" "chunk p (drop ?n b @ x) = Some (ks @ ns)"
      "length (drop ?n b) < sum_list ks + reach p"
      by blast
    have "chunk p b = Some ((?n # ks) @ rest)" using b r(1) by (subst chunk.simps) simp
    moreover have "chunk_size p (b @ x) = ?n" using False by (intro chunk_size_append) simp
    then have "chunk p (b @ x) = Some ((?n # ks) @ ns)"
      using b r(2) bd(2) by (subst chunk.simps) simp
    moreover have "length b < sum_list (?n # ks) + reach p" using r(3) bd(2) by simp
    ultimately show ?thesis by blast
  qed
qed

section \<open>At concrete inputs\<close>

definition tiny_params :: chunk_params where
  "tiny_params = \<lparr> min_size = 1, avg_size = 2, max_size = 2 \<rparr>"

theorem chunking_ends_witness:
  "\<exists>ns. chunk tiny_params [1, 2, 3, 4, 5] = Some ns \<and> sum_list ns = 5"
proof -
  have "0 < max_size tiny_params" by (simp add: tiny_params_def)
  from chunking_ends [OF this, of "[1, 2, 3, 4, 5]"] show ?thesis by auto
qed

theorem appending_keeps_chunks_witness:
  "\<exists>ks rest ns. chunk tiny_params [1, 2, 3, 4, 5] = Some (ks @ rest) \<and>
    chunk tiny_params ([1, 2, 3, 4, 5] @ [6]) = Some (ks @ ns) \<and>
    length ([1, 2, 3, 4, 5] :: bytes) < sum_list ks + reach tiny_params"
proof -
  have "0 < max_size tiny_params" by (simp add: tiny_params_def)
  then show ?thesis by (rule appending_keeps_chunks)
qed

text \<open>A maximum of zero: the loop does not end.\<close>

lemma chunk_zero_max: "length b = 3 \<Longrightarrow> chunk \<lparr> min_size = 1, avg_size = 2, max_size = 0 \<rparr> b = None"
proof -
  let ?p = "\<lparr> min_size = 1, avg_size = 2, max_size = 0 \<rparr>"
  assume b: "length b = 3"
  then have "\<not> length b \<le> min_size ?p" by simp
  then obtain i where "chunk_size ?p b = min (length b) (if i < min (length b) (max_size ?p) then i + 1 else min (length b) (max_size ?p))"
    by (rule chunk_size_index)
  then have z: "chunk_size ?p b = 0" by simp
  have "chunk ?p b = Some ns \<Longrightarrow> length b = 3 \<Longrightarrow> chunk_size ?p b = 0 \<Longrightarrow> False" for ns
  proof (induction "length ns" arbitrary: ns rule: less_induct)
    case less
    have "chunk ?p b = Option.bind (chunk ?p b) (\<lambda>ns. Some (0 # ns))"
      using less.prems(2,3) by (subst chunk.simps) auto
    then obtain ns' where "chunk ?p b = Some ns'" "ns = 0 # ns'" using less.prems(1) by (cases "chunk ?p b") auto
    then show False using less.hyps [of ns'] less.prems by simp
  qed
  then show ?thesis using b z by (cases "chunk ?p b") auto
qed

end
