(* ===== verification/Store.thy ===== *)
theory Store
  imports Chunking OrSet
begin

text \<open>
  The block store (\<^verbatim>\<open>src/store/blocks.cpp\<close>) and the container (\<^verbatim>\<open>src/store/container.cpp\<close>). A
  \<^verbatim>\<open>Digest\<close> and the key of a block are the same 32 bytes. The reader of a container keeps the
  bytes that are left instead of a position; what a refused read has put into its result is not
  part of the model.
\<close>

unbundle bit_operations_syntax

section \<open>Blocks\<close>

type_synonym store = "(bytes, bytes) omap"

definition block_put :: "bytes \<Rightarrow> store \<Rightarrow> digest \<times> store" where
  "block_put b s = (let k = sha256 b in (k, om_emplace k b s))"

definition insert_raw :: "digest \<Rightarrow> bytes \<Rightarrow> store \<Rightarrow> store" where
  "insert_raw key b s = om_emplace key b s"

definition block_get :: "store \<Rightarrow> digest \<Rightarrow> bytes option" where
  "block_get s key = map_of s key"

definition block_has :: "store \<Rightarrow> digest \<Rightarrow> bool" where
  "block_has s key \<longleftrightarrow> map_of s key \<noteq> None"

definition byte_count :: "store \<Rightarrow> nat" where
  "byte_count s = foldl (\<lambda>n kv. n + length (snd kv)) 0 s"

fun put_chunks :: "bytes \<Rightarrow> nat list \<Rightarrow> store \<Rightarrow> digest list \<times> store" where
  "put_chunks b [] s = ([], s)"
| "put_chunks b (n # ns) s =
     (let (k, s) = block_put (take n b) s; (recipe, s) = put_chunks (drop n b) ns s in (k # recipe, s))"

text \<open>\<open>None\<close> when the chunking does not end.\<close>

definition put_blob :: "chunk_params \<Rightarrow> bytes \<Rightarrow> store \<Rightarrow> (digest list \<times> store) option" where
  "put_blob p b s = (case chunk p b of None \<Rightarrow> None | Some ns \<Rightarrow> Some (put_chunks b ns s))"

fun get_blob :: "store \<Rightarrow> digest list \<Rightarrow> bytes option" where
  "get_blob s [] = Some []"
| "get_blob s (k # recipe) =
     (case block_get s k of None \<Rightarrow> None
      | Some part \<Rightarrow> (case get_blob s recipe of None \<Rightarrow> None | Some rest \<Rightarrow> Some (part @ rest)))"

section \<open>The container\<close>

record container =
  c_doc :: bytes
  c_blocks :: store

definition kContainerVersion :: "32 word" where "kContainerVersion = 1"

definition put_u32 :: "32 word \<Rightarrow> bytes" where
  "put_u32 v = map (\<lambda>i. ucast (drop_bit (i * 8) v AND 0xFF)) [0..<4]"

definition put_u64 :: "64 word \<Rightarrow> bytes" where
  "put_u64 v = map (\<lambda>i. ucast (drop_bit (i * 8) v AND 0xFF)) [0..<8]"

definition take_bytes :: "nat \<Rightarrow> bytes \<Rightarrow> (bytes \<times> bytes) option" where
  "take_bytes n s = (if n > length s then None else Some (take n s, drop n s))"

definition take_u32 :: "bytes \<Rightarrow> (32 word \<times> bytes) option" where
  "take_u32 s =
     (if length s < 4 then None
      else Some (foldl (\<lambda>v k. v OR push_bit (k * 8) (ucast (s ! k))) 0 [0..<4], drop 4 s))"

definition take_u64 :: "bytes \<Rightarrow> (64 word \<times> bytes) option" where
  "take_u64 s =
     (if length s < 8 then None
      else Some (foldl (\<lambda>v k. v OR push_bit (k * 8) (ucast (s ! k))) 0 [0..<8], drop 8 s))"

definition block_bytes :: "bytes \<times> bytes \<Rightarrow> bytes" where
  "block_bytes kv = fst kv @ put_u64 (word_of_nat (length (snd kv))) @ snd kv"

definition container_write :: "container \<Rightarrow> bytes" where
  "container_write c =
     ascii ''VPAL'' @ put_u32 kContainerVersion @ put_u64 (word_of_nat (length (c_doc c))) @ c_doc c @
     put_u64 (word_of_nat (length (c_blocks c))) @ concat (map block_bytes (c_blocks c))"

fun read_blocks :: "nat \<Rightarrow> bytes \<Rightarrow> store \<Rightarrow> (store \<times> bytes) option" where
  "read_blocks 0 b s = Some (s, b)"
| "read_blocks (Suc n) b s =
     (case take_bytes 32 b of None \<Rightarrow> None
      | Some (key, b) \<Rightarrow>
        (case take_u64 b of None \<Rightarrow> None
         | Some (len, b) \<Rightarrow>
           (case take_bytes (unat len) b of None \<Rightarrow> None
            | Some (block, b) \<Rightarrow>
                if sha256 block \<noteq> key then None else read_blocks n b (insert_raw key block s))))"

definition read_envelope :: "bytes \<Rightarrow> (container \<times> bytes) option" where
  "read_envelope bytes =
     (case take_bytes 4 bytes of None \<Rightarrow> None
      | Some (magic, b) \<Rightarrow>
        if magic \<noteq> ascii ''VPAL'' then None
        else (case take_u32 b of None \<Rightarrow> None
              | Some (version, b) \<Rightarrow>
                if version \<noteq> kContainerVersion then None
                else (case take_u64 b of None \<Rightarrow> None
                      | Some (doc_len, b) \<Rightarrow>
                        (case take_bytes (unat doc_len) b of None \<Rightarrow> None
                         | Some (doc, b) \<Rightarrow>
                           (case take_u64 b of None \<Rightarrow> None
                            | Some (number, b) \<Rightarrow>
                              (case read_blocks (unat number) b [] of None \<Rightarrow> None
                               | Some (s, b) \<Rightarrow> Some (\<lparr> c_doc = doc, c_blocks = s \<rparr>, b)))))))"

definition container_read :: "bytes \<Rightarrow> container option" where
  "container_read bytes =
     (case read_envelope bytes of None \<Rightarrow> None | Some (c, b) \<Rightarrow> if b = [] then Some c else None)"

section \<open>What a store promises\<close>

text \<open>Every block is under its own hash, and the map is a map.\<close>

definition honest :: "store \<Rightarrow> bool" where
  "honest s \<longleftrightarrow> om_ok s \<and> (\<forall>kv \<in> set s. fst kv = sha256 (snd kv))"

fun pieces :: "nat list \<Rightarrow> bytes \<Rightarrow> bytes list" where
  "pieces [] b = []"
| "pieces (n # ns) b = take n b # pieces ns (drop n b)"

lemma concat_pieces: "sum_list ns = length b \<Longrightarrow> concat (pieces ns b) = b"
  by (induction ns b rule: pieces.induct) auto

lemma honest_emplace: "honest s \<Longrightarrow> honest (om_emplace (sha256 b) b s)"
proof -
  have "set (om_put k v m) \<subseteq> insert (k, v) (set m)" for k v and m :: store
    by (induction k v m rule: om_put.induct) auto
  then show "honest s \<Longrightarrow> honest (om_emplace (sha256 b) b s)"
    by (fastforce simp: honest_def om_emplace_def split: option.split)
qed

lemma get_put:
  assumes "honest s" "inj_on sha256 (insert b (snd ` set s))"
  shows "map_of (om_emplace (sha256 b) b s) = (map_of s)(sha256 b \<mapsto> b)"
proof (cases "map_of s (sha256 b)")
  case (Some c)
  then have "(sha256 b, c) \<in> set s" by (rule map_of_SomeD)
  then have "sha256 b = sha256 c" "c \<in> snd ` set s" using assms(1) by (force simp: honest_def)+
  then have "c = b" using inj_onD [OF assms(2), of b c] by blast
  with Some show ?thesis by (simp add: om_emplace_def fun_eq_iff)
qed (use assms(1) in \<open>simp add: om_emplace_def honest_def map_of_om_put fun_eq_iff\<close>)

lemma set_put: "honest s \<Longrightarrow> snd ` set (om_emplace k b s) \<subseteq> insert b (snd ` set s)"
proof -
  have "set (om_put k v m) \<subseteq> insert (k, v) (set m)" for k v and m :: store
    by (induction k v m rule: om_put.induct) auto
  then have "snd ` set (om_put k b s) \<subseteq> snd ` insert (k, b) (set s)" by (rule image_mono)
  then show "honest s \<Longrightarrow> snd ` set (om_emplace k b s) \<subseteq> insert b (snd ` set s)"
    by (auto simp: om_emplace_def split: option.split)
qed

lemma map_le_Some: "m \<subseteq>\<^sub>m m' \<Longrightarrow> m k = Some v \<Longrightarrow> m' k = Some v"
  by (force simp: map_le_def)

lemma put_chunks_spec:
  "honest s \<Longrightarrow> inj_on sha256 (set (pieces ns b) \<union> snd ` set s) \<Longrightarrow> put_chunks b ns s = (recipe, s') \<Longrightarrow>
   honest s' \<and> recipe = map sha256 (pieces ns b) \<and> (\<forall>v \<in> set (pieces ns b). map_of s' (sha256 v) = Some v) \<and>
   map_of s \<subseteq>\<^sub>m map_of s'"
proof (induction ns arbitrary: b s recipe)
  case (Cons n ns)
  let ?v = "take n b"
  let ?s = "om_emplace (sha256 ?v) ?v s"
  obtain r where r: "put_chunks (drop n b) ns ?s = (r, s')" "recipe = sha256 ?v # r"
    using Cons.prems(3) by (auto simp: block_put_def Let_def split: prod.splits)
  have i: "inj_on sha256 (insert ?v (snd ` set s))"
    using Cons.prems(2) by (rule inj_on_subset) auto
  have g: "map_of ?s = (map_of s)(sha256 ?v \<mapsto> ?v)" using Cons.prems(1) i by (rule get_put)
  have h: "honest ?s" using Cons.prems(1) by (rule honest_emplace)
  have "set (pieces ns (drop n b)) \<union> snd ` set ?s \<subseteq> set (pieces (n # ns) b) \<union> snd ` set s"
    using set_put [OF Cons.prems(1), of "sha256 ?v" ?v] by auto
  then have "inj_on sha256 (set (pieces ns (drop n b)) \<union> snd ` set ?s)"
    using Cons.prems(2) by (rule inj_on_subset [rotated])
  note IH = Cons.IH [OF h this r(1)]
  have "map_of ?s \<subseteq>\<^sub>m map_of s'" using IH by blast
  moreover have "map_of ?s (sha256 ?v) = Some ?v" unfolding g by simp
  ultimately have top: "map_of s' (sha256 ?v) = Some ?v" by (rule map_le_Some)
  have "map_of s \<subseteq>\<^sub>m map_of ?s"
  proof -
    have "map_of s (sha256 ?v) = Some ?v" if "map_of s (sha256 ?v) \<noteq> None"
    proof -
      from that obtain c where c: "map_of s (sha256 ?v) = Some c" by blast
      then have "sha256 ?v = sha256 c" "c \<in> snd ` set s"
        using Cons.prems(1) by (force simp: honest_def dest: map_of_SomeD)+
      then have "?v = c" by (rule inj_onD [OF i _ insertI1 insertI2])
      with c show ?thesis by simp
    qed
    then show ?thesis by (auto simp: g map_le_def)
  qed
  then have "map_of s \<subseteq>\<^sub>m map_of s'" using IH map_le_trans by blast
  with top show ?case using IH r(2) by auto
qed (auto simp: map_le_def)

lemma put_present:
  "\<forall>v \<in> set (pieces ns b). map_of s (sha256 v) \<noteq> None \<Longrightarrow> put_chunks b ns s = (map sha256 (pieces ns b), s)"
  by (induction ns arbitrary: b) (auto simp: block_put_def om_emplace_def)

lemma get_blob_map:
  "\<forall>v \<in> set vs. map_of s (sha256 v) = Some v \<Longrightarrow> get_blob s (map sha256 vs) = Some (concat vs)"
  by (induction vs) (auto simp: block_get_def)

text \<open>C38. A blob that is put comes back whole from its recipe, whatever else the store held, as long as
  no two of the blocks involved have one hash. Nothing that was there changes, every block is
  still under its own hash, and putting the same bytes again stores nothing.\<close>

theorem blob_stored:
  assumes "honest s" "0 < max_size p" "chunk p b = Some ns"
    and "inj_on sha256 (set (pieces ns b) \<union> snd ` set s)"
  shows "\<exists>recipe s'. put_blob p b s = Some (recipe, s') \<and> get_blob s' recipe = Some b \<and> honest s' \<and>
    map_of s \<subseteq>\<^sub>m map_of s' \<and> put_blob p b s' = Some (recipe, s')"
proof -
  obtain recipe s' where r: "put_chunks b ns s = (recipe, s')" by (cases "put_chunks b ns s")
  note spec = put_chunks_spec [OF assms(1,4) r]
  have "sum_list ns = length b" using chunk_exists [OF assms(2), of b] assms(3) by auto
  then have "get_blob s' recipe = Some b" using spec get_blob_map [of "pieces ns b" s'] by (simp add: concat_pieces)
  moreover have "put_chunks b ns s' = (recipe, s')" using spec by (simp add: put_present)
  ultimately show ?thesis using spec r assms(3) by (simp add: put_blob_def)
qed

section \<open>What a container promises\<close>

lemma bit_foldl_or:
  fixes f :: "nat \<Rightarrow> 'a::len word"
  shows "bit (foldl (\<lambda>v k. v OR f k) a ks) n \<longleftrightarrow> bit a n \<or> (\<exists>k \<in> set ks. bit (f k) n)"
  by (induction ks arbitrary: a) (auto simp: bit_or_iff)

lemma byte_of_word: "bit (ucast (drop_bit j v AND 0xFF) :: byte) m \<longleftrightarrow> m < 8 \<and> bit (v :: 'a::len word) (j + m)"
proof -
  have "(0xFF :: 'a word) = mask 8" by (simp add: mask_eq_exp_minus_1)
  then have "bit (drop_bit j v AND 0xFF) m \<longleftrightarrow> m < 8 \<and> bit v (j + m)"
    by (auto simp only: bit_and_iff bit_mask_iff bit_drop_bit_eq o_def possible_bit_word dest: bit_imp_le_length)
  then show ?thesis by (auto simp: bit_unsigned_iff)
qed

lemma le_bytes:
  fixes v :: "'a::len word"
  assumes "LENGTH('a) = 8 * n"
  shows "foldl (\<lambda>w k. w OR push_bit (k * 8) (ucast (map (\<lambda>i. ucast (drop_bit (i * 8) v AND 0xFF) :: byte) [0..<n] ! k))) 0 [0..<n] = v"
proof (rule bit_word_eqI)
  fix m assume m: "m < LENGTH('a)"
  let ?b = "\<lambda>k. ucast (drop_bit (k * 8) v AND 0xFF) :: byte"
  have "bit (push_bit (k * 8) (ucast (map ?b [0..<n] ! k)) :: 'a word) m \<longleftrightarrow>
      k * 8 \<le> m \<and> m - k * 8 < 8 \<and> bit v m" if "k < n" for k
  proof -
    have "bit (ucast (?b k) :: 'a word) (m - k * 8) \<longleftrightarrow> m - k * 8 < LENGTH('a) \<and> m - k * 8 < 8 \<and> bit v (k * 8 + (m - k * 8))"
      by (subst bit_unsigned_iff) (simp only: byte_of_word possible_bit_word)
    then show ?thesis using that m by (auto simp: bit_push_bit_iff)
  qed
  then have "bit (foldl (\<lambda>w k. w OR push_bit (k * 8) (ucast (map ?b [0..<n] ! k))) 0 [0..<n] :: 'a word) m \<longleftrightarrow>
      (\<exists>k < n. k * 8 \<le> m \<and> m - k * 8 < 8 \<and> bit v m)"
    by (auto simp: bit_foldl_or)
  also have "\<dots> \<longleftrightarrow> bit v m"
  proof
    assume "bit v m"
    moreover have "m div 8 < n" "m div 8 * 8 \<le> m" "m - m div 8 * 8 < 8" using m assms by auto
    ultimately show "\<exists>k < n. k * 8 \<le> m \<and> m - k * 8 < 8 \<and> bit v m" by blast
  qed blast
  finally show "bit (foldl (\<lambda>w k. w OR push_bit (k * 8) (ucast (map ?b [0..<n] ! k))) 0 [0..<n] :: 'a word) m \<longleftrightarrow> bit v m" .
qed

lemma le_bytes_append:
  fixes v :: "'a::len word"
  assumes "LENGTH('a) = 8 * n"
  shows "foldl (\<lambda>w k. w OR push_bit (k * 8) (ucast ((map (\<lambda>i. ucast (drop_bit (i * 8) v AND 0xFF) :: byte) [0..<n] @ s) ! k))) 0 [0..<n] = v"
  by (subst le_bytes [OF assms, symmetric], rule foldl_cong) (simp_all add: nth_append)

lemma take_put_u32: "take_u32 (put_u32 v @ s) = Some (v, s)"
proof -
  have l: "length (put_u32 v) = 4" by (simp add: put_u32_def)
  have "foldl (\<lambda>w k. w OR push_bit (k * 8) (ucast ((put_u32 v @ s) ! k))) 0 [0..<4] = v"
    unfolding put_u32_def by (rule le_bytes_append) simp
  then show ?thesis using l by (simp only: take_u32_def) simp
qed

lemma take_put_u64: "take_u64 (put_u64 v @ s) = Some (v, s)"
proof -
  have l: "length (put_u64 v) = 8" by (simp add: put_u64_def)
  have "foldl (\<lambda>w k. w OR push_bit (k * 8) (ucast ((put_u64 v @ s) ! k))) 0 [0..<8] = v"
    unfolding put_u64_def by (rule le_bytes_append) simp
  then show ?thesis using l by (simp only: take_u64_def) simp
qed

lemma take_bytes_append: "length x = n \<Longrightarrow> take_bytes n (x @ s) = Some (x, s)"
  by (auto simp: take_bytes_def)

lemma read_blocks_write:
  "om_ok (m @ s) \<Longrightarrow> \<forall>kv \<in> set s. fst kv = sha256 (snd kv) \<and> length (snd kv) < 2 ^ 64 \<Longrightarrow>
   read_blocks (length s) (concat (map block_bytes s) @ rest) m = Some (m @ s, rest)"
proof (induction s arbitrary: m)
  case (Cons kv s)
  obtain k v where kv: "kv = (k, v)" by (cases kv)
  have k: "k = sha256 v" "length v < 2 ^ 64" "length k = 32" using Cons.prems(2) kv by auto
  have u: "unat (word_of_nat (length v) :: 64 word) = length v" using k(2) by (rule unat_put_size)
  have "om_ok (m @ [(k, v)])" "k \<notin> fst ` set m"
    using Cons.prems(1) kv by (auto simp: om_ok_def sorted_wrt_append)
  then have "om_emplace k v m = m @ [(k, v)]" by (simp add: om_emplace_def om_put_last map_of_eq_None_iff [THEN iffD2])
  moreover have "read_blocks (length s) (concat (map block_bytes s) @ rest) (m @ [(k, v)]) = Some ((m @ [(k, v)]) @ s, rest)"
    using Cons.prems kv by (intro Cons.IH) auto
  moreover have "concat (map block_bytes (kv # s)) @ rest =
      k @ put_u64 (word_of_nat (length v)) @ v @ (concat (map block_bytes s) @ rest)"
    by (simp add: kv block_bytes_def)
  ultimately show ?case
    using k by (simp add: kv take_bytes_append take_put_u64 u insert_raw_def)
qed simp

lemma read_write:
  assumes "honest (c_blocks c)" "length (c_doc c) < 2 ^ 64" "length (c_blocks c) < 2 ^ 64"
    "\<forall>kv \<in> set (c_blocks c). length (snd kv) < 2 ^ 64"
  shows "container_read (container_write c) = Some c"
proof -
  have u: "unat (word_of_nat (length (c_doc c)) :: 64 word) = length (c_doc c)"
    "unat (word_of_nat (length (c_blocks c)) :: 64 word) = length (c_blocks c)"
    using assms(2,3) by (simp_all only: unat_put_size)
  have "read_blocks (length (c_blocks c)) (concat (map block_bytes (c_blocks c)) @ []) [] = Some ([] @ c_blocks c, [])"
    using assms by (intro read_blocks_write) (auto simp: honest_def)
  moreover have "take_bytes 4 (ascii ''VPAL'' @ b) = Some (ascii ''VPAL'', b)" for b
    by (rule take_bytes_append) (simp add: ascii_def)
  ultimately have "read_envelope (container_write c) = Some (\<lparr> c_doc = c_doc c, c_blocks = c_blocks c \<rparr>, [])"
    by (simp add: read_envelope_def container_write_def take_put_u32 take_put_u64 take_bytes_append u)
  then show ?thesis by (simp add: container_read_def)
qed

text \<open>A container of an honest store comes back whole.\<close>

theorem container_roundtrip:
  assumes "honest (c_blocks c)" "length (c_doc c) < 2 ^ 64" "length (c_blocks c) < 2 ^ 64"
    "\<forall>kv \<in> set (c_blocks c). length (snd kv) < 2 ^ 64"
  shows "container_read (container_write c) = Some c"
  using assms by (rule read_write)

lemma take_bytes_more: "take_bytes n b = Some (x, r) \<Longrightarrow> take_bytes n (b @ z) = Some (x, r @ z)"
  by (auto simp: take_bytes_def split: if_splits)

lemma take_u32_more: "take_u32 b = Some (x, r) \<Longrightarrow> take_u32 (b @ z) = Some (x, r @ z)"
  by (auto simp: take_u32_def nth_append split: if_splits intro!: foldl_cong)

lemma take_u64_more: "take_u64 b = Some (x, r) \<Longrightarrow> take_u64 (b @ z) = Some (x, r @ z)"
  by (auto simp: take_u64_def nth_append split: if_splits intro!: foldl_cong)

lemma read_blocks_more: "read_blocks n b m = Some (s, r) \<Longrightarrow> read_blocks n (b @ z) m = Some (s, r @ z)"
proof (induction n arbitrary: b m)
  case (Suc n)
  then obtain key b1 len b2 block b3 where t: "take_bytes 32 b = Some (key, b1)" "take_u64 b1 = Some (len, b2)"
    "take_bytes (unat len) b2 = Some (block, b3)" "sha256 block = key"
    "read_blocks n b3 (insert_raw key block m) = Some (s, r)"
    by (auto split: option.splits prod.splits if_splits)
  show ?case
    using take_bytes_more [OF t(1)] take_u64_more [OF t(2)] take_bytes_more [OF t(3)] t(4) Suc.IH [OF t(5)] by simp
qed simp

lemma read_blocks_honest: "read_blocks n b m = Some (s, r) \<Longrightarrow> honest m \<Longrightarrow> honest s"
proof (induction n arbitrary: b m)
  case (Suc n)
  then obtain block b3 where "read_blocks n b3 (insert_raw (sha256 block) block m) = Some (s, r)"
    by (auto split: option.splits prod.splits if_splits)
  then show ?case using Suc.IH honest_emplace [OF Suc.prems(2)] by (auto simp: insert_raw_def)
qed simp

lemma read_envelope_steps:
  assumes "read_envelope b = Some (c, r)"
  obtains b1 b2 dl b3 doc b4 n b5 where "take_bytes 4 b = Some (ascii ''VPAL'', b1)"
    "take_u32 b1 = Some (kContainerVersion, b2)" "take_u64 b2 = Some (dl, b3)" "take_bytes (unat dl) b3 = Some (doc, b4)"
    "take_u64 b4 = Some (n, b5)" "read_blocks (unat n) b5 [] = Some (c_blocks c, r)" "c_doc c = doc"
  using assms by (auto simp: read_envelope_def split: option.splits prod.splits if_splits)

lemma read_envelope_more:
  assumes "read_envelope b = Some (c, r)"
  shows "read_envelope (b @ z) = Some (c, r @ z)"
proof -
  obtain b1 b2 dl b3 doc b4 n b5 where t: "take_bytes 4 b = Some (ascii ''VPAL'', b1)"
    "take_u32 b1 = Some (kContainerVersion, b2)" "take_u64 b2 = Some (dl, b3)" "take_bytes (unat dl) b3 = Some (doc, b4)"
    "take_u64 b4 = Some (n, b5)" "read_blocks (unat n) b5 [] = Some (c_blocks c, r)" "c_doc c = doc"
    using assms by (rule read_envelope_steps)
  show ?thesis
    using take_bytes_more [OF t(1)] take_u32_more [OF t(2)] take_u64_more [OF t(3)] take_bytes_more [OF t(4)]
      take_u64_more [OF t(5)] read_blocks_more [OF t(6)] t(7)
    by (simp add: read_envelope_def)
qed

text \<open>C37. Whatever file is read, each block that comes out is under the hash of its bytes; and no file
  that is read is the beginning of another one: a truncated or lengthened file is refused.\<close>

theorem container_verified:
  assumes "container_read b = Some c" "z \<noteq> []"
  shows "honest (c_blocks c) \<and> container_read (b @ z) = None \<and>
    (\<forall>k < length b. container_read (take k b) = None)"
proof -
  have c: "read_envelope b = Some (c, [])" using assms(1) by (auto simp: container_read_def split: option.splits if_splits)
  have "honest (c_blocks c)"
    using c
  proof (rule read_envelope_steps)
    fix n b5 assume "read_blocks (unat (n :: 64 word)) b5 [] = Some (c_blocks c, [])"
    then show ?thesis by (rule read_blocks_honest) (simp add: honest_def om_ok_Nil)
  qed
  moreover have "container_read (b @ z) = None"
    using read_envelope_more [OF c, of z] assms(2) by (simp add: container_read_def)
  moreover have "container_read (take k b) = None" if k: "k < length b" for k
  proof (rule ccontr)
    assume "container_read (take k b) \<noteq> None"
    then obtain c' where "read_envelope (take k b) = Some (c', [])"
      by (auto simp: container_read_def split: option.splits if_splits)
    from read_envelope_more [OF this, of "drop k b"] c k show False by simp
  qed
  ultimately show ?thesis by blast
qed

section \<open>At concrete inputs\<close>

lemma small_blob: "chunk default_params (ascii ''note'') = Some [4]"
  by (subst chunk.simps) (simp add: default_params_def ascii_def)

theorem blob_stored_witness:
  "\<exists>recipe s'. put_blob default_params (ascii ''note'') [] = Some (recipe, s') \<and>
    get_blob s' recipe = Some (ascii ''note'') \<and> honest s' \<and> map_of [] \<subseteq>\<^sub>m map_of s' \<and>
    put_blob default_params (ascii ''note'') s' = Some (recipe, s')"
  by (rule blob_stored [OF _ _ small_blob]) (simp_all add: honest_def om_ok_Nil default_params_def)

definition note_container :: container where
  "note_container = \<lparr> c_doc = [0], c_blocks = [(sha256 (ascii ''note''), ascii ''note'')] \<rparr>"

lemma note_honest: "honest (c_blocks note_container)"
  by (simp add: note_container_def honest_def om_ok_def)

theorem container_roundtrip_witness: "container_read (container_write note_container) = Some note_container"
  using note_honest by (rule container_roundtrip) (simp_all add: note_container_def ascii_def)

theorem container_verified_witness:
  "honest (c_blocks note_container) \<and> container_read (container_write note_container @ [0]) = None \<and>
   container_read (take 7 (container_write note_container)) = None"
proof -
  have "container_read (container_write note_container) = Some note_container"
    using note_honest by (rule read_write) (simp_all add: note_container_def ascii_def)
  moreover have "7 < length (container_write note_container)"
    by (simp add: container_write_def ascii_def put_u32_def)
  ultimately show ?thesis using container_verified [of "container_write note_container" note_container "[0]"]
    by blast
qed

end
