(* ===== verification/Wire.thy ===== *)
theory Wire
  imports Store Utterance
begin

text \<open>
  Frames and streams (\<^verbatim>\<open>src/sync/wire.cpp\<close>): a message as bytes, every check a frame passes
  before it is believed, and the reader that cuts a byte stream into frames. The header is JSON
  text: the printer \<open>pr\<close> and the parser \<open>ps\<close> are cJSON's. The buffer of a reader and the position
  in it are those of the code; \<open>rest\<close> is what they stand for.
\<close>

section \<open>Messages\<close>

datatype message_kind = Hello | Doc | Ack | Refuse | Want | Content | Absent | Presence | Bye

record message =
  m_kind :: message_kind
  m_from :: bytes
  m_session :: bytes
  m_seq :: "64 word"
  m_digest :: bytes
  m_reason :: bytes
  m_addresses :: "bytes list"
  m_address :: bytes
  m_payload :: bytes
  m_auth :: bytes

record limits =
  max_frame :: nat
  max_presence :: nat
  max_addresses :: nat

definition default_limits :: limits where
  "default_limits = \<lparr> max_frame = 64 * 1024 * 1024, max_presence = 16 * 1024, max_addresses = 256 \<rparr>"

fun message_name :: "message_kind \<Rightarrow> bytes" where
  "message_name Hello = ascii ''hello''"
| "message_name Doc = ascii ''doc''"
| "message_name Ack = ascii ''ack''"
| "message_name Refuse = ascii ''refuse''"
| "message_name Want = ascii ''want''"
| "message_name Content = ascii ''content''"
| "message_name Absent = ascii ''absent''"
| "message_name Presence = ascii ''presence''"
| "message_name Bye = ascii ''bye''"

definition all_kinds :: "message_kind list" where
  "all_kinds = [Hello, Doc, Ack, Refuse, Want, Content, Absent, Presence, Bye]"

definition kind_from :: "bytes \<Rightarrow> message_kind option" where
  "kind_from s = find (\<lambda>k. s = message_name k) all_kinds"

definition carries_payload :: "message_kind \<Rightarrow> bool" where
  "carries_payload k \<longleftrightarrow> k = Doc \<or> k = Content \<or> k = Presence"

definition blank_message :: message where
  "blank_message = \<lparr> m_kind = Hello, m_from = [], m_session = [], m_seq = 0, m_digest = [], m_reason = [],
     m_addresses = [], m_address = [], m_payload = [], m_auth = [] \<rparr>"

section \<open>To bytes\<close>

definition unless_blank :: "bytes \<Rightarrow> string \<Rightarrow> bytes \<Rightarrow> (bytes \<times> json) list" where
  "unless_blank s k v = (if s = [] then [] else [(ascii k, mk_string v)])"

definition header_of :: "message \<Rightarrow> json" where
  "header_of m = JObject
     ([(ascii ''kind'', mk_string (message_name (m_kind m))), (ascii ''from'', mk_string (m_from m)),
       (ascii ''session'', mk_string (m_session m)), (ascii ''seq'', mk_int (uint (m_seq m)))] @
      unless_blank (m_digest m) ''digest'' (m_digest m) @
      unless_blank (m_reason m) ''reason'' (m_reason m) @
      (if m_addresses m = [] then [] else [(ascii ''addresses'', JArray (map mk_string (m_addresses m)))]) @
      unless_blank (m_address m) ''address'' (m_address m) @
      unless_blank (m_auth m) ''auth'' (hexify (m_auth m)))"

definition encode_frame :: "(json \<Rightarrow> bytes) \<Rightarrow> message \<Rightarrow> bytes" where
  "encode_frame pr m =
     (let header = pr (header_of m)
      in ascii ''VPS1'' @ put_u32 (word_of_nat (length header)) @ header @ m_payload m)"

section \<open>From bytes\<close>

definition text_field :: "json option \<Rightarrow> string \<Rightarrow> bool \<Rightarrow> nat \<Rightarrow> bytes option" where
  "text_field o' k required max_len =
     (case get o' (ascii k) of
        None \<Rightarrow> if required then None else Some []
      | Some v \<Rightarrow>
          (case as_string (Some v) of None \<Rightarrow> None
           | Some s \<Rightarrow> if length s > max_len then None else Some s))"

text \<open>\<^verbatim>\<open>9007199254740992.0\<close>.\<close>

definition kMaxSeq :: dbl where "kMaxSeq = word_of_nat (1076 * 2 ^ 52)"

definition read_seq :: "json option \<Rightarrow> 64 word option" where
  "read_seq v =
     (case as_number v of None \<Rightarrow> None
      | Some x \<Rightarrow>
          if dbl_less x (dbl_of_int 0) \<or> dbl_less kMaxSeq x then None
          else Some (word_of_int (dbl_trunc x)))"

definition read_addresses :: "limits \<Rightarrow> json option \<Rightarrow> bytes list parsed" where
  "read_addresses limits v =
     (if v = None then Inr []
      else if \<not> is_JArray v then Inl (ascii ''bad '' @ quoted ''addresses'')
      else if length (children v) > max_addresses limits then Inl (ascii ''more addresses than max_addresses'')
      else (case strings_of (children v) of
              None \<Rightarrow> Inl (ascii ''bad address in '' @ quoted ''addresses'')
            | Some ss \<Rightarrow> if list_all (\<lambda>s. length s \<le> 256) ss then Inr ss
                        else Inl (ascii ''bad address in '' @ quoted ''addresses'')))"

definition or_bad :: "'a option \<Rightarrow> string \<Rightarrow> 'a parsed" where
  "or_bad v k = (case v of None \<Rightarrow> Inl (ascii ''bad '' @ quoted k) | Some x \<Rightarrow> Inr x)"

definition and_then :: "'a parsed \<Rightarrow> ('a \<Rightarrow> 'b parsed) \<Rightarrow> 'b parsed" where
  "and_then p f = (case p of Inl why \<Rightarrow> Inl why | Inr x \<Rightarrow> f x)"

definition read_header :: "limits \<Rightarrow> json \<Rightarrow> bytes \<Rightarrow> message parsed" where
  "read_header limits j payload =
     (let h = Some j in
      case Option.bind (text_field h ''kind'' True 16) kind_from of None \<Rightarrow> Inl (ascii ''unknown kind'')
      | Some k \<Rightarrow>
        and_then (or_bad (text_field h ''from'' True 256) ''from'') (\<lambda>from.
        and_then (or_bad (text_field h ''session'' True 256) ''session'') (\<lambda>sess.
        and_then (or_bad (read_seq (get h (ascii ''seq''))) ''seq'') (\<lambda>seq.
        and_then (or_bad (text_field h ''digest'' False 128) ''digest'') (\<lambda>dg.
        and_then (or_bad (text_field h ''reason'' False 1024) ''reason'') (\<lambda>reason.
        and_then (or_bad (text_field h ''address'' False 256) ''address'') (\<lambda>address.
        and_then (read_addresses limits (get h (ascii ''addresses''))) (\<lambda>addresses.
        and_then (or_bad (Option.bind (text_field h ''auth'' False 4096) unhex_strict) ''auth'') (\<lambda>auth.
          if \<not> carries_payload k \<and> payload \<noteq> [] then Inl (ascii ''a payload on a kind that carries none'')
          else if k = Presence \<and> length payload > max_presence limits
          then Inl (ascii ''presence larger than max_presence'')
          else Inr \<lparr> m_kind = k, m_from = from, m_session = sess, m_seq = seq, m_digest = dg, m_reason = reason,
                     m_addresses = addresses, m_address = address, m_payload = payload, m_auth = auth \<rparr>)))))))))"

definition read_u32 :: "bytes \<Rightarrow> 32 word" where
  "read_u32 b = ucast (b ! 0) OR push_bit 8 (ucast (b ! 1)) OR push_bit 16 (ucast (b ! 2)) OR push_bit 24 (ucast (b ! 3))"

definition decode_frame :: "(bytes \<Rightarrow> json option) \<Rightarrow> limits \<Rightarrow> bytes \<Rightarrow> message parsed" where
  "decode_frame ps limits frame =
     (if length frame > max_frame limits then Inl (ascii ''frame larger than max_frame'')
      else if length frame < 8 \<or> take 4 frame \<noteq> ascii ''VPS1'' then Inl (ascii ''not a Void Palabra sync frame'')
      else
        let n = unat (read_u32 (drop 4 frame)) in
        if n > length frame - 8 then Inl (ascii ''header length beyond the frame'')
        else
          let h = ps (take n (drop 8 frame)) in
          (case h of None \<Rightarrow> Inl (ascii ''header is not a JSON object'')
           | Some j \<Rightarrow>
               if \<not> is_JObject h then Inl (ascii ''header is not a JSON object'')
               else read_header limits j (drop (8 + n) frame)))"

text \<open>\<^verbatim>\<open>with_auth_blank\<close>: what a signature is over.\<close>

definition auth_blank :: "(json \<Rightarrow> bytes) \<Rightarrow> message \<Rightarrow> bytes" where
  "auth_blank pr m = encode_frame pr (m\<lparr> m_auth := [] \<rparr>)"

section \<open>The stream\<close>

definition kPrefix :: nat where "kPrefix = 8"

definition stream_frame :: "bytes \<Rightarrow> bytes" where
  "stream_frame frame = put_u32 (word_of_nat (length frame)) @ frame"

record reader =
  rd_limits :: limits
  rd_buf :: bytes
  rd_at :: nat
  rd_why :: bytes

definition new_reader :: "limits \<Rightarrow> reader" where
  "new_reader limits = \<lparr> rd_limits = limits, rd_buf = [], rd_at = 0, rd_why = [] \<rparr>"

definition reader_broken :: "reader \<Rightarrow> bool" where
  "reader_broken r \<longleftrightarrow> rd_why r \<noteq> []"

definition pending :: "reader \<Rightarrow> nat" where
  "pending r = length (rd_buf r) - rd_at r"

definition feed :: "bytes \<Rightarrow> reader \<Rightarrow> reader" where
  "feed data r =
     (if reader_broken r \<or> data = [] then r
      else
        let r = (if rd_at r > 0 \<and> rd_at r \<ge> length (rd_buf r) div 2
                 then r\<lparr> rd_buf := drop (rd_at r) (rd_buf r), rd_at := 0 \<rparr> else r)
        in r\<lparr> rd_buf := rd_buf r @ data \<rparr>)"

definition next_frame :: "reader \<Rightarrow> bytes option \<times> reader" where
  "next_frame r =
     (if reader_broken r then (None, r)
      else
        let here = length (rd_buf r) - rd_at r in
        if here < 4 then (None, r)
        else
          let len = unat (read_u32 (drop (rd_at r) (rd_buf r))) in
          if len > max_frame (rd_limits r) then (None, r\<lparr> rd_why := ascii ''a frame longer than the limit'' \<rparr>)
          else if len < kPrefix then (None, r\<lparr> rd_why := ascii ''a frame shorter than its own prefix'' \<rparr>)
          else
            let magic = min (here - 4) 4 in
            if take magic (drop (rd_at r + 4) (rd_buf r)) \<noteq> take magic (ascii ''VPS1'')
            then (None, r\<lparr> rd_why := ascii ''not a Void Palabra frame'' \<rparr>)
            else if here - 4 < len then (None, r)
            else
              let frame = take len (drop (rd_at r + 4) (rd_buf r));
                  at' = rd_at r + 4 + len
              in (Some frame, if at' = length (rd_buf r) then r\<lparr> rd_buf := [], rd_at := 0 \<rparr>
                              else r\<lparr> rd_at := at' \<rparr>))"

section \<open>What a message may hold\<close>

text \<open>The messages a frame can bring, under the limits.\<close>

definition message_ok :: "limits \<Rightarrow> message \<Rightarrow> bool" where
  "message_ok limits m \<longleftrightarrow>
     length (m_from m) \<le> 256 \<and> length (m_session m) \<le> 256 \<and> m_seq m \<le> 2 ^ 53 \<and>
     length (m_digest m) \<le> 128 \<and> length (m_reason m) \<le> 1024 \<and> length (m_address m) \<le> 256 \<and>
     length (m_addresses m) \<le> max_addresses limits \<and> (\<forall>a \<in> set (m_addresses m). length a \<le> 256) \<and>
     length (m_auth m) \<le> 2048 \<and> (m_payload m \<noteq> [] \<longrightarrow> carries_payload (m_kind m)) \<and>
     (m_kind m = Presence \<longrightarrow> length (m_payload m) \<le> max_presence limits)"

definition message_texts :: "message \<Rightarrow> bytes list" where
  "message_texts m = [m_from m, m_session m, m_digest m, m_reason m, m_address m] @ m_addresses m"

lemma kind_from_name [simp]: "kind_from (message_name k) = Some k"
proof -
  have "list_all (\<lambda>k. kind_from (message_name k) = Some k) all_kinds" by code_simp
  moreover have "k \<in> set all_kinds" by (cases k) (simp_all add: all_kinds_def)
  ultimately show ?thesis by (simp add: list_all_iff)
qed

lemma message_name_short: "length (message_name k) \<le> 16 \<and> nul_free (message_name k)"
  by (cases k) (simp_all add: ascii_def nul_free_ascii)

lemma strings_of_spec: "strings_of js = Some ss \<longleftrightarrow> js = map JString ss"
proof
  show "strings_of js = Some ss \<Longrightarrow> js = map JString ss"
  proof (induction js arbitrary: ss)
    case (Cons j js)
    then show ?case by (cases j) (auto split: option.splits)
  qed simp
  show "js = map JString ss \<Longrightarrow> strings_of js = Some ss"
    by (induction ss arbitrary: js) auto
qed

lemma text_field_short: "text_field v k required n = Some s \<Longrightarrow> length s \<le> n"
  by (auto simp: text_field_def split: option.splits if_splits)

lemma and_then_Inr [simp]: "and_then p f = Inr y \<longleftrightarrow> (\<exists>x. p = Inr x \<and> f x = Inr y)"
  by (cases p) (simp_all add: and_then_def)

lemma or_bad_Inr [simp]: "or_bad v k = Inr x \<longleftrightarrow> v = Some x"
  by (cases v) (simp_all add: or_bad_def)

lemma read_addresses_ok:
  "read_addresses limits v = Inr ss \<Longrightarrow> length ss \<le> max_addresses limits \<and> (\<forall>s \<in> set ss. length s \<le> 256)"
  by (auto simp: read_addresses_def strings_of_spec list_all_iff split: if_splits option.splits)

lemma unhex_half: "unhex_strict s = Some r \<Longrightarrow> 2 * length r = length s"
proof -
  have "unhex_pairs s = Some r \<Longrightarrow> 2 * length r = length s" for s r
    by (induction s arbitrary: r rule: unhex_pairs.induct) (auto split: option.splits)
  then show "unhex_strict s = Some r \<Longrightarrow> 2 * length r = length s" by (auto simp: unhex_strict_def split: if_splits)
qed

text \<open>The cast of what is not a number is 0 here; in range, it is the number.\<close>

lemma read_seq_bound:
  assumes "read_seq v = Some n"
  shows "n \<le> 2 ^ 53"
proof -
  obtain x where x: "\<not> dbl_less x (dbl_of_int 0)" "\<not> dbl_less kMaxSeq x" "n = word_of_int (dbl_trunc x)"
    using assms by (auto simp: read_seq_def split: option.splits if_splits)
  show ?thesis
  proof (cases "dbl_is_nan x")
    case True
    then have "dbl_abs_trunc x = dbl_mant x * 2 ^ 908 * 2 ^ 64"
      by (simp add: dbl_is_nan_def dbl_abs_trunc_def dbl_scale_def power_add [symmetric])
    then have "2 ^ 64 dvd dbl_trunc x" by (simp add: dbl_trunc_def)
    then have "n = 0" unfolding x(3) by (simp add: word_of_int_eq_0_iff)
    then show ?thesis by simp
  next
    case False
    have z: "dbl_of_int 0 = 0" by (simp add: dbl_of_int_def dbl_bits_of_nat_def)
    have k: "\<not> dbl_is_nan kMaxSeq" "dbl_key kMaxSeq = int dbl_2_53" "dbl_abs_trunc kMaxSeq = 2 ^ 53" "dbl_mag kMaxSeq = dbl_2_53"
      by (simp_all add: dbl_key_def kMaxSeq_def dbl_neg_def dbl_mag_def dbl_2_53_def dbl_is_nan_def dbl_exp_def dbl_frac_def
          dbl_abs_trunc_def dbl_scale_def dbl_mant_def)
    have "\<not> dbl_is_nan 0" "dbl_key 0 = 0"
      by (simp_all add: dbl_is_nan_def dbl_exp_def dbl_frac_def dbl_mag_def dbl_key_def)
    then have mag: "0 \<le> dbl_key x" "dbl_key x \<le> int dbl_2_53"
      using x(1,2) False k(1,2) by (simp_all add: z dbl_less_def)
    have m: "dbl_mag x \<le> dbl_2_53" using mag by (auto simp: dbl_key_def split: if_splits)
    have t: "dbl_abs_trunc x \<le> 2 ^ 53"
    proof (cases "dbl_mag x = dbl_2_53")
      case True
      then have "dbl_abs_trunc x = dbl_abs_trunc kMaxSeq"
        using k(4) by (simp add: dbl_abs_trunc_def dbl_mant_def dbl_scale_def dbl_exp_def dbl_frac_def)
      then show ?thesis using k(3) by simp
    next
      case False
      then show ?thesis using m dbl_abs_trunc_lt(1) [of x] by simp
    qed
    have "0 \<le> dbl_trunc x"
    proof (cases "dbl_neg x")
      case True
      then have "dbl_mag x = 0" using mag(1) by (simp add: dbl_key_def)
      then have "dbl_abs_trunc x = 0" by (simp add: dbl_abs_trunc_def dbl_mant_def dbl_scale_def dbl_exp_def dbl_frac_def)
      then show ?thesis by (simp add: dbl_trunc_def)
    qed (simp add: dbl_trunc_def)
    then have "uint n \<le> 2 ^ 53"
      using t unfolding x(3) by (simp add: dbl_trunc_def uint_word_of_int_eq take_bit_int_eq_self split: if_splits)
    then show ?thesis by (simp add: word_le_def)
  qed
qed

lemma read_header_ok: "read_header limits j payload = Inr m \<Longrightarrow> message_ok limits m"
proof -
  assume r: "read_header limits j payload = Inr m"
  then obtain k auth where k: "m_kind m = k" "text_field (Some j) ''auth'' False 4096 = Some auth" "unhex_strict auth = Some (m_auth m)"
    by (auto simp: read_header_def Let_def bind_eq_Some_conv split: option.splits if_splits)
  have "length (m_auth m) \<le> 2048" using text_field_short [OF k(2)] unhex_half [OF k(3)] by simp
  then show ?thesis
    using r by (auto simp: read_header_def message_ok_def Let_def bind_eq_Some_conv
        dest!: text_field_short read_addresses_ok read_seq_bound split: option.splits if_splits)
qed

text \<open>C11. No frame, however malformed or large, is trusted with more than the limits allow: whatever
  bytes arrive and whatever the parser returns, a message that is accepted keeps every bound, and
  its payload is what is left of a frame that keeps the limit.\<close>

theorem accepted_is_bounded:
  assumes "decode_frame ps limits frame = Inr m"
  shows "message_ok limits m \<and> length frame \<le> max_frame limits \<and> (\<exists>prefix. frame = prefix @ m_payload m \<and> 8 \<le> length prefix)"
proof -
  have p: "read_header limits j payload = Inr m \<Longrightarrow> m_payload m = payload" for j payload
    by (auto simp: read_header_def Let_def split: option.splits if_splits)
  obtain j n where r: "read_header limits j (drop (8 + n) frame) = Inr m" "n \<le> length frame - 8" "8 \<le> length frame"
      "length frame \<le> max_frame limits"
    using assms by (auto simp: decode_frame_def Let_def split: option.splits if_splits)
  have "frame = take (8 + n) frame @ m_payload m" using p [OF r(1)] by simp
  moreover have "8 \<le> length (take (8 + n) frame)" using r(2,3) by simp
  ultimately show ?thesis using read_header_ok [OF r(1)] r(4) by blast
qed

section \<open>A frame brings the message it was made of\<close>

lemma read_seq_mk_int: "n \<le> 2 ^ 53 \<Longrightarrow> read_seq (Some (mk_int (uint n))) = Some n"
proof -
  assume n: "n \<le> 2 ^ 53"
  have z: "\<not> dbl_is_nan (0 :: dbl)" "dbl_key 0 = 0" "dbl_of_int 0 = 0"
    by (simp_all add: dbl_is_nan_def dbl_exp_def dbl_frac_def dbl_mag_def dbl_key_def dbl_of_int_def dbl_bits_of_nat_def)
  have k: "\<not> dbl_is_nan kMaxSeq" "dbl_key kMaxSeq = int dbl_2_53" "dbl_trunc kMaxSeq = 2 ^ 53"
    by (simp_all add: dbl_key_def kMaxSeq_def dbl_neg_def dbl_mag_def dbl_2_53_def dbl_is_nan_def dbl_exp_def dbl_frac_def
        dbl_trunc_def dbl_abs_trunc_def dbl_scale_def dbl_mant_def)
  show ?thesis
  proof (cases "n = 2 ^ 53")
    case True
    have "bit_len (2 ^ 53) = 54" using bit_len_unique [of 53 "2 ^ 53"] by simp
    then have "dbl_of_int (2 ^ 53) = kMaxSeq"
      by (simp add: dbl_of_int_def dbl_bits_of_nat_def kMaxSeq_def nat_power_eq Let_def)
    then have "mk_int (uint n) = JNumber kMaxSeq" using True by (simp add: mk_int_def)
    then show ?thesis using True z k by (simp add: read_seq_def dbl_less_def dbl_2_53_def)
  next
    case False
    have "uint n \<le> 2 ^ 53" "uint n \<noteq> 2 ^ 53"
      using n False by (simp_all add: word_le_def word_uint_eq_iff)
    then have u: "\<bar>uint n\<bar> < 2 ^ 53" by simp
    note x = dbl_of_int_exact [OF u]
    have "\<not> dbl_neg (dbl_of_int (uint n))" using dbl_of_int_sign_mag [OF u] by simp
    then have "\<not> dbl_less (dbl_of_int (uint n)) (dbl_of_int 0)" "\<not> dbl_less kMaxSeq (dbl_of_int (uint n))"
      using x(3) z k by (simp_all add: dbl_less_def dbl_key_def)
    then show ?thesis by (simp add: read_seq_def mk_int_def x(1))
  qed
qed

lemma header_members:
  "get (Some (header_of m)) (ascii ''kind'') = Some (mk_string (message_name (m_kind m)))"
  "get (Some (header_of m)) (ascii ''from'') = Some (mk_string (m_from m))"
  "get (Some (header_of m)) (ascii ''session'') = Some (mk_string (m_session m))"
  "get (Some (header_of m)) (ascii ''seq'') = Some (mk_int (uint (m_seq m)))"
  "get (Some (header_of m)) (ascii ''digest'') = (if m_digest m = [] then None else Some (mk_string (m_digest m)))"
  "get (Some (header_of m)) (ascii ''reason'') = (if m_reason m = [] then None else Some (mk_string (m_reason m)))"
  "get (Some (header_of m)) (ascii ''address'') = (if m_address m = [] then None else Some (mk_string (m_address m)))"
  "get (Some (header_of m)) (ascii ''addresses'') =
     (if m_addresses m = [] then None else Some (JArray (map mk_string (m_addresses m))))"
  "get (Some (header_of m)) (ascii ''auth'') = (if m_auth m = [] then None else Some (mk_string (hexify (m_auth m))))"
  by (simp_all add: header_of_def unless_blank_def)

lemma text_field_mk:
  "get o' (ascii k) = Some (mk_string s) \<Longrightarrow> nul_free s \<Longrightarrow> length s \<le> n \<Longrightarrow> text_field o' k req n = Some s"
  by (simp add: text_field_def mk_string_def)

lemma text_field_optional:
  "get o' (ascii k) = (if s = [] then None else Some (mk_string s)) \<Longrightarrow> nul_free s \<Longrightarrow> length s \<le> n \<Longrightarrow>
   text_field o' k False n = Some s"
  by (auto simp: text_field_def mk_string_def)

lemma read_header_back:
  assumes ok: "message_ok limits m" and t: "\<forall>s \<in> set (message_texts m). nul_free s"
  shows "read_header limits (header_of m) (m_payload m) = Inr m"
proof -
  let ?h = "Some (header_of m)"
  note h = header_members [of m]
  have n: "nul_free (m_from m)" "nul_free (m_session m)" "nul_free (m_digest m)" "nul_free (m_reason m)"
      "nul_free (m_address m)" "\<forall>s \<in> set (m_addresses m). nul_free s"
    using t by (auto simp: message_texts_def)
  have o: "length (m_from m) \<le> 256" "length (m_session m) \<le> 256" "m_seq m \<le> 2 ^ 53" "length (m_digest m) \<le> 128"
      "length (m_reason m) \<le> 1024" "length (m_address m) \<le> 256" "length (m_addresses m) \<le> max_addresses limits"
      "\<forall>a \<in> set (m_addresses m). length a \<le> 256" "length (m_auth m) \<le> 2048"
    using ok by (simp_all add: message_ok_def)
  have "text_field ?h ''kind'' True 16 = Some (message_name (m_kind m))"
    using text_field_mk [OF h(1)] message_name_short by blast
  then have f1: "Option.bind (text_field ?h ''kind'' True 16) kind_from = Some (m_kind m)" by simp
  have f2: "text_field ?h ''from'' True 256 = Some (m_from m)" using text_field_mk [OF h(2) n(1) o(1)] .
  have f3: "text_field ?h ''session'' True 256 = Some (m_session m)" using text_field_mk [OF h(3) n(2) o(2)] .
  have f4: "read_seq (get ?h (ascii ''seq'')) = Some (m_seq m)" using read_seq_mk_int [OF o(3)] h(4) by simp
  have f5: "text_field ?h ''digest'' False 128 = Some (m_digest m)" using text_field_optional [OF h(5) n(3) o(4)] .
  have f6: "text_field ?h ''reason'' False 1024 = Some (m_reason m)" using text_field_optional [OF h(6) n(4) o(5)] .
  have f7: "text_field ?h ''address'' False 256 = Some (m_address m)" using text_field_optional [OF h(7) n(5) o(6)] .
  have "map mk_string ss = map JString ss" if "\<forall>s \<in> set ss. nul_free s" for ss
    using that by (simp add: mk_string_def)
  then have "strings_of (map mk_string (m_addresses m)) = Some (m_addresses m)"
    using n(6) by (simp add: strings_of_spec)
  then have f8: "read_addresses limits (get ?h (ascii ''addresses'')) = Inr (m_addresses m)"
    using o(7,8) unfolding h(8) by (simp add: read_addresses_def list_all_iff)
  have "length (hexify (m_auth m)) \<le> 4096" using o(9) unhex_half [OF unhex_hexify, of "m_auth m"] by simp
  moreover have "get ?h (ascii ''auth'') = (if hexify (m_auth m) = [] then None else Some (mk_string (hexify (m_auth m))))"
    unfolding h(9) using unhex_half [OF unhex_hexify, of "m_auth m"] by (cases "m_auth m = []") (auto simp: hexify_def)
  ultimately have "text_field ?h ''auth'' False 4096 = Some (hexify (m_auth m))"
    using text_field_optional nul_free_hexify by blast
  then have f9: "Option.bind (text_field ?h ''auth'' False 4096) unhex_strict = Some (m_auth m)" by simp
  have p: "\<not> (\<not> carries_payload (m_kind m) \<and> m_payload m \<noteq> [])"
    "\<not> (m_kind m = Presence \<and> length (m_payload m) > max_presence limits)"
    using ok by (auto simp: message_ok_def)
  show ?thesis
    unfolding read_header_def Let_def f1 f2 f3 f4 f5 f6 f7 f8 f9
    using p by (simp add: and_then_def or_bad_def)
qed

lemma read_put_u32: "read_u32 (put_u32 v @ s) = v"
proof -
  have e: "[0..<4] = [0, 1, 2, 3]" by (simp add: upt_rec)
  have "read_u32 b = foldl (\<lambda>w k. w OR push_bit (k * 8) (ucast (b ! k))) 0 [0..<4]" for b
    unfolding e by (simp add: read_u32_def or.assoc)
  then show ?thesis using take_put_u32 [of v s] by (simp add: take_u32_def put_u32_def split: if_splits del: upt_conv_Cons)
qed

lemma frame_back:
  assumes ok: "message_ok limits m" "\<forall>s \<in> set (message_texts m). nul_free s"
    and parse: "ps (pr (header_of m)) = Some (header_of m)"
    and fits: "length (encode_frame pr m) \<le> max_frame limits" "max_frame limits < 2 ^ 32"
  shows "decode_frame ps limits (encode_frame pr m) = Inr m"
proof -
  let ?h = "pr (header_of m)"
  have len: "length (put_u32 v) = 4" for v by (simp add: put_u32_def)
  have frame: "encode_frame pr m = ascii ''VPS1'' @ put_u32 (word_of_nat (length ?h)) @ ?h @ m_payload m"
    by (simp add: encode_frame_def Let_def)
  have l: "length (encode_frame pr m) = 8 + length ?h + length (m_payload m)" by (simp add: frame len ascii_def)
  have d: "drop 4 (encode_frame pr m) = put_u32 (word_of_nat (length ?h)) @ ?h @ m_payload m"
    "drop 8 (encode_frame pr m) = ?h @ m_payload m" "take 4 (encode_frame pr m) = ascii ''VPS1''"
    by (simp_all add: frame len ascii_def)
  have "length ?h < 2 ^ 32" using fits l by linarith
  then have u: "unat (word_of_nat (length ?h) :: 32 word) = length ?h" by (simp add: unsigned_of_nat take_bit_nat_eq_self)
  have e: "drop (8 + length ?h) (encode_frame pr m) = m_payload m"
    using d(2) by (metis add.commute drop_drop append_eq_conv_conj)
  have "is_JObject (Some (header_of m))" by (simp add: header_of_def)
  then show ?thesis
    unfolding decode_frame_def Let_def d read_put_u32 u e
    using fits(1) l parse read_header_back [OF ok] by (simp add: not_less)
qed

text \<open>C12. A frame brings back the message it was made of, with every member in its place, whatever the
  kind; the parser has to read back the header that was printed.\<close>

theorem frame_roundtrip:
  assumes ok: "message_ok limits m" "\<forall>s \<in> set (message_texts m). nul_free s"
    and parse: "ps (pr (header_of m)) = Some (header_of m)"
    and fits: "length (encode_frame pr m) \<le> max_frame limits" "max_frame limits < 2 ^ 32"
  shows "decode_frame ps limits (encode_frame pr m) = Inr m"
  using assms by (rule frame_back)

section \<open>A stream, however it is cut\<close>

text \<open>What the bytes held so far say, without a buffer: wait for more, never read on, or the first
  frame and the bytes after it.\<close>

datatype stream_view = Wait | Broken bytes | Frame bytes bytes

definition view :: "limits \<Rightarrow> bytes \<Rightarrow> stream_view" where
  "view limits b =
     (if length b < 4 then Wait
      else
        let len = unat (read_u32 b) in
        if len > max_frame limits then Broken (ascii ''a frame longer than the limit'')
        else if len < kPrefix then Broken (ascii ''a frame shorter than its own prefix'')
        else
          let magic = min (length b - 4) 4 in
          if take magic (drop 4 b) \<noteq> take magic (ascii ''VPS1'') then Broken (ascii ''not a Void Palabra frame'')
          else if length b - 4 < len then Wait
          else Frame (take len (drop 4 b)) (drop (4 + len) b))"

lemma view_Frame_length: "view limits b = Frame f r \<Longrightarrow> length r < length b"
  by (auto simp: view_def Let_def split: if_splits)

function frames_of :: "limits \<Rightarrow> bytes \<Rightarrow> bytes list \<times> bytes \<times> bytes" where
  "frames_of limits b =
     (case view limits b of
        Wait \<Rightarrow> ([], b, [])
      | Broken why \<Rightarrow> ([], b, why)
      | Frame f r \<Rightarrow> (let (fs, x) = frames_of limits r in (f # fs, x)))"
  by pat_completeness auto
termination
  by (relation "measure (\<lambda>(limits, b). length b)") (auto simp: view_Frame_length)

declare frames_of.simps [simp del]

lemma read_u32_append: "4 \<le> length b \<Longrightarrow> read_u32 (b @ z) = read_u32 b"
proof -
  assume "4 \<le> length b"
  then have "0 < length b" "1 < length b" "2 < length b" "3 < length b" by linarith+
  then show ?thesis by (simp only: read_u32_def nth_append if_True)
qed

lemma broken_why: "view limits b = Broken why \<Longrightarrow> why \<noteq> []"
  by (auto simp: view_def Let_def ascii_def split: if_splits)

lemma take_prefix:
  assumes "take n (x @ z) = take n y" "m \<le> n" "m \<le> length x"
  shows "take m x = take m y"
proof -
  have "take m x = take m (take n (x @ z))" using assms(2,3) by (simp add: min_absorb1)
  also have "\<dots> = take m y" using assms(1,2) by (simp add: min_absorb1)
  finally show ?thesis .
qed

lemma view_append:
  "view limits b = Broken why \<Longrightarrow> view limits (b @ z) = Broken why"
  "view limits b = Frame f r \<Longrightarrow> view limits (b @ z) = Frame f (r @ z)"
proof -
  let ?len = "unat (read_u32 b)" and ?m = "min (length b - 4) 4" and ?n = "min (length (b @ z) - 4) 4"
  have prefix: "take ?m (drop 4 b) = take ?m (ascii ''VPS1'')"
    if "take ?n (drop 4 (b @ z)) = take ?n (ascii ''VPS1'')" "4 \<le> length b"
  proof (rule take_prefix)
    show "take ?n (drop 4 b @ z) = take ?n (ascii ''VPS1'')" using that by simp
  qed simp_all
  show "view limits b = Broken why \<Longrightarrow> view limits (b @ z) = Broken why"
  proof -
    assume v: "view limits b = Broken why"
    then have b: "4 \<le> length b" by (simp add: view_def split: if_splits)
    consider (size) "?len > max_frame limits \<or> ?len < kPrefix"
      | (magic) "\<not> ?len > max_frame limits" "\<not> ?len < kPrefix" "take ?m (drop 4 b) \<noteq> take ?m (ascii ''VPS1'')"
        "why = ascii ''not a Void Palabra frame''"
      using v by (auto simp: view_def Let_def split: if_splits)
    then show ?thesis
    proof cases
      case size
      then show ?thesis using v b by (auto simp: view_def Let_def read_u32_append)
    next
      case magic
      have "take ?n (drop 4 (b @ z)) \<noteq> take ?n (ascii ''VPS1'')" using magic(3) prefix b by blast
      then show ?thesis using magic b unfolding view_def Let_def by (simp add: read_u32_append del: drop_append take_append)
    qed
  qed
  assume v: "view limits b = Frame f r"
  then have b: "4 \<le> length b" "\<not> ?len > max_frame limits" "\<not> ?len < kPrefix" "take ?m (drop 4 b) = take ?m (ascii ''VPS1'')"
      "\<not> length b - 4 < ?len" "f = take ?len (drop 4 b)" "r = drop (4 + ?len) b"
    by (auto simp: view_def Let_def split: if_splits)
  have m: "?m = 4" "?n = 4" using b(3,5) by (simp_all add: kPrefix_def)
  then have "take ?n (drop 4 (b @ z)) = take ?n (ascii ''VPS1'')"
    using b(1,3-5) by (simp add: kPrefix_def)
  then show "view limits (b @ z) = Frame f (r @ z)"
    using b m by (simp add: view_def Let_def read_u32_append)
qed

lemma frames_of_append:
  "frames_of limits (b @ z) =
     (let (fs, r, why) = frames_of limits b in
      if why \<noteq> [] then (fs, r @ z, why) else let (gs, x) = frames_of limits (r @ z) in (fs @ gs, x))"
proof (induction limits b rule: frames_of.induct)
  case (1 limits b)
  show ?case
  proof (cases "view limits b")
    case Wait
    then show ?thesis by (simp add: frames_of.simps [of limits b])
  next
    case (Broken why)
    then show ?thesis
      using view_append(1) [OF Broken] broken_why [OF Broken] by (simp add: frames_of.simps [of limits b] frames_of.simps [of limits "b @ z"])
  next
    case (Frame f r)
    show ?thesis
      using 1 [OF Frame] view_append(2) [OF Frame] Frame
      by (simp add: frames_of.simps [of limits b] frames_of.simps [of limits "b @ z"] split: prod.splits if_splits)
  qed
qed

lemma frames_rest: "frames_of limits b = (fs, r, []) \<Longrightarrow> frames_of limits r = ([], r, [])"
proof (induction limits b arbitrary: fs rule: frames_of.induct)
  case (1 limits b)
  show ?case
  proof (cases "view limits b")
    case (Frame f b')
    then obtain gs where "frames_of limits b' = (gs, r, [])"
      using 1(2) by (auto simp: frames_of.simps [of limits b] split: prod.splits)
    then show ?thesis using 1(1) [OF Frame] by simp
  next
    case Wait
    then have "frames_of limits b = ([], b, [])" by (simp add: frames_of.simps [of limits b])
    then show ?thesis using 1(2) by simp
  next
    case (Broken why)
    then show ?thesis using 1(2) broken_why [OF Broken] by (simp add: frames_of.simps [of limits b])
  qed
qed

text \<open>A reader stands for the bytes from its position on.\<close>

definition held :: "reader \<Rightarrow> bytes" where
  "held r = drop (rd_at r) (rd_buf r)"

lemma feed_held:
  "\<not> reader_broken r \<Longrightarrow> rd_at r \<le> length (rd_buf r) \<Longrightarrow>
   held (feed data r) = held r @ data \<and> rd_at (feed data r) \<le> length (rd_buf (feed data r)) \<and>
   \<not> reader_broken (feed data r) \<and> rd_limits (feed data r) = rd_limits r"
  by (auto simp: feed_def held_def Let_def reader_broken_def)

lemma next_held:
  assumes "\<not> reader_broken r" "rd_at r \<le> length (rd_buf r)"
  shows "case view (rd_limits r) (held r) of
      Wait \<Rightarrow> next_frame r = (None, r)
    | Broken why \<Rightarrow> next_frame r = (None, r\<lparr> rd_why := why \<rparr>)
    | Frame f b \<Rightarrow> \<exists>r'. next_frame r = (Some f, r') \<and> held r' = b \<and> rd_at r' \<le> length (rd_buf r') \<and>
        \<not> reader_broken r' \<and> rd_limits r' = rd_limits r"
proof -
  let ?b = "held r"
  have e: "length (rd_buf r) - rd_at r = length ?b" "drop (rd_at r) (rd_buf r) = ?b"
    "drop (rd_at r + 4) (rd_buf r) = drop 4 ?b"
    by (simp_all add: held_def add.commute)
  let ?len = "unat (read_u32 ?b)"
  have adv: "\<exists>r'. (Some f, if rd_at r + 4 + ?len = length (rd_buf r) then r\<lparr> rd_buf := [], rd_at := 0 \<rparr>
          else r\<lparr> rd_at := rd_at r + 4 + ?len \<rparr>) = (Some f, r') \<and> held r' = drop (4 + ?len) ?b \<and>
        rd_at r' \<le> length (rd_buf r') \<and> \<not> reader_broken r' \<and> rd_limits r' = rd_limits r"
    if "\<not> length ?b - 4 < ?len" "\<not> length ?b < 4" for f
  proof -
    define n where "n = rd_at r + 4 + ?len"
    have n: "n \<le> length (rd_buf r)" using that e(1) assms(2) by (simp add: n_def)
    have "n = (4 + ?len) + rd_at r" by (simp add: n_def)
    then have "drop n (rd_buf r) = drop (4 + ?len) ?b" unfolding held_def by (simp only: drop_drop)
    then show ?thesis using n assms(1) unfolding n_def [symmetric] by (auto simp: held_def [of "r\<lparr> rd_at := n \<rparr>"] held_def [of "r\<lparr> rd_buf := [], rd_at := 0 \<rparr>"] reader_broken_def)
  qed
  have nb: "\<not> reader_broken r" by (rule assms(1))
  show ?thesis
    unfolding view_def next_frame_def Let_def e if_not_P [OF nb]
    using adv by (simp split: if_split)
qed

text \<open>A transport calls \<open>next_frame\<close> until it returns nothing, after every piece the socket gives it.\<close>

function drain :: "reader \<Rightarrow> bytes list \<times> reader" where
  "drain r =
     (if rd_at r > length (rd_buf r) then ([], r)
      else case next_frame r of (None, r') \<Rightarrow> ([], r') | (Some f, r') \<Rightarrow> (let (fs, r'') = drain r' in (f # fs, r'')))"
  by pat_completeness auto

lemma next_shorter:
  assumes "next_frame r = (Some f, r')" "rd_at r \<le> length (rd_buf r)"
  shows "length (held r') < length (held r)"
proof -
  have b: "\<not> reader_broken r" using assms by (auto simp: next_frame_def)
  note n = next_held [OF b assms(2)]
  show ?thesis
    using n assms(1) view_Frame_length [of "rd_limits r" "held r"] by (cases "view (rd_limits r) (held r)") auto
qed

termination drain
  by (relation "measure (\<lambda>r. length (held r))") (auto simp: next_shorter dest: sym)

declare drain.simps [simp del]

lemma drain_frames_of:
  "\<not> reader_broken r \<Longrightarrow> rd_at r \<le> length (rd_buf r) \<Longrightarrow>
   \<exists>r'. drain r = (fst (frames_of (rd_limits r) (held r)), r') \<and>
     held r' = fst (snd (frames_of (rd_limits r) (held r))) \<and> rd_why r' = snd (snd (frames_of (rd_limits r) (held r))) \<and>
     rd_at r' \<le> length (rd_buf r') \<and> rd_limits r' = rd_limits r"
proof (induction "length (held r)" arbitrary: r rule: less_induct)
  case less
  note n = next_held [OF less.prems]
  show ?case
  proof (cases "view (rd_limits r) (held r)")
    case Wait
    then show ?thesis using n less.prems
      by (simp add: drain.simps [of r] frames_of.simps [of _ "held r"] reader_broken_def)
  next
    case (Broken why)
    moreover have "held (r\<lparr> rd_why := why \<rparr>) = held r" by (simp add: held_def)
    ultimately show ?thesis using n less.prems
      by (simp add: drain.simps [of r] frames_of.simps [of _ "held r"])
  next
    case (Frame f b)
    then obtain r' where r': "next_frame r = (Some f, r')" "held r' = b" "rd_at r' \<le> length (rd_buf r')"
      "\<not> reader_broken r'" "rd_limits r' = rd_limits r" using n by auto
    have "length (held r') < length (held r)" using view_Frame_length [OF Frame] r'(2) by simp
    from less.hyps [OF this r'(4,3)] show ?thesis
      using r' Frame less.prems(2)
      by (auto simp: drain.simps [of r] frames_of.simps [of _ "held r"] split: prod.split)
  qed
qed

fun read_pieces :: "bytes list \<Rightarrow> reader \<Rightarrow> bytes list \<times> reader" where
  "read_pieces [] r = ([], r)"
| "read_pieces (p # ps) r =
     (let (fs, r) = drain (feed p r); (gs, r) = read_pieces ps r in (fs @ gs, r))"

text \<open>What the pieces together give is what the whole stream gives.\<close>

lemma read_pieces_spec:
  "rd_at r \<le> length (rd_buf r) \<Longrightarrow>
   (reader_broken r \<longrightarrow> read_pieces ps r = ([], r)) \<and>
   (\<not> reader_broken r \<longrightarrow> frames_of (rd_limits r) (held r) = ([], held r, []) \<longrightarrow>
     (\<exists>rest. frames_of (rd_limits r) (held r @ concat ps) =
          (fst (read_pieces ps r), rest, rd_why (snd (read_pieces ps r))) \<and>
        (rd_why (snd (read_pieces ps r)) = [] \<longrightarrow> held (snd (read_pieces ps r)) = rest)))"
proof (induction ps arbitrary: r)
  case Nil
  then show ?case by (auto simp: reader_broken_def)
next
  case (Cons p ps)
  show ?case
  proof (cases "reader_broken r")
    case True
    then have "drain (feed p r) = ([], r)" by (simp add: feed_def drain.simps [of r] next_frame_def)
    then show ?thesis using True Cons by simp
  next
    case False
    let ?f = "feed p r"
    note f = feed_held [OF False Cons.prems, of p]
    obtain r1 where r1: "drain ?f = (fst (frames_of (rd_limits r) (held r @ p)), r1)"
      "held r1 = fst (snd (frames_of (rd_limits r) (held r @ p)))" "rd_why r1 = snd (snd (frames_of (rd_limits r) (held r @ p)))"
      "rd_at r1 \<le> length (rd_buf r1)" "rd_limits r1 = rd_limits r"
      using drain_frames_of [of ?f] f by auto
    obtain fs rest why where v: "frames_of (rd_limits r) (held r @ p) = (fs, rest, why)" by (cases "frames_of (rd_limits r) (held r @ p)") auto
    have all: "frames_of (rd_limits r) (held r @ p @ concat ps) =
        (if why \<noteq> [] then (fs, rest @ concat ps, why)
         else let (gs, x) = frames_of (rd_limits r) (rest @ concat ps) in (fs @ gs, x))"
      using frames_of_append [of "rd_limits r" "held r @ p" "concat ps"] v by simp
    show ?thesis
    proof (cases "why = []")
      case True
      then have nb: "\<not> reader_broken r1" using r1(3) v by (simp add: reader_broken_def)
      have "frames_of (rd_limits r) rest = ([], rest, [])" using frames_rest [of "rd_limits r" "held r @ p" fs rest] v True by simp
      then obtain rest' where i:
        "frames_of (rd_limits r) (rest @ concat ps) = (fst (read_pieces ps r1), rest', rd_why (snd (read_pieces ps r1)))"
        "rd_why (snd (read_pieces ps r1)) = [] \<longrightarrow> held (snd (read_pieces ps r1)) = rest'"
        using Cons.IH [OF r1(4)] nb r1(2,5) v by auto
      moreover have "read_pieces (p # ps) r = (fs @ fst (read_pieces ps r1), snd (read_pieces ps r1))"
        using r1(1) v by (simp add: case_prod_beta)
      ultimately show ?thesis using all True False by simp
    next
      case broken: False
      then have "reader_broken r1" using r1(3) v by (simp add: reader_broken_def)
      then have "read_pieces ps r1 = ([], r1)" using Cons.IH [OF r1(4)] by simp
      then show ?thesis using all broken r1(1,3) v False by simp
    qed
  qed
qed

lemma read_new:
  "\<exists>rest. frames_of limits (concat ps) =
      (fst (read_pieces ps (new_reader limits)), rest, rd_why (snd (read_pieces ps (new_reader limits)))) \<and>
    (rd_why (snd (read_pieces ps (new_reader limits))) = [] \<longrightarrow> held (snd (read_pieces ps (new_reader limits))) = rest)"
proof -
  have "frames_of limits [] = ([], [], [])" by (simp add: frames_of.simps [of limits "[]"] view_def)
  then show ?thesis
    using read_pieces_spec [of "new_reader limits" ps] by (simp add: new_reader_def reader_broken_def held_def)
qed

lemma waiting_bound:
  assumes "frames_of limits b = (fs, r, [])"
  shows "length r < max_frame limits + 4"
proof -
  have r: "frames_of limits r = ([], r, [])" using assms by (rule frames_rest)
  have "view limits r = Wait"
  proof (cases "view limits r")
    case (Broken why)
    then show ?thesis using r broken_why [OF Broken] by (simp add: frames_of.simps [of limits r])
  next
    case (Frame f b')
    then show ?thesis using r by (simp add: frames_of.simps [of limits r] split: prod.splits)
  qed
  then show ?thesis by (auto simp: view_def Let_def split: if_splits)
qed

text \<open>C13. How a stream is cut does not matter: two readers that are fed the same bytes in different
  pieces hand out the same frames, break on the same ground and hold the same unread bytes, and
  what is held is always less than one frame of the limit.\<close>

theorem stream_any_cut:
  assumes "concat ps = concat qs"
    and p: "read_pieces ps (new_reader limits) = (fs, r)" and q: "read_pieces qs (new_reader limits) = (gs, r')"
  shows "fs = gs \<and> rd_why r = rd_why r' \<and>
    (\<not> reader_broken r \<longrightarrow> held r = held r' \<and> pending r < max_frame limits + 4)"
proof -
  obtain rest rest' where a: "frames_of limits (concat ps) = (fs, rest, rd_why r)" "rd_why r = [] \<longrightarrow> held r = rest"
      "frames_of limits (concat qs) = (gs, rest', rd_why r')" "rd_why r' = [] \<longrightarrow> held r' = rest'"
    using read_new [of limits ps] read_new [of limits qs] p q by auto
  then have "fs = gs" "rest = rest'" "rd_why r = rd_why r'" using assms(1) by simp_all
  moreover have "pending r = length (held r)" by (simp add: pending_def held_def)
  ultimately show ?thesis using a waiting_bound [of limits "concat ps" fs rest] by (auto simp: reader_broken_def)
qed

lemma view_stream_frame:
  assumes "8 \<le> length f" "length f \<le> max_frame limits" "max_frame limits < 2 ^ 32" "take 4 f = ascii ''VPS1''"
  shows "view limits (stream_frame f @ z) = Frame f z"
proof -
  let ?p = "put_u32 (word_of_nat (length f))"
  have len: "length ?p = 4" by (simp add: put_u32_def)
  have u: "unat (word_of_nat (length f) :: 32 word) = length f"
    using assms(2,3) by (simp add: unsigned_of_nat take_bit_nat_eq_self)
  have b: "stream_frame f @ z = ?p @ f @ z" by (simp add: stream_frame_def)
  have d: "drop 4 (?p @ f @ z) = f @ z" "drop (4 + length f) (?p @ f @ z) = z" using len by simp_all
  have m: "min (length (?p @ f @ z) - 4) 4 = 4" using assms(1) len by simp
  have t: "take 4 (f @ z) = ascii ''VPS1''" "take 4 (ascii ''VPS1'') = ascii ''VPS1''"
    using assms(1,4) by (simp_all add: ascii_def)
  have l: "length (?p @ f @ z) = 4 + length f + length z" using len by simp
  show ?thesis
    unfolding b view_def Let_def read_put_u32 u d m t using assms(1,2) l by (simp add: kPrefix_def)
qed

text \<open>C14. Frames sent over a stream arrive: whatever pieces the bytes are read in, the reader hands out
  exactly the frames that were sent, in order, and nothing is left over.\<close>

theorem stream_delivers:
  assumes fs: "\<forall>f \<in> set fs. 8 \<le> length f \<and> length f \<le> max_frame limits \<and> take 4 f = ascii ''VPS1''"
    and m: "max_frame limits < 2 ^ 32" and c: "concat ps = concat (map stream_frame fs)"
  shows "\<exists>r. read_pieces ps (new_reader limits) = (fs, r) \<and> \<not> reader_broken r \<and> pending r = 0"
proof -
  have "frames_of limits (concat (map stream_frame fs)) = (fs, [], [])"
    using fs
  proof (induction fs)
    case Nil
    show ?case by (simp add: frames_of.simps [of limits "[]"] view_def)
  next
    case (Cons f fs)
    have v: "view limits (stream_frame f @ concat (map stream_frame fs)) = Frame f (concat (map stream_frame fs))"
      using view_stream_frame [of f limits] Cons.prems m by simp
    show ?case
      using Cons v by (simp add: frames_of.simps [of limits "stream_frame f @ concat (map stream_frame fs)"])
  qed
  then obtain r where r: "read_pieces ps (new_reader limits) = (fs, r)" "rd_why r = []" "held r = []"
    using read_new [of limits ps] c by (cases "read_pieces ps (new_reader limits)") auto
  then have "pending r = 0" by (simp add: pending_def held_def)
  then show ?thesis using r by (simp add: reader_broken_def)
qed

section \<open>At concrete inputs\<close>

definition hello_from :: "bytes \<Rightarrow> message" where
  "hello_from i = blank_message\<lparr> m_from := i, m_session := i @ ascii ''@0'' \<rparr>"

text \<open>A printer that prints one header, and its parser.\<close>

definition print_short :: "json \<Rightarrow> bytes" where
  "print_short j = ascii ''h''"

definition parse_hello :: "bytes \<Rightarrow> json option" where
  "parse_hello b = Some (header_of (hello_from (ascii ''a'')))"

lemma hello_fits: "length (encode_frame print_short (hello_from (ascii ''a''))) = 9"
  by (simp add: encode_frame_def print_short_def put_u32_def ascii_def hello_from_def blank_message_def)

lemma hello_ok:
  "message_ok default_limits (hello_from (ascii ''a''))" "\<forall>s \<in> set (message_texts (hello_from (ascii ''a''))). nul_free s"
  by (simp_all add: message_ok_def hello_from_def blank_message_def message_texts_def nul_free_ascii default_limits_def)
     (simp_all add: ascii_def)

lemma hello_arrives:
  "parse_hello (print_short (header_of (hello_from (ascii ''a'')))) = Some (header_of (hello_from (ascii ''a'')))"
  "length (encode_frame print_short (hello_from (ascii ''a''))) \<le> max_frame default_limits"
  "max_frame default_limits < 2 ^ 32"
  "decode_frame parse_hello default_limits (encode_frame print_short (hello_from (ascii ''a''))) = Inr (hello_from (ascii ''a''))"
proof -
  show h: "parse_hello (print_short (header_of (hello_from (ascii ''a'')))) = Some (header_of (hello_from (ascii ''a'')))"
      "length (encode_frame print_short (hello_from (ascii ''a''))) \<le> max_frame default_limits"
      "max_frame default_limits < 2 ^ 32"
    by (simp_all add: parse_hello_def hello_fits default_limits_def)
  show "decode_frame parse_hello default_limits (encode_frame print_short (hello_from (ascii ''a''))) = Inr (hello_from (ascii ''a''))"
    using hello_ok h by (rule frame_back)
qed

theorem frame_roundtrip_witness:
  "decode_frame parse_hello default_limits (encode_frame print_short (hello_from (ascii ''a''))) = Inr (hello_from (ascii ''a''))"
  using hello_ok hello_arrives(1-3) by (rule frame_roundtrip)

theorem accepted_is_bounded_witness:
  "message_ok default_limits (hello_from (ascii ''a''))"
  using accepted_is_bounded [OF hello_arrives(4)] by simp

definition tiny_frame :: bytes where
  "tiny_frame = ascii ''VPS1'' @ put_u32 0"

theorem stream_any_cut_witness:
  "fst (read_pieces [stream_frame tiny_frame] (new_reader default_limits)) =
   fst (read_pieces [take 3 (stream_frame tiny_frame), drop 3 (stream_frame tiny_frame)] (new_reader default_limits))"
proof -
  obtain fs r gs r' where
    p: "read_pieces [stream_frame tiny_frame] (new_reader default_limits) = (fs, r)"
    and q: "read_pieces [take 3 (stream_frame tiny_frame), drop 3 (stream_frame tiny_frame)] (new_reader default_limits) = (gs, r')"
    by (cases "read_pieces [stream_frame tiny_frame] (new_reader default_limits)",
        cases "read_pieces [take 3 (stream_frame tiny_frame), drop 3 (stream_frame tiny_frame)] (new_reader default_limits)") blast
  have "concat [stream_frame tiny_frame] = concat [take 3 (stream_frame tiny_frame), drop 3 (stream_frame tiny_frame)]"
    by simp
  from stream_any_cut [OF this p q] show ?thesis using p q by simp
qed

theorem stream_delivers_witness:
  "fst (read_pieces [take 3 (stream_frame tiny_frame), drop 3 (stream_frame tiny_frame)] (new_reader default_limits)) = [tiny_frame]"
proof -
  have "\<exists>r. read_pieces [take 3 (stream_frame tiny_frame), drop 3 (stream_frame tiny_frame)] (new_reader default_limits) =
      ([tiny_frame], r) \<and> \<not> reader_broken r \<and> pending r = 0"
    by (rule stream_delivers) (simp_all add: tiny_frame_def default_limits_def put_u32_def ascii_def)
  then show ?thesis by auto
qed

end
