(* ===== verification/References.thy ===== *)
theory References
  imports Store Document "HOL-Library.Product_Lexorder"
begin

text \<open>
  Which files a document names (\<^verbatim>\<open>src/canonical/references.cpp\<close>). A finder is a function the
  application declares for a field, or null; \<open>decl\<close> stands for \<^verbatim>\<open>ReferencePolicy::decl\<close>.
\<close>

section \<open>Addresses in text\<close>

type_synonym address_finder = "json \<Rightarrow> bytes list \<Rightarrow> bytes list"

definition lower_hex :: "byte \<Rightarrow> bool" where
  "lower_hex c \<longleftrightarrow> (c \<ge> 0x30 \<and> c \<le> 0x39) \<or> (c \<ge> 0x61 \<and> c \<le> 0x66)"

function hex_runs :: "bytes \<Rightarrow> bytes list \<Rightarrow> bytes list" where
  "hex_runs [] out = out"
| "hex_runs (c # s) out =
     (if \<not> lower_hex c then hex_runs s out
      else
        let run = takeWhile lower_hex (c # s);
            out = (if length run = 64 then os_insert run out else out)
        in hex_runs (dropWhile lower_hex (c # s)) out)"
  by pat_completeness auto
termination
  by (relation "measure (\<lambda>(s, out). length s)") (auto simp: le_imp_less_Suc length_dropWhile_le)

lemma size_children: "c \<in> set (children (Some v)) \<Longrightarrow> size c < size v"
proof (cases v)
  case (JObject ms)
  assume "c \<in> set (children (Some v))"
  then obtain k where "(k, c) \<in> set (members (Some v))" using JObject by auto
  from size_members [OF this] show ?thesis by simp
qed (auto simp: size_list_estimation' less_Suc_eq_le)

function walk_strings :: "json \<Rightarrow> bytes list \<Rightarrow> bytes list" where
  "walk_strings v out =
     (case as_string (Some v) of Some s \<Rightarrow> hex_runs s out
      | None \<Rightarrow> foldl (\<lambda>out c. walk_strings c out) out (children (Some v)))"
  by pat_completeness auto
termination
  by (relation "measure (\<lambda>(v, out). size v)") (auto simp: size_children)

declare walk_strings.simps [simp del]

definition is_hex_digest :: "bytes \<Rightarrow> bool" where
  "is_hex_digest a \<longleftrightarrow> length a = 64 \<and> list_all lower_hex a"

definition sha256_hex_anywhere :: address_finder where
  "sha256_hex_anywhere = (\<lambda>v out. walk_strings v out)"

section \<open>Fields that name files\<close>

type_synonym reference_policy = "(bytes, address_finder option) omap"

record reference =
  ref_address :: bytes
  ref_mantle :: bytes
  ref_rune :: bytes
  ref_glyph :: bytes
  ref_field :: bytes

definition longer_match ::
    "bytes \<Rightarrow> address_finder option option \<times> nat \<Rightarrow> bytes \<times> address_finder option \<Rightarrow> address_finder option option \<times> nat" where
  "longer_match field st kv =
     (if length (fst kv) < 2 \<or> last (fst kv) \<noteq> 0x2A then st
      else
        let prefix = butlast (fst kv) in
        if take (length prefix) field \<noteq> prefix then st
        else if fst st = None \<or> length prefix > snd st then (Some (snd kv), length prefix) else st)"

definition finder_of :: "reference_policy \<Rightarrow> bytes \<Rightarrow> address_finder option option" where
  "finder_of decl field =
     (case map_of decl field of Some f \<Rightarrow> Some f
      | None \<Rightarrow> fst (foldl (longer_match field) (None, 0) decl))"

definition collect_field ::
    "reference_policy \<Rightarrow> bytes \<Rightarrow> json option \<Rightarrow> bytes \<Rightarrow> bytes \<Rightarrow> bytes \<Rightarrow> reference list" where
  "collect_field decl name v mantle rune glyph =
     (case v of None \<Rightarrow> []
      | Some j \<Rightarrow>
          (case finder_of decl name of
             Some (Some finder) \<Rightarrow>
               map (\<lambda>a. \<lparr> ref_address = a, ref_mantle = mantle, ref_rune = rune, ref_glyph = glyph, ref_field = name \<rparr>)
                 (finder j [])
           | _ \<Rightarrow> []))"

definition rune_references :: "reference_policy \<Rightarrow> bytes \<Rightarrow> json \<Rightarrow> reference list" where
  "rune_references decl mname r =
     (let rr = Some r;
          i = str_or (get (get rr (ascii ''spirit'')) (ascii ''id'')) []
      in concat (map (\<lambda>kv. collect_field decl (ascii ''content.'' @ fst kv) (Some (snd kv)) mname i [])
                   (members (get rr (ascii ''content'')))) @
         collect_field decl (ascii ''placement'') (get rr (ascii ''placement'')) mname i [] @
         collect_field decl (ascii ''relations'') (get rr (ascii ''relations'')) mname i [] @
         collect_field decl (ascii ''tags'') (get rr (ascii ''tags'')) mname i [])"

definition array_items :: "json option \<Rightarrow> json list" where
  "array_items v = (if is_JArray v then children v else [])"

definition mantle_references :: "reference_policy \<Rightarrow> json \<Rightarrow> reference list" where
  "mantle_references decl m =
     (let mm = Some m; mname = str_or (get mm (ascii ''name'')) []
      in collect_field decl (ascii ''mantle.tags'') (get mm (ascii ''tags'')) mname [] [] @
         collect_field decl (ascii ''mantle.rules'') (get mm (ascii ''rules'')) mname [] [] @
         concat (map (rune_references decl mname) (array_items (get mm (ascii ''runes'')))))"

definition reference_key :: "reference \<Rightarrow> bytes \<times> bytes \<times> bytes \<times> bytes \<times> bytes" where
  "reference_key r = (ref_address r, ref_mantle r, ref_rune r, ref_glyph r, ref_field r)"

definition references :: "json option \<Rightarrow> reference_policy \<Rightarrow> reference list" where
  "references state decl =
     sort_key reference_key
       (concat (map (mantle_references decl) (array_items (get state (ascii ''mantles'')))) @
        concat (map (\<lambda>g. collect_field decl (ascii ''descriptor'') (Some (snd g)) [] [] (fst g))
          (members (get state (ascii ''glyphs'')))))"

definition missing_files :: "reference list \<Rightarrow> (bytes \<Rightarrow> bool) option \<Rightarrow> bytes list" where
  "missing_files refs have' =
     os_of (map ref_address (filter (\<lambda>r. case have' of None \<Rightarrow> True | Some h \<Rightarrow> \<not> h (ref_address r)) refs))"

definition held_by :: "store \<Rightarrow> bytes \<Rightarrow> bool" where
  "held_by s address \<longleftrightarrow>
     (if \<not> is_hex_digest address then False
      else case unhex_pairs address of None \<Rightarrow> False | Some d \<Rightarrow> block_has s d)"

definition content_matches :: "bytes \<Rightarrow> bytes \<Rightarrow> bool" where
  "content_matches address b \<longleftrightarrow> is_hex_digest address \<and> to_hex (sha256 b) = address"

section \<open>What is found\<close>

text \<open>A run of exactly 64 lower-case hexadecimal digits, with none before it and none after it.\<close>

definition address_in :: "bytes \<Rightarrow> bytes \<Rightarrow> bool" where
  "address_in s a \<longleftrightarrow> is_hex_digest a \<and>
     (\<exists>x y. s = x @ a @ y \<and> (x = [] \<or> \<not> lower_hex (last x)) \<and> (y = [] \<or> \<not> lower_hex (hd y)))"

lemma hex_digest_head: "is_hex_digest a \<Longrightarrow> a \<noteq> [] \<and> lower_hex (hd a)"
  by (cases a) (auto simp: is_hex_digest_def)

lemma address_in_skip: "\<not> lower_hex c \<Longrightarrow> address_in (c # s) a \<longleftrightarrow> address_in s a"
proof
  assume c: "\<not> lower_hex c"
  show "address_in (c # s) a \<Longrightarrow> address_in s a"
  proof -
    assume "address_in (c # s) a"
    then obtain x y where a: "is_hex_digest a" "c # s = x @ a @ y" "x = [] \<or> \<not> lower_hex (last x)" "y = [] \<or> \<not> lower_hex (hd y)"
      by (auto simp: address_in_def)
    have "x \<noteq> []" using a(1,2) c hex_digest_head [OF a(1)] by (cases a) auto
    then obtain x' where x: "x = c # x'" using a(2) by (cases x) auto
    then have "s = x' @ a @ y" "x' = [] \<or> \<not> lower_hex (last x')" using a(2,3) by auto
    then show "address_in s a" using a(1,4) by (auto simp: address_in_def)
  qed
  show "address_in s a \<Longrightarrow> address_in (c # s) a"
  proof -
    assume "address_in s a"
    then obtain x y where a: "is_hex_digest a" "s = x @ a @ y" "x = [] \<or> \<not> lower_hex (last x)" "y = [] \<or> \<not> lower_hex (hd y)"
      by (auto simp: address_in_def)
    then have "c # s = (c # x) @ a @ y" "\<not> lower_hex (last (c # x))" using c by auto
    then show "address_in (c # s) a" using a(1,4) unfolding address_in_def by blast
  qed
qed

lemma address_in_run:
  assumes r: "\<forall>c \<in> set r. lower_hex c" and t: "t = [] \<or> \<not> lower_hex (hd t)"
  shows "address_in (r @ t) a \<longleftrightarrow> (length r = 64 \<and> a = r) \<or> address_in t a"
proof
  assume "address_in (r @ t) a"
  then obtain x y where a: "is_hex_digest a" "r @ t = x @ a @ y" "x = [] \<or> \<not> lower_hex (last x)" "y = [] \<or> \<not> lower_hex (hd y)"
    by (auto simp: address_in_def)
  have hex: "\<forall>c \<in> set a. lower_hex c" using a(1) by (simp add: is_hex_digest_def list_all_iff)
  show "(length r = 64 \<and> a = r) \<or> address_in t a"
  proof (cases "x = []")
    case True
    have "takeWhile lower_hex (r @ t) = r" using r t by (cases t) (simp_all add: takeWhile_append2)
    moreover have "takeWhile lower_hex (a @ y) = a" using hex a(4) by (cases y) (simp_all add: takeWhile_append2)
    ultimately have "a = r" using a(2) True by simp
    then show ?thesis using a(1) by (simp add: is_hex_digest_def)
  next
    case False
    then have l: "\<not> lower_hex (last x)" using a(3) by simp
    have "length r < length x"
    proof (rule ccontr)
      assume "\<not> length r < length x"
      then have "x = take (length x) r" using a(2) by (metis append_eq_append_conv_if linorder_not_less)
      then have "last x \<in> set r" using False by (metis in_set_takeD last_in_set)
      then show False using r l by blast
    qed
    then obtain x' where x: "x = r @ x'" "x' \<noteq> []" "t = x' @ a @ y"
      using a(2) by (auto simp: append_eq_append_conv2)
    then have "\<not> lower_hex (last x')" using l by simp
    then show ?thesis using x(3) a(1,4) by (auto simp: address_in_def)
  qed
next
  assume "(length r = 64 \<and> a = r) \<or> address_in t a"
  then show "address_in (r @ t) a"
  proof
    assume "length r = 64 \<and> a = r"
    then have "is_hex_digest a \<and> r @ t = [] @ a @ t" using r by (simp add: is_hex_digest_def list_all_iff)
    then show ?thesis using t unfolding address_in_def by blast
  next
    assume "address_in t a"
    then obtain x y where a: "is_hex_digest a" "t = x @ a @ y" "x = [] \<or> \<not> lower_hex (last x)" "y = [] \<or> \<not> lower_hex (hd y)"
      by (auto simp: address_in_def)
    have "x \<noteq> []"
    proof
      assume "x = []"
      then have "hd t = hd a" "t \<noteq> []" using a(2) hex_digest_head [OF a(1)] by auto
      then show False using t hex_digest_head [OF a(1)] by simp
    qed
    then have "r @ t = (r @ x) @ a @ y \<and> \<not> lower_hex (last (r @ x))" using a by simp
    then show ?thesis using a(1,4) unfolding address_in_def by blast
  qed
qed

text \<open>Exactly the addresses are found in a text: the runs of 64 digits and no part of a longer run.\<close>

theorem hex_runs_exact: "set (hex_runs s out) = set out \<union> {a. address_in s a}"
proof (induction s out rule: hex_runs.induct)
  case (1 out)
  have "\<not> address_in [] a" for a using hex_digest_head [of a] by (auto simp: address_in_def)
  then show ?case by simp
next
  case (2 c s out)
  show ?case
  proof (cases "lower_hex c")
    case False
    then show ?thesis using 2(1) address_in_skip [OF False] by simp
  next
    case True
    let ?r = "takeWhile lower_hex (c # s)" and ?t = "dropWhile lower_hex (c # s)"
    have "?t = [] \<or> \<not> lower_hex (hd ?t)" using hd_dropWhile by blast
    then have a: "address_in (?r @ ?t) a \<longleftrightarrow> (length ?r = 64 \<and> a = ?r) \<or> address_in ?t a" for a
      by (intro address_in_run) (auto dest: set_takeWhileD)
    have "hex_runs (c # s) out = hex_runs ?t (if length ?r = 64 then os_insert ?r out else out)"
      using True by (simp add: Let_def)
    moreover have "set (hex_runs ?t (if length ?r = 64 then os_insert ?r out else out)) =
        set (if length ?r = 64 then os_insert ?r out else out) \<union> {a. address_in ?t a}"
      using 2(2) True by blast
    ultimately show ?thesis using a by (auto simp: set_os_insert)
  qed
qed

text \<open>The keys that match a field by their prefix.\<close>

definition prefix_key :: "bytes \<Rightarrow> bytes \<Rightarrow> bool" where
  "prefix_key field k \<longleftrightarrow> 2 \<le> length k \<and> last k = 0x2A \<and> take (length k - 1) field = butlast k"

definition best_key :: "bytes \<Rightarrow> reference_policy \<Rightarrow> address_finder option option \<times> nat \<Rightarrow> bool" where
  "best_key field ms st \<longleftrightarrow>
     (case fst st of
        None \<Rightarrow> \<not> (\<exists>kv \<in> set ms. prefix_key field (fst kv))
      | Some f \<Rightarrow> \<exists>kv \<in> set ms. prefix_key field (fst kv) \<and> snd kv = f \<and> snd st = length (fst kv) - 1 \<and>
          \<not> (\<exists>kv' \<in> set ms. prefix_key field (fst kv') \<and> snd st < length (fst kv') - 1))"

lemma foldl_longer: "best_key field ms (foldl (longer_match field) (None, 0) ms)"
proof (induction ms rule: rev_induct)
  case (snoc kv ms)
  obtain st n where f: "foldl (longer_match field) (None, 0) ms = (st, n)" by fastforce
  have l: "longer_match field (st, n) kv =
      (if prefix_key field (fst kv) \<and> (st = None \<or> n < length (fst kv) - 1) then (Some (snd kv), length (fst kv) - 1) else (st, n))"
    by (auto simp: longer_match_def prefix_key_def Let_def)
  have b: "best_key field ms (st, n)" using snoc f by simp
  show ?case
  proof (cases "prefix_key field (fst kv) \<and> (st = None \<or> n < length (fst kv) - 1)")
    case True
    have "\<not> (\<exists>kv' \<in> set ms. prefix_key field (fst kv') \<and> length (fst kv) - 1 < length (fst kv') - 1)"
      using b True by (cases st) (auto simp: best_key_def)
    then show ?thesis using True f l by (auto simp: best_key_def)
  next
    case False
    then show ?thesis using b f l by (cases st) (auto simp: best_key_def)
  qed
qed (simp add: best_key_def)

text \<open>The declaration of a field is its own, or else that of the longest prefix that matches; and
  there is none only when neither exists.\<close>

theorem finder_longest:
  "case finder_of decl field of
     None \<Rightarrow> map_of decl field = None \<and> \<not> (\<exists>k f. (k, f) \<in> set decl \<and> prefix_key field k)
   | Some f \<Rightarrow> map_of decl field = Some f \<or>
       map_of decl field = None \<and>
       (\<exists>k. (k, f) \<in> set decl \<and> prefix_key field k \<and>
          \<not> (\<exists>k' f'. (k', f') \<in> set decl \<and> prefix_key field k' \<and> length k < length k'))"
proof (cases "map_of decl field")
  case (Some f)
  then show ?thesis by (simp add: finder_of_def)
next
  case None
  let ?st = "foldl (longer_match field) (None, 0) decl"
  have st: "finder_of decl field = fst ?st" using None by (simp add: finder_of_def)
  have b: "best_key field decl ?st" by (rule foldl_longer)
  have long: "length k < length k' \<longleftrightarrow> length k - 1 < length k' - 1" if "prefix_key field k" for k k'
    using that by (auto simp: prefix_key_def)
  show ?thesis
  proof (cases "fst ?st")
    case None
    then show ?thesis using b st \<open>map_of decl field = None\<close> by (fastforce simp: best_key_def)
  next
    case (Some f)
    then obtain k where k: "(k, f) \<in> set decl" "prefix_key field k"
      "\<not> (\<exists>kv' \<in> set decl. prefix_key field (fst kv') \<and> length k - 1 < length (fst kv') - 1)"
      using b by (auto simp: best_key_def)
    then have "\<not> (\<exists>k' f'. (k', f') \<in> set decl \<and> prefix_key field k' \<and> length k < length k')"
      using long [OF k(2)] by fastforce
    then show ?thesis using None Some st k(1,2) by auto
  qed
qed

text \<open>Bytes under their own address are accepted, and a block that is stored is held.\<close>

lemma unhex_to_hex: "unhex_pairs (to_hex d) = Some d"
  using unhex_hexify [of d] by (simp add: unhex_strict_def hexify_to_hex split: if_splits)

lemma to_hex_lower: "list_all lower_hex (to_hex d)"
proof -
  have "lower_hex (hex_digit n)" if "unat n < 16" for n
  proof -
    have "list_all lower_hex (ascii ''0123456789abcdef'')" by code_simp
    moreover have "length (ascii ''0123456789abcdef'') = 16" by (simp add: ascii_def)
    ultimately show ?thesis using that by (simp add: hex_digit_def list_all_length)
  qed
  then show ?thesis by (auto simp: to_hex_def list_all_iff nibble_range)
qed

lemma own_address: "is_hex_digest (to_hex (sha256 b)) \<and> content_matches (to_hex (sha256 b)) b"
  by (simp add: content_matches_def is_hex_digest_def to_hex_lower length_to_hex length_sha256)

lemma stored_held: "om_ok s \<Longrightarrow> held_by (snd (block_put b s)) (to_hex (sha256 b))"
  using own_address [of b]
  by (auto simp: held_by_def unhex_to_hex block_has_def block_put_def om_emplace_def Let_def split: option.splits)

end
