(* ===== verification/Validate.thy ===== *)
theory Validate
  imports Edits
begin

text \<open>
  The door a peer's document comes through (\<^verbatim>\<open>src/crdt/validate.cpp\<close>). A check returns
  \<open>None\<close> when it passes and the text left in \<^verbatim>\<open>*why\<close> when it fails.
\<close>

type_synonym check = "bytes option"

definition fail :: "bytes \<Rightarrow> string \<Rightarrow> check" where
  "fail path reason = Some (path @ ascii '': '' @ ascii reason)"

definition check_then :: "check \<Rightarrow> check \<Rightarrow> check" where
  "check_then a b = (case a of Some w \<Rightarrow> Some w | None \<Rightarrow> b)"

fun check_all :: "('a \<Rightarrow> check) \<Rightarrow> 'a list \<Rightarrow> check" where
  "check_all f [] = None"
| "check_all f (x # xs) = check_then (f x) (check_all f xs)"

definition sub :: "bytes \<Rightarrow> bytes \<Rightarrow> bytes" where
  "sub path key = path @ ascii ''.'' @ key"

fun dup_check :: "bytes list \<Rightarrow> bytes \<Rightarrow> (bytes \<times> json) list \<Rightarrow> check" where
  "dup_check seen path [] = None"
| "dup_check seen path ((k, v) # ms) =
     (if k \<in> set seen then fail (sub path k) ''member named twice'' else dup_check (k # seen) path ms)"

definition no_duplicates :: "json option \<Rightarrow> bytes \<Rightarrow> check" where
  "no_duplicates n path = dup_check [] path (members n)"

definition check_orset :: "json option \<Rightarrow> bytes \<Rightarrow> bool \<Rightarrow> check" where
  "check_orset n path canonical =
     check_then (if is_JObject n then no_duplicates n path else None)
    (check_then (if is_JObject (get n (ascii ''a''))
                 then no_duplicates (get n (ascii ''a'')) (sub path (ascii ''a'')) else None)
    (check_then (if \<not> orset_json_well_formed n
                 then fail path ''not an OrSet ({\"a\": {tag: lowercase hex}, \"r\": [tag]})'' else None)
      (if canonical
       then check_all (\<lambda>kv. if is_canonical (snd kv) then None
                            else fail (sub (sub path (ascii ''a'')) (fst kv)) ''value is not in canonical form'')
              (adds (orset_from_json n))
       else None)))"

definition check_name :: "bytes \<Rightarrow> bytes \<Rightarrow> check" where
  "check_name key path = (if key = [] then fail path ''empty name'' else None)"

definition kRuneFixed :: "bytes list" where
  "kRuneFixed = map ascii [''spirit.name'', ''glyph'', ''placement'', ''relations'']"

definition rune_field_allowed :: "bytes \<Rightarrow> bool" where
  "rune_field_allowed k \<longleftrightarrow>
     (if k \<in> set kRuneFixed then True
      else if has_prefix (ascii ''facets.'') k then drop 7 k \<in> ascii ` set kFacets
      else has_prefix (ascii ''content.'') k \<and> drop 8 k \<noteq> [])"

definition mantle_field_allowed :: "bytes \<Rightarrow> bool" where
  "mantle_field_allowed k \<longleftrightarrow>
     k = ascii ''id'' \<or> k = ascii ''domain'' \<or> k = ascii ''rules'' \<or>
     has_prefix (ascii ''tags.'') k \<and> drop 5 k \<noteq> []"

definition check_members :: "json option \<Rightarrow> bytes \<Rightarrow> (bytes \<Rightarrow> bool) \<Rightarrow> check" where
  "check_members n path allowed =
     check_then (if \<not> is_JObject n then fail path ''expected an object'' else None)
    (check_then (no_duplicates n path)
      (check_all (\<lambda>kv. if allowed (fst kv) then None else fail (sub path (fst kv)) ''member not allowed here'')
         (members n)))"

definition check_fields :: "(bytes \<Rightarrow> bool) \<Rightarrow> json option \<Rightarrow> bytes \<Rightarrow> check" where
  "check_fields allowed f path =
     check_then (check_members f path allowed)
       (check_all (\<lambda>kv. check_orset (Some (snd kv)) (sub path (fst kv)) True) (members f))"

definition fields_of_rune :: "json option \<Rightarrow> bytes \<Rightarrow> check" where
  "fields_of_rune f path = check_fields rune_field_allowed f path"

definition fields_of_mantle :: "json option \<Rightarrow> bytes \<Rightarrow> check" where
  "fields_of_mantle f path = check_fields mantle_field_allowed f path"

definition is_rune_member :: "bytes \<Rightarrow> bool" where
  "is_rune_member k \<longleftrightarrow> k \<in> ascii ` {''present'', ''fields'', ''tags''}"

definition is_mantle_member :: "bytes \<Rightarrow> bool" where
  "is_mantle_member k \<longleftrightarrow> k \<in> ascii ` {''present'', ''fields'', ''runes'', ''edges''}"

definition is_glyph_member :: "bytes \<Rightarrow> bool" where
  "is_glyph_member k \<longleftrightarrow> k \<in> ascii ` {''present'', ''fields''}"

definition is_glyph_field :: "bytes \<Rightarrow> bool" where
  "is_glyph_field k \<longleftrightarrow> k = ascii ''descriptor''"

definition is_root_member :: "bytes \<Rightarrow> bool" where
  "is_root_member k \<longleftrightarrow> k \<in> ascii ` {''palabra'', ''mantles'', ''glyphs''}"

text \<open>\<^verbatim>\<open>if (const cJSON* p = get(n, key)) if (!f(p, ...)) return false;\<close>\<close>

definition check_opt :: "json option \<Rightarrow> string \<Rightarrow> bytes \<Rightarrow> (json option \<Rightarrow> bytes \<Rightarrow> check) \<Rightarrow> check" where
  "check_opt n key path f =
     (let v = get n (ascii key) in if v = None then None else f v (sub path (ascii key)))"

definition check_rune :: "bytes \<Rightarrow> bytes \<times> json \<Rightarrow> check" where
  "check_rune path r =
     (let n = Some (snd r) in
      check_then (check_name (fst r) path)
     (check_then (check_members n path is_rune_member)
     (check_then (check_opt n ''present'' path (\<lambda>p q. check_orset p q False))
     (check_then (check_opt n ''fields'' path fields_of_rune)
       (check_opt n ''tags'' path (\<lambda>t q. check_orset t q True))))))"

definition check_objects :: "(bytes \<Rightarrow> bytes \<times> json \<Rightarrow> check) \<Rightarrow> json option \<Rightarrow> bytes \<Rightarrow> check" where
  "check_objects f n path =
     check_then (if \<not> is_JObject n then fail path ''expected an object'' else None)
    (check_then (no_duplicates n path)
      (check_all (\<lambda>kv. f (sub path (fst kv)) kv) (members n)))"

definition check_mantle :: "bytes \<Rightarrow> bytes \<times> json \<Rightarrow> check" where
  "check_mantle path m =
     (let n = Some (snd m) in
      check_then (check_name (fst m) path)
     (check_then (check_members n path is_mantle_member)
     (check_then (check_opt n ''present'' path (\<lambda>p q. check_orset p q False))
     (check_then (check_opt n ''fields'' path fields_of_mantle)
     (check_then (check_opt n ''edges'' path (\<lambda>e q. check_orset e q True))
       (check_opt n ''runes'' path (check_objects check_rune)))))))"

definition check_descriptor :: "json option \<Rightarrow> bytes \<Rightarrow> check" where
  "check_descriptor d path =
     check_then (check_orset d path True)
       (check_all (\<lambda>kv. if snd kv = [] \<or> hd (snd kv) \<noteq> kMap
                        then fail (sub (sub path (ascii ''a'')) (fst kv)) ''a declaration must be a map'' else None)
          (adds (orset_from_json d)))"

definition check_glyph :: "bytes \<Rightarrow> bytes \<times> json \<Rightarrow> check" where
  "check_glyph path g =
     (let n = Some (snd g) in
      check_then (check_name (fst g) path)
     (check_then (check_members n path is_glyph_member)
     (check_then (check_opt n ''present'' path (\<lambda>p q. check_orset p q False))
       (check_opt n ''fields'' path (\<lambda>f q.
          check_then (check_members f q is_glyph_field) (check_opt f ''descriptor'' q check_descriptor))))))"

definition validate :: "json option \<Rightarrow> check" where
  "validate root =
     check_then (if \<not> is_JObject root then fail (ascii ''$'') ''a document is an object'' else None)
    (check_then (check_members root (ascii ''$'') is_root_member)
    (check_then (case as_number (get root (ascii ''palabra'')) of
                   Some x \<Rightarrow> if dbl_eq x (dbl_of_int 1) then None
                             else fail (ascii ''$.palabra'') ''this implementation reads document shape 1''
                 | None \<Rightarrow> fail (ascii ''$.palabra'') ''this implementation reads document shape 1'')
    (check_then (check_opt root ''mantles'' (ascii ''$'') (check_objects check_mantle))
      (check_opt root ''glyphs'' (ascii ''$'') (check_objects check_glyph)))))"

section \<open>What a check that passes says\<close>

lemma check_then_None [simp]: "check_then a b = None \<longleftrightarrow> a = None \<and> b = None"
  by (cases a) (simp_all add: check_then_def)

lemma check_all_None [simp]: "check_all f xs = None \<longleftrightarrow> (\<forall>x \<in> set xs. f x = None)"
  by (induction xs) auto

lemma fail_None [simp]: "fail p r \<noteq> None"
  by (simp add: fail_def)

lemma dup_check_None: "dup_check seen p ms = None \<longleftrightarrow> distinct (map fst ms) \<and> fst ` set ms \<inter> set seen = {}"
  by (induction seen p ms rule: dup_check.induct) auto

lemma no_duplicates_None [simp]: "no_duplicates n p = None \<longleftrightarrow> distinct (map fst (members n))"
  by (simp add: no_duplicates_def dup_check_None)

lemma check_opt_None [simp]:
  "check_opt n k p f = None \<longleftrightarrow> (\<forall>v. get n (ascii k) = Some v \<longrightarrow> f (Some v) (sub p (ascii k)) = None)"
  by (cases "get n (ascii k)") (auto simp: check_opt_def)

lemma check_members_None [simp]:
  "check_members n p f = None \<longleftrightarrow> distinct_members n \<and> (\<forall>kv \<in> set (members n). f (fst kv))"
  by (auto simp: check_members_def distinct_members_def)

lemma well_formed_is_orset: "orset_json_well_formed n \<Longrightarrow> is_orset n"
  by (simp add: orset_json_well_formed_def is_orset_def)

lemma check_orset_None:
  "check_orset n p c = None \<longleftrightarrow> orset_json_well_formed n \<and> distinct (map fst (members n)) \<and>
     distinct (map fst (members (get n (ascii ''a'')))) \<and>
     (c \<longrightarrow> (\<forall>kv \<in> set (adds (orset_from_json n)). is_canonical (snd kv)))"
  by (auto simp: check_orset_def orset_json_well_formed_def)

section \<open>What passes the door merges\<close>

text \<open>A tag names one value throughout the document.\<close>

function tags_agree :: "(bytes \<Rightarrow> bytes) \<Rightarrow> json \<Rightarrow> bool" where
  "tags_agree V n =
     (if is_orset (Some n) then (\<forall>kv \<in> set (adds (orset_from_json (Some n))). snd kv = V (fst kv))
      else \<forall>kv \<in> set (members (Some n)). tags_agree V (snd kv))"
  by pat_completeness auto
termination
  by (relation "measure (\<lambda>(V, n). size n)") (auto dest!: size_members)

declare tags_agree.simps [simp del]

lemma tags_agree_member:
  "tags_agree V n \<Longrightarrow> \<not> is_orset (Some n) \<Longrightarrow> kv \<in> set (members (Some n)) \<Longrightarrow> tags_agree V (snd kv)"
  by (subst (asm) tags_agree.simps) auto

lemma tags_agree_orset:
  "tags_agree V n \<Longrightarrow> is_orset (Some n) \<Longrightarrow> \<forall>kv \<in> set (adds (orset_from_json (Some n))). snd kv = V (fst kv)"
  by (subst (asm) tags_agree.simps) simp

lemma nonempty_string_ok: "nonempty_string (Some t) = Some u \<Longrightarrow> json_wf t \<Longrightarrow> u \<noteq> [] \<and> nul_free u"
  by (cases t) (auto simp: nonempty_string_def split: if_splits)

lemma from_json_printable:
  assumes "json_wf j"
  shows "tags_printable (orset_from_json (Some j))"
proof -
  let ?ok = "\<lambda>t :: bytes. t \<noteq> [] \<and> nul_free t"
  have wf: "json_wf v" if "get (Some j) k = Some v" for k v
    using get_wf that assms by blast
  have A: "\<forall>kv \<in> set (foldl from_add m ms). ?ok (fst kv)"
    if "\<forall>kv \<in> set m. ?ok (fst kv)" "\<forall>kv \<in> set ms. nul_free (fst kv)" for m ms
    using that
  proof (induction ms arbitrary: m)
    case (Cons kv ms)
    have "fst ` set (from_add m kv) \<subseteq> fst ` set m \<union> (if fst kv = [] then {} else {fst kv})"
      by (auto simp: from_add_def fst_set_om_put split: option.splits)
    then have "\<forall>q \<in> set (from_add m kv). ?ok (fst q)"
      using Cons.prems by (fastforce split: if_splits)
    then have "\<forall>q \<in> set (foldl from_add (from_add m kv) ms). ?ok (fst q)"
      by (rule Cons.IH) (use Cons.prems(2) in simp)
    then show ?case by (simp only: foldl_Cons)
  qed simp
  have M: "\<forall>kv \<in> set (members (get (Some j) (ascii ''a''))). nul_free (fst kv)"
  proof (cases "get (Some j) (ascii ''a'')")
    case (Some a)
    with wf have "json_wf a" by blast
    with Some show ?thesis by (cases a) auto
  qed simp
  have R: "\<forall>t \<in> set (foldl from_remove rs ts). ?ok t"
    if "\<forall>t \<in> set rs. ?ok t" "\<forall>t \<in> set ts. json_wf t" for rs ts
    using that
  proof (induction ts arbitrary: rs)
    case (Cons t ts)
    have "\<forall>u \<in> set (from_remove rs t). ?ok u"
      using Cons.prems nonempty_string_ok [of t] by (auto simp: from_remove_def split: option.splits)
    then have "\<forall>u \<in> set (foldl from_remove (from_remove rs t) ts). ?ok u"
      by (rule Cons.IH) (use Cons.prems(2) in simp)
    then show ?case by (simp only: foldl_Cons)
  qed simp
  have C: "\<forall>t \<in> set (removes (orset_from_json (Some j))). ?ok t"
  proof (cases "get (Some j) (ascii ''r'')")
    case (Some r)
    show ?thesis
    proof (cases "is_JArray (Some r)")
      case True
      then obtain ts where r: "r = JArray ts" by (cases r) auto
      with wf Some have "\<forall>t \<in> set ts. json_wf t" by force
      with R [of "[]" ts] Some r show ?thesis by (simp add: orset_from_json_def)
    next
      case False
      with Some show ?thesis by (simp add: orset_from_json_def)
    qed
  qed (simp add: orset_from_json_def)
  have "\<forall>kv \<in> set (adds (orset_from_json (Some j))). ?ok (fst kv)"
    using A [of "[]", OF _ M] by (simp add: orset_from_json_def)
  with C show ?thesis by (simp add: tags_printable_def)
qed

lemma orset_tree_ok:
  assumes "orset_json_well_formed (Some j)" "json_wf j" "tags_agree V j"
  shows "tree_ok pr R V j"
  using assms well_formed_is_orset [OF assms(1)]
  by (simp add: tree_ok_orset orset_ok_def from_json_printable tags_agree_orset)

lemma object_not_orset:
  assumes "\<And>v. map_of ms (ascii ''r'') = Some v \<Longrightarrow> is_JObject (Some v)"
  shows "\<not> is_orset (Some (JObject ms))"
  using assms by (cases "map_of ms (ascii ''r'')") (auto simp: is_orset_def elim!: is_JObject.elims)

lemma object_tree_ok:
  assumes "distinct_members (Some n)" "json_wf n" "tags_agree V n" "\<not> is_orset (Some n)"
    and "\<And>k v. (k, v) \<in> set (members (Some n)) \<Longrightarrow> json_wf v \<Longrightarrow> tags_agree V v \<Longrightarrow> tree_ok pr R V v"
  shows "tree_ok pr R V n"
proof -
  from assms(1) obtain ms where n: "n = JObject ms" "distinct (map fst ms)"
    by (cases n) (auto simp: distinct_members_def)
  have "tags_agree V v" if "(k, v) \<in> set ms" for k v
    using tags_agree_member [OF assms(3,4), of "(k, v)"] that by (simp add: n(1))
  with n assms(2,4,5) show ?thesis by (fastforce simp: tree_ok_map)
qed

lemma objects_tree_ok:
  assumes "distinct_members (Some n)" "json_wf n" "tags_agree V n"
    and "\<And>k v. (k, v) \<in> set (members (Some n)) \<Longrightarrow> is_JObject (Some v)"
    and "\<And>k v. (k, v) \<in> set (members (Some n)) \<Longrightarrow> json_wf v \<Longrightarrow> tags_agree V v \<Longrightarrow> tree_ok pr R V v"
  shows "tree_ok pr R V n"
proof -
  from assms(1) obtain ms where n: "n = JObject ms" by (cases n) (auto simp: distinct_members_def)
  have "\<not> is_orset (Some n)"
    unfolding n by (rule object_not_orset) (use assms(4) n in \<open>auto dest: map_of_SomeD\<close>)
  with assms show ?thesis by (blast intro: object_tree_ok)
qed

lemma distinct_members_JObject: "distinct_members v \<Longrightarrow> is_JObject v"
  by (simp add: distinct_members_def)

lemma check_orset_tree_ok:
  "check_orset (Some v) p c = None \<Longrightarrow> is_JObject (Some v) \<and>
     (json_wf v \<longrightarrow> tags_agree V v \<longrightarrow> tree_ok pr R V v)"
  by (auto simp: check_orset_None orset_json_well_formed_def [of "Some v"] intro: orset_tree_ok)

lemma fields_tree_ok:
  assumes "check_fields f (Some v) p = None"
  shows "is_JObject (Some v) \<and> (json_wf v \<longrightarrow> tags_agree V v \<longrightarrow> tree_ok pr R V v)"
proof -
  from assms have d: "distinct_members (Some v)"
    and c: "\<forall>kv \<in> set (members (Some v)). check_orset (Some (snd kv)) (sub p (fst kv)) True = None"
    by (auto simp: check_fields_def)
  have "is_JObject (Some w) \<and> (json_wf w \<longrightarrow> tags_agree V w \<longrightarrow> tree_ok pr R V w)"
    if "(k, w) \<in> set (members (Some v))" for k w
    using bspec [OF c that] by (intro check_orset_tree_ok) simp
  with d show ?thesis using distinct_members_JObject by (blast intro: objects_tree_ok)
qed

text \<open>An object whose members are all checked by something that implies the carrier.\<close>

lemma checked_members_tree_ok:
  assumes "distinct_members (Some n)"
    and "\<And>k v. get (Some n) k = Some v \<Longrightarrow>
      is_JObject (Some v) \<and> (json_wf v \<longrightarrow> tags_agree V v \<longrightarrow> tree_ok pr R V v)"
  shows "is_JObject (Some n) \<and> (json_wf n \<longrightarrow> tags_agree V n \<longrightarrow> tree_ok pr R V n)"
proof -
  have "get (Some n) k = Some v" if "(k, v) \<in> set (members (Some n))" for k v
    using that assms(1) by (simp add: get_def distinct_members_def)
  then show ?thesis
    using assms distinct_members_JObject [OF assms(1)] by (blast intro: objects_tree_ok)
qed

lemma get_memD: "get (Some n) k = Some v \<Longrightarrow> (k, v) \<in> set (members (Some n))"
  by (auto simp: get_def dest: map_of_SomeD)

lemma rune_tree_ok:
  assumes "check_rune p (k, v) = None"
  shows "is_JObject (Some v) \<and> (json_wf v \<longrightarrow> tags_agree V v \<longrightarrow> tree_ok pr R V v)"
proof (rule checked_members_tree_ok)
  show "distinct_members (Some v)" using assms by (simp add: check_rune_def Let_def)
  fix q w assume w: "get (Some v) q = Some w"
  then have "q \<in> ascii ` {''present'', ''fields'', ''tags''}"
    using assms get_memD [OF w] by (auto simp: check_rune_def Let_def is_rune_member_def)
  then consider "q = ascii ''present''" | "q = ascii ''fields''" | "q = ascii ''tags''" by blast
  then show "is_JObject (Some w) \<and> (json_wf w \<longrightarrow> tags_agree V w \<longrightarrow> tree_ok pr R V w)"
  proof cases
    case 1
    then show ?thesis using assms w check_orset_tree_ok [of w] by (auto simp: check_rune_def Let_def)
  next
    case 2
    then show ?thesis using assms w fields_tree_ok [of _ w] by (auto simp: check_rune_def Let_def fields_of_rune_def)
  next
    case 3
    then show ?thesis using assms w check_orset_tree_ok [of w] by (auto simp: check_rune_def Let_def)
  qed
qed

lemma check_objects_tree_ok:
  assumes "check_objects f (Some n) p = None"
    and "\<And>k v q. f q (k, v) = None \<Longrightarrow>
      is_JObject (Some v) \<and> (json_wf v \<longrightarrow> tags_agree V v \<longrightarrow> tree_ok pr R V v)"
  shows "is_JObject (Some n) \<and> (json_wf n \<longrightarrow> tags_agree V n \<longrightarrow> tree_ok pr R V n)"
proof (rule checked_members_tree_ok)
  show "distinct_members (Some n)"
    using assms(1) by (auto simp: check_objects_def distinct_members_def split: if_splits)
  fix k v assume "get (Some n) k = Some v"
  then have "\<exists>q. f q (k, v) = None"
    using assms(1) get_memD by (fastforce simp: check_objects_def split: if_splits)
  with assms(2) show "is_JObject (Some v) \<and> (json_wf v \<longrightarrow> tags_agree V v \<longrightarrow> tree_ok pr R V v)" by blast
qed

lemma mantle_tree_ok:
  assumes "check_mantle p (k, v) = None"
  shows "is_JObject (Some v) \<and> (json_wf v \<longrightarrow> tags_agree V v \<longrightarrow> tree_ok pr R V v)"
proof (rule checked_members_tree_ok)
  show "distinct_members (Some v)" using assms by (simp add: check_mantle_def Let_def)
  fix q w assume w: "get (Some v) q = Some w"
  then have "q \<in> ascii ` {''present'', ''fields'', ''runes'', ''edges''}"
    using assms get_memD [OF w] by (auto simp: check_mantle_def Let_def is_mantle_member_def)
  then consider "q = ascii ''present''" | "q = ascii ''fields''" | "q = ascii ''runes''" | "q = ascii ''edges''" by blast
  then show "is_JObject (Some w) \<and> (json_wf w \<longrightarrow> tags_agree V w \<longrightarrow> tree_ok pr R V w)"
  proof cases
    case 1
    then show ?thesis using assms w check_orset_tree_ok [of w] by (auto simp: check_mantle_def Let_def)
  next
    case 2
    then show ?thesis using assms w fields_tree_ok [of _ w] by (auto simp: check_mantle_def Let_def fields_of_mantle_def)
  next
    case 3
    then have "check_objects check_rune (Some w) (sub p (ascii ''runes'')) = None"
      using assms w by (simp add: check_mantle_def Let_def)
    then show ?thesis by (rule check_objects_tree_ok) (rule rune_tree_ok)
  next
    case 4
    then show ?thesis using assms w check_orset_tree_ok [of w] by (auto simp: check_mantle_def Let_def)
  qed
qed

lemma glyph_tree_ok:
  assumes "check_glyph p (k, v) = None"
  shows "is_JObject (Some v) \<and> (json_wf v \<longrightarrow> tags_agree V v \<longrightarrow> tree_ok pr R V v)"
proof (rule checked_members_tree_ok)
  show "distinct_members (Some v)" using assms by (simp add: check_glyph_def Let_def)
  fix q w assume w: "get (Some v) q = Some w"
  then have "q \<in> ascii ` {''present'', ''fields''}"
    using assms get_memD [OF w] by (auto simp: check_glyph_def Let_def is_glyph_member_def)
  then consider "q = ascii ''present''" | "q = ascii ''fields''" by blast
  then show "is_JObject (Some w) \<and> (json_wf w \<longrightarrow> tags_agree V w \<longrightarrow> tree_ok pr R V w)"
  proof cases
    case 1
    then show ?thesis using assms w check_orset_tree_ok [of w] by (auto simp: check_glyph_def Let_def)
  next
    case 2
    show ?thesis
    proof (rule checked_members_tree_ok)
      show "distinct_members (Some w)" using assms w 2 by (simp add: check_glyph_def Let_def)
      fix r u assume u: "get (Some w) r = Some u"
      then have "r = ascii ''descriptor''"
        using assms w 2 get_memD [OF u] by (auto simp: check_glyph_def Let_def is_glyph_field_def)
      then show "is_JObject (Some u) \<and> (json_wf u \<longrightarrow> tags_agree V u \<longrightarrow> tree_ok pr R V u)"
        using assms w 2 u check_orset_tree_ok [of u]
        by (auto simp: check_glyph_def Let_def check_descriptor_def)
    qed
  qed
qed

lemma dbl_one_unique:
  assumes "dbl_eq x (dbl_of_int 1)"
  shows "x = dbl_of_int 1"
proof -
  let ?o = "dbl_of_int 1"
  have o: "\<not> dbl_neg ?o" "dbl_mag ?o \<noteq> 0"
  proof -
    show "\<not> dbl_neg ?o" using dbl_of_int_sign_mag(1) [of 1] by simp
    have "dbl_bits_of_nat 1 div 2 ^ 52 = bit_len 1 + 1022" by (rule dbl_bits_small(1)) simp_all
    then have "dbl_bits_of_nat 1 \<noteq> 0" by (metis add_is_0 div_0 zero_neq_numeral)
    then show "dbl_mag ?o \<noteq> 0" using dbl_of_int_sign_mag(2) [of 1] by simp
  qed
  from assms have k: "dbl_key x = dbl_key ?o" by (simp add: dbl_eq_def)
  then have n: "\<not> dbl_neg x" using o by (auto simp: dbl_key_def split: if_splits)
  with k o have "dbl_mag x = dbl_mag ?o" by (simp add: dbl_key_def)
  then have "unat x = unat ?o" using n o by (simp add: dbl_neg_def dbl_mag_def)
  then show ?thesis by (rule unsigned_word_eqI)
qed

text \<open>C19. A document the check accepts, whose tags name one value each, is in the carrier
  on which the merge laws hold.\<close>

theorem validate_tree_ok:
  assumes "validate (Some root) = None" "json_wf root" "tags_agree V root"
    and "R (pr (mk_int 1)) = mk_int 1"
  shows "tree_ok pr R V root"
proof (rule object_tree_ok [OF _ assms(2,3)])
  show d: "distinct_members (Some root)" using assms(1) by (auto simp: validate_def split: if_splits)
  from assms(1) have keys: "\<And>k v. (k, v) \<in> set (members (Some root)) \<Longrightarrow>
      k \<in> ascii ` {''palabra'', ''mantles'', ''glyphs''}"
    by (auto simp: validate_def is_root_member_def split: if_splits)
  have "get (Some root) (ascii ''r'') = None"
  proof (cases "get (Some root) (ascii ''r'')")
    case (Some w)
    from keys [OF get_memD [OF this]] show ?thesis by simp
  qed
  then show "\<not> is_orset (Some root)" by (simp add: is_orset_def)
  fix k v assume kv: "(k, v) \<in> set (members (Some root))" and wf: "json_wf v" "tags_agree V v"
  have g: "get (Some root) k = Some v" using kv d by (simp add: get_def distinct_members_def)
  from keys [OF kv] consider "k = ascii ''palabra''" | "k = ascii ''mantles''" | "k = ascii ''glyphs''" by blast
  then show "tree_ok pr R V v"
  proof cases
    case 1
    then have "v = mk_int 1"
      using assms(1) g dbl_one_unique
      by (auto simp: validate_def mk_int_def split: option.splits if_splits elim!: as_number.elims)
    then show ?thesis using assms(4) by (subst tree_ok_leaf) (simp_all add: leaf_ok_def mk_int_def)
  next
    case 2
    then have "check_objects check_mantle (Some v) (sub (ascii ''$'') (ascii ''mantles'')) = None"
      using assms(1) g by (simp add: validate_def)
    then have "is_JObject (Some v) \<and> (json_wf v \<longrightarrow> tags_agree V v \<longrightarrow> tree_ok pr R V v)"
      by (rule check_objects_tree_ok) (rule mantle_tree_ok)
    with wf show ?thesis by blast
  next
    case 3
    then have "check_objects check_glyph (Some v) (sub (ascii ''$'') (ascii ''glyphs'')) = None"
      using assms(1) g by (simp add: validate_def)
    then have "is_JObject (Some v) \<and> (json_wf v \<longrightarrow> tags_agree V v \<longrightarrow> tree_ok pr R V v)"
      by (rule check_objects_tree_ok) (rule glyph_tree_ok)
    with wf show ?thesis by blast
  qed
qed

end
