(* ===== verification/Conflict.thy ===== *)
theory Conflict
  imports Validate "HOL-Library.Product_Lexorder"
begin

text \<open>
  What a reader is asked about and told: conflicts as values with a content address
  (\<^verbatim>\<open>src/crdt/conflict.cpp\<close>) and the writers of what a document shows
  (\<^verbatim>\<open>src/crdt/provenance.cpp\<close>).
\<close>

section \<open>Live tags and removals\<close>

function collect_live_tags :: "json option \<Rightarrow> bool \<Rightarrow> bytes list \<Rightarrow> bytes list" where
  "collect_live_tags node skip_own_present out =
     (case node of None \<Rightarrow> out
      | Some n \<Rightarrow>
          if is_orset (Some n) then os_union out (map fst (live_adds (orset_from_json (Some n))))
          else foldl (\<lambda>out kv. if skip_own_present \<and> fst kv = ascii ''present'' then out
                               else collect_live_tags (Some (snd kv)) False out)
                 out (members (Some n)))"
  by pat_completeness auto
termination
  by (relation "measure (\<lambda>(node, _, _). case node of None \<Rightarrow> 0 | Some n \<Rightarrow> size n)")
     (auto dest!: size_members)

declare collect_live_tags.simps [simp del]

definition present_of :: "json option \<Rightarrow> orset" where
  "present_of node = orset_from_json (get node (ascii ''present''))"

definition raced_by_an_edit :: "json option \<Rightarrow> bool" where
  "raced_by_an_edit node =
     (let present = present_of node in
      if \<not> orset_empty present then False
      else if removes present = [] then False
      else \<not> list_all (\<lambda>tag. tag \<in> set (removes present)) (collect_live_tags node True []))"

section \<open>Conflicts\<close>

datatype conflict_kind = values_differ | deleted_while_edited

record conflict =
  c_kind :: conflict_kind
  c_mantle :: bytes
  c_rune :: bytes
  c_glyph :: bytes
  c_field :: bytes
  c_sides :: "bytes list"

definition scan_fields :: "(bytes \<times> json) list \<Rightarrow> bytes \<Rightarrow> bytes \<Rightarrow> bytes \<Rightarrow> join_policy \<Rightarrow> conflict list" where
  "scan_fields fs mantle rune glyph policy =
     map (\<lambda>f. \<lparr> c_kind = values_differ, c_mantle = mantle, c_rune = rune, c_glyph = glyph, c_field = fst f,
               c_sides = lvalues (resolve (Some (snd f)) (lookup policy (fst f))) \<rparr>)
       (filter (\<lambda>f. conflicted (resolve (Some (snd f)) (lookup policy (fst f)))) fs)"

definition alive :: "json option \<Rightarrow> bool" where
  "alive node \<longleftrightarrow> \<not> orset_empty (present_of node)"

definition deleted_conflict :: "bytes \<Rightarrow> bytes \<Rightarrow> bytes \<Rightarrow> conflict" where
  "deleted_conflict mantle rune glyph =
     \<lparr> c_kind = deleted_while_edited, c_mantle = mantle, c_rune = rune, c_glyph = glyph,
       c_field = ascii ''present'',
       c_sides = sort [str_bytes (ascii ''deleted''), str_bytes (ascii ''kept'')] \<rparr>"

definition rune_conflicts :: "bytes \<Rightarrow> join_policy \<Rightarrow> bytes \<times> json \<Rightarrow> conflict list" where
  "rune_conflicts mname policy r =
     (if \<not> alive (Some (snd r)) then
        if raced_by_an_edit (Some (snd r)) then [deleted_conflict mname (fst r) []] else []
      else scan_fields (members (get (Some (snd r)) (ascii ''fields''))) mname (fst r) [] policy)"

definition mantle_conflicts :: "join_policy \<Rightarrow> bytes \<times> json \<Rightarrow> conflict list" where
  "mantle_conflicts policy m =
     (if \<not> alive (Some (snd m)) then
        if raced_by_an_edit (Some (snd m)) then [deleted_conflict (fst m) [] []] else []
      else scan_fields (members (get (Some (snd m)) (ascii ''fields''))) (fst m) [] [] policy @
           concat (map (rune_conflicts (fst m) policy) (members (get (Some (snd m)) (ascii ''runes'')))))"

definition glyph_conflicts :: "join_policy \<Rightarrow> bytes \<times> json \<Rightarrow> conflict list" where
  "glyph_conflicts policy g =
     (if \<not> alive (Some (snd g)) then
        if raced_by_an_edit (Some (snd g)) then [deleted_conflict [] [] (fst g)] else []
      else scan_fields (members (get (Some (snd g)) (ascii ''fields''))) [] [] (fst g) policy)"

text \<open>The comparator: two conflicts whose \<^verbatim>\<open>glyph.empty()\<close> differ are ordered by
  \<^verbatim>\<open>return b.glyph.empty()\<close>, so a glyph conflict comes first.\<close>

definition conflict_key :: "conflict \<Rightarrow> bool \<times> nat \<times> bytes \<times> bytes \<times> bytes \<times> bytes" where
  "conflict_key c =
     (c_glyph c = [], (case c_kind c of values_differ \<Rightarrow> 0 | deleted_while_edited \<Rightarrow> 1),
      c_glyph c, c_mantle c, c_rune c, c_field c)"

definition conflicts :: "doc \<Rightarrow> join_policy \<Rightarrow> conflict list" where
  "conflicts doc policy =
     sort_key conflict_key
       (concat (map (mantle_conflicts policy) (members (get doc (ascii ''mantles'')))) @
        concat (map (glyph_conflicts policy) (members (get doc (ascii ''glyphs'')))))"

definition conflict_to_json :: "conflict \<Rightarrow> json" where
  "conflict_to_json c =
     (let at = (if c_glyph c \<noteq> [] then add_member [] (ascii ''glyph'') (mk_string (c_glyph c))
                else let at = add_member [] (ascii ''mantle'') (mk_string (c_mantle c))
                     in if c_rune c \<noteq> [] then add_member at (ascii ''rune'') (mk_string (c_rune c)) else at);
          at = add_member at (ascii ''field'') (mk_string (c_field c));
          sides = map (\<lambda>v. JObject [(ascii ''value'', case decode v of Some j \<Rightarrow> j | None \<Rightarrow> JNull)]) (c_sides c)
      in JObject
        [(ascii ''kind'', mk_string (ascii (case c_kind c of deleted_while_edited \<Rightarrow> ''deleted_while_edited''
                                                           | values_differ \<Rightarrow> ''conflict''))),
         (ascii ''at'', JObject at), (ascii ''sides'', JArray sides)])"

definition conflict_hash :: "conflict \<Rightarrow> digest canon" where
  "conflict_hash c =
     (case conflict_to_json c of
        JObject ms \<Rightarrow> cbind (encode (JObject (delete_member (ascii ''hash'') ms)))
                        (\<lambda>b. Inr (domain_digest (ascii ''conflict'') b []))
      | j \<Rightarrow> cbind (encode j) (\<lambda>b. Inr (domain_digest (ascii ''conflict'') b [])))"

section \<open>Provenance\<close>

record place =
  p_mantle :: bytes
  p_rune :: bytes
  p_glyph :: bytes
  p_field :: bytes

record written =
  w_value :: bytes
  w_writers :: "bytes list"
  w_stamp :: "64 word"

definition locate :: "json option \<Rightarrow> place \<Rightarrow> json option" where
  "locate root p =
     (let holder_field = (\<lambda>holder.
        if holder = None then None
        else if p_field p = ascii ''present'' then get holder (ascii ''present'')
        else if p_field p = ascii ''tags'' \<and> p_rune p \<noteq> [] then get holder (ascii ''tags'')
        else get (get holder (ascii ''fields'')) (c_str (p_field p)))
      in if p_glyph p \<noteq> [] then holder_field (get (get root (ascii ''glyphs'')) (c_str (p_glyph p)))
         else let m = get (get root (ascii ''mantles'')) (c_str (p_mantle p)) in
           if p_field p = ascii ''edges'' then (if p_rune p = [] then get m (ascii ''edges'') else None)
           else holder_field (if p_rune p = [] then m else get (get m (ascii ''runes'')) (c_str (p_rune p))))"

definition writer_step :: "(bytes, bytes list \<times> 64 word) omap \<Rightarrow> bytes \<times> bytes \<Rightarrow> (bytes, bytes list \<times> 64 word) omap" where
  "writer_step m kv =
     (let st = stamp_of (fst kv);
          slot = (case map_of m (snd kv) of Some s \<Rightarrow> s | None \<Rightarrow> ([], 0))
      in om_put (snd kv) (os_insert (st_writer st) (fst slot), max (snd slot) (st_n st)) m)"

definition writers :: "doc \<Rightarrow> place \<Rightarrow> written list" where
  "writers doc place =
     (let node = locate doc place in
      if node = None \<or> \<not> is_orset node then []
      else map (\<lambda>kv. \<lparr> w_value = fst kv, w_writers = fst (snd kv), w_stamp = snd (snd kv) \<rparr>)
             (foldl writer_step [] (live_adds (orset_from_json node))))"

section \<open>What is reported\<close>

text \<open>The tags that are live beneath a node.\<close>

function live_in :: "json \<Rightarrow> bytes set" where
  "live_in n =
     (if is_orset (Some n) then live_tags (orset_from_json (Some n))
      else (\<Union>kv \<in> set (members (Some n)). live_in (snd kv)))"
  by pat_completeness auto
termination
  by (relation "measure size") (auto dest!: size_members)

declare live_in.simps [simp del]

lemma live_adds_tags: "orset_wf s \<Longrightarrow> set (map fst (live_adds s)) = live_tags s"
proof -
  assume w: "orset_wf s"
  have "t \<in> set (map fst (live_adds s)) \<longleftrightarrow> (\<exists>v. (t, v) \<in> set (live_adds s))" for t by force
  with w show ?thesis by (auto simp: set_live_adds live_tags_def)
qed

lemma foldl_union:
  assumes "\<And>x out. x \<in> set xs \<Longrightarrow> set (f out x) = set out \<union> g x"
  shows "set (foldl f out xs) = set out \<union> (\<Union>x \<in> set xs. g x)"
  using assms by (induction xs arbitrary: out) auto

lemma set_collect_live_tags:
  "set (collect_live_tags (Some n) False out) = set out \<union> live_in n"
proof (induction n arbitrary: out rule: live_in.induct)
  case (1 n)
  show ?case
  proof (cases "is_orset (Some n)")
    case True
    then show ?thesis
      by (simp add: collect_live_tags.simps [of "Some n"] live_in.simps [of n] live_adds_tags
          del: set_map)
  next
    case False
    then have "collect_live_tags (Some n) False out =
        foldl (\<lambda>out kv. collect_live_tags (Some (snd kv)) False out) out (members (Some n))"
      by (simp add: collect_live_tags.simps [of "Some n"])
    also have "set \<dots> = set out \<union> (\<Union>kv \<in> set (members (Some n)). live_in (snd kv))"
      by (rule foldl_union) (rule "1.IH" [OF False])
    finally show ?thesis using False by (simp add: live_in.simps [of n])
  qed
qed

lemma set_collect_own:
  assumes "\<not> is_orset (Some n)"
  shows "set (collect_live_tags (Some n) True []) =
    (\<Union>kv \<in> {kv \<in> set (members (Some n)). fst kv \<noteq> ascii ''present''}. live_in (snd kv))"
proof -
  have "collect_live_tags (Some n) True [] =
      foldl (\<lambda>out kv. if fst kv = ascii ''present'' then out else collect_live_tags (Some (snd kv)) False out)
        [] (members (Some n))"
    using assms by (simp add: collect_live_tags.simps [of "Some n"])
  moreover have "set (foldl (\<lambda>out kv. if fst kv = ascii ''present'' then out
        else collect_live_tags (Some (snd kv)) False out) [] (members (Some n))) =
      set [] \<union> (\<Union>kv \<in> set (members (Some n)). if fst kv = ascii ''present'' then {} else live_in (snd kv))"
    by (rule foldl_union) (simp add: set_collect_live_tags)
  ultimately show ?thesis by (auto split: if_splits)
qed

text \<open>A deletion raced an edit when something it removed the presence of holds, elsewhere, a
  live tag the deletion did not record.\<close>

theorem raced_iff:
  assumes "\<not> is_orset (Some n)"
  shows "raced_by_an_edit (Some n) \<longleftrightarrow>
    \<not> alive (Some n) \<and> removes (present_of (Some n)) \<noteq> [] \<and>
    (\<exists>k v t. (k, v) \<in> set (members (Some n)) \<and> k \<noteq> ascii ''present'' \<and> t \<in> live_in v \<and>
             t \<notin> set (removes (present_of (Some n))))"
  unfolding raced_by_an_edit_def Let_def alive_def list_all_iff set_collect_own [OF assms] by force





text \<open>The order of the list: declarations before mantles.\<close>

theorem conflicts_glyphs_first:
  "sorted (map conflict_key (conflicts d p)) \<and>
   (c_glyph a \<noteq> [] \<and> c_glyph b = [] \<longrightarrow> conflict_key a < conflict_key b)"
  by (simp add: conflicts_def conflict_key_def)

section \<open>Who wrote it\<close>

definition holds :: "orset \<Rightarrow> bytes \<Rightarrow> bytes \<Rightarrow> bool" where
  "holds s v t \<longleftrightarrow> (t, v) \<in> set (live_adds s)"

lemma foldl_writer_step:
  assumes "om_ok m"
  shows "om_ok (foldl writer_step m kvs) \<and>
    map_of (foldl writer_step m kvs) v =
      (let ts = map fst (filter (\<lambda>kv. snd kv = v) kvs);
           slot = (case map_of m v of Some s \<Rightarrow> s | None \<Rightarrow> ([], 0))
       in if ts = [] then map_of m v
          else Some (foldl (\<lambda>ws t. os_insert (st_writer (stamp_of t)) ws) (fst slot) ts,
                     foldl (\<lambda>n t. max n (st_n (stamp_of t))) (snd slot) ts))"
  using assms
proof (induction kvs arbitrary: m)
  case (Cons kv kvs)
  have ok: "om_ok (writer_step m kv)" using Cons.prems by (simp add: writer_step_def Let_def)
  show ?case
    using Cons.IH [OF ok] Cons.prems
    by (auto simp: writer_step_def Let_def split: option.split)
qed simp

lemma foldl_max_Max: "foldl (\<lambda>n t. max n (f t)) (n::64 word) ts = Max (insert n (f ` set ts))"
proof (induction ts arbitrary: n)
  case (Cons t ts)
  have "Max (insert (max n m) S) = Max (insert n (insert m S))" if "finite S" for m and S :: "64 word set"
    using that by (cases "S = {}") (simp_all add: max.assoc)
  with Cons show ?case by simp
qed simp

text \<open>Writers lists every shown value with its writers and highest counter.\<close>

theorem writers_spec:
  assumes "locate d p = Some node" "is_orset (Some node)"
  defines "s \<equiv> orset_from_json (Some node)"
  shows "map w_value (writers d p) = orset_values s \<and>
    (\<forall>w \<in> set (writers d p). set (w_writers w) = {st_writer (stamp_of t) | t. holds s (w_value w) t} \<and>
       sorted_wrt (<) (w_writers w) \<and>
       w_stamp w = Max {st_n (stamp_of t) | t. holds s (w_value w) t})"
proof -
  let ?M = "foldl writer_step [] (live_adds s)"
  let ?ts = "\<lambda>v. map fst (filter (\<lambda>kv. snd kv = v) (live_adds s))"
  have w: "writers d p = map (\<lambda>kv. \<lparr> w_value = fst kv, w_writers = fst (snd kv), w_stamp = snd (snd kv) \<rparr>) ?M"
    using assms by (simp add: writers_def Let_def)
  have ok: "om_ok ?M" using foldl_writer_step [of "[]" "live_adds s"] by simp
  have M: "map_of ?M v = (if ?ts v = [] then None
      else Some (foldl (\<lambda>ws t. os_insert (st_writer (stamp_of t)) ws) [] (?ts v),
                 foldl (\<lambda>n t. max n (st_n (stamp_of t))) 0 (?ts v)))" for v
    using foldl_writer_step [of "[]" "live_adds s" v] by (simp add: Let_def)
  have ts: "set (?ts v) = {t. holds s v t}" for v by (force simp: holds_def)
  have "fst ` set ?M = set (orset_values s)"
  proof -
    have "v \<in> fst ` set ?M \<longleftrightarrow> map_of ?M v \<noteq> None" for v by (metis map_of_eq_None_iff)
    also have "\<dots> v \<longleftrightarrow> ?ts v \<noteq> []" for v by (simp add: M)
    also have "\<dots> v \<longleftrightarrow> v \<in> set (orset_values s)" for v
      by (force simp: values_live_adds image_iff filter_empty_conv)
    finally show ?thesis by blast
  qed
  then have "map fst ?M = orset_values s"
    using ok by (intro strict_sorted_set_eq) (simp_all add: om_ok_def values_sorted)
  moreover have "set (w_writers x) = {st_writer (stamp_of t) | t. holds s (w_value x) t} \<and>
       sorted_wrt (<) (w_writers x) \<and> w_stamp x = Max {st_n (stamp_of t) | t. holds s (w_value x) t}"
    if x: "x \<in> set (writers d p)" for x
  proof -
    from x obtain kv where kv: "kv \<in> set ?M" "w_value x = fst kv" "w_writers x = fst (snd kv)" "w_stamp x = snd (snd kv)"
      by (auto simp: w)
    then have "map_of ?M (fst kv) = Some (snd kv)"
      using om_ok_distinct [OF ok] by simp
    then have e: "?ts (fst kv) \<noteq> []"
        "snd kv = (foldl (\<lambda>ws t. os_insert (st_writer (stamp_of t)) ws) [] (?ts (fst kv)),
                   foldl (\<lambda>n t. max n (st_n (stamp_of t))) 0 (?ts (fst kv)))"
      by (auto simp: M split: if_splits)
    have "set (foldl (\<lambda>ws t. os_insert (f t) ws) ws ts) = set ws \<union> f ` set ts" for f :: "bytes \<Rightarrow> bytes" and ws ts
      by (induction ts arbitrary: ws) auto
    moreover have "sorted_wrt (<) ws \<Longrightarrow> sorted_wrt (<) (foldl (\<lambda>ws t. os_insert (f t) ws) ws ts)"
      for f :: "bytes \<Rightarrow> bytes" and ws ts
      by (induction ts arbitrary: ws) auto
    moreover have "Max (insert 0 (f ` A)) = Max (f ` A)" if "finite A" "A \<noteq> {}" for f :: "bytes \<Rightarrow> 64 word" and A
      using that by (simp add: Max_insert max_def)
    moreover have "{st_writer (stamp_of t) | t. holds s v t} = (\<lambda>t. st_writer (stamp_of t)) ` set (?ts v)" for v
      unfolding ts by auto
    moreover have "{st_n (stamp_of t) | t. holds s v t} = (\<lambda>t. st_n (stamp_of t)) ` set (?ts v)" for v
      unfolding ts by auto
    ultimately show ?thesis
      using e kv foldl_max_Max [of "\<lambda>t. st_n (stamp_of t)" 0 "?ts (fst kv)"] by (simp del: set_map)
  qed
  ultimately show ?thesis by (simp add: w o_def)
qed

section \<open>At concrete inputs\<close>

definition raced_rune :: json where
  "raced_rune = JObject [(ascii ''present'', orset_to_json (remove_all (orset_add (ascii ''a_1'') (ascii ''1'') orset_new))),
     (ascii ''tags'', orset_to_json (orset_add (ascii ''b_9'') [2] orset_new))]"

theorem raced_iff_witness: "raced_by_an_edit (Some raced_rune)"
proof -
  have "\<not> is_orset (Some raced_rune)" by code_simp
  moreover have "\<not> alive (Some raced_rune)" by code_simp
  moreover have "present_of (Some raced_rune) = remove_all (orset_add (ascii ''a_1'') (ascii ''1'') orset_new)" by code_simp
  moreover have "(ascii ''tags'', orset_to_json (orset_add (ascii ''b_9'') [2] orset_new)) \<in> set (members (Some raced_rune))"
    by (simp add: raced_rune_def)
  moreover have "ascii ''b_9'' \<in> live_in (orset_to_json (orset_add (ascii ''b_9'') [2] orset_new))"
  proof -
    have "orset_from_json (Some (orset_to_json (orset_add (ascii ''b_9'') [2] orset_new))) = orset_add (ascii ''b_9'') [2] orset_new"
      by code_simp
    then show ?thesis by (simp add: live_in.simps live_tags_def) (simp add: orset_add_def orset_new_def)
  qed
  moreover have "removes (remove_all (orset_add (ascii ''a_1'') (ascii ''1'') orset_new)) = [ascii ''a_1'']"
    by code_simp
  ultimately show ?thesis
    using raced_iff [of raced_rune] by (simp add: raced_rune_def) fastforce
qed

definition split_doc :: json where
  "split_doc = JObject [(ascii ''mantles'', JObject [([1], JObject
     [(ascii ''present'', orset_to_json (orset_add [3] [1] orset_new)),
      (ascii ''fields'', JObject [(ascii ''id'', orset_to_json (orset_add [4] [1] (orset_add [5] [2] orset_new)))])])])]"


theorem conflicts_glyphs_first_witness:
  "conflict_key \<lparr> c_kind = deleted_while_edited, c_mantle = [], c_rune = [], c_glyph = [9], c_field = [], c_sides = [] \<rparr> <
   conflict_key \<lparr> c_kind = values_differ, c_mantle = [1], c_rune = [], c_glyph = [], c_field = [], c_sides = [] \<rparr>"
  using conflicts_glyphs_first
    [of None "\<lparr> pfields = [], fallback = FConflict \<rparr>" "\<lparr> c_kind = deleted_while_edited, c_mantle = [], c_rune = [], c_glyph = [9], c_field = [], c_sides = [] \<rparr>"
      "\<lparr> c_kind = values_differ, c_mantle = [1], c_rune = [], c_glyph = [], c_field = [], c_sides = [] \<rparr>"]
  by simp

theorem writers_spec_witness:
  "map w_value (writers (Some split_doc) \<lparr> p_mantle = [1], p_rune = [], p_glyph = [], p_field = ascii ''id'' \<rparr>) = [[1], [2]]"
proof -
  let ?n = "orset_to_json (orset_add [4] [1] (orset_add [5] [2] orset_new))"
  have "locate (Some split_doc) \<lparr> p_mantle = [1], p_rune = [], p_glyph = [], p_field = ascii ''id'' \<rparr> = Some ?n" by code_simp
  moreover have "is_orset (Some ?n)" by simp
  ultimately have "map w_value (writers (Some split_doc) \<lparr> p_mantle = [1], p_rune = [], p_glyph = [], p_field = ascii ''id'' \<rparr>) =
      orset_values (orset_from_json (Some ?n))"
    using writers_spec by blast
  also have "\<dots> = [[1], [2]]" by code_simp
  finally show ?thesis .
qed

end
