(* ===== verification/Replica.thy ===== *)
theory Replica
  imports Conflict
begin

text \<open>
  One device's copy of the shared state (\<^verbatim>\<open>src/crdt/replica.cpp\<close>): the editor that records a
  change in the document and in a delta, observing a state, merging a peer's document,
  settling a conflict, and the blob on disk. \<^verbatim>\<open>issued_\<close> is an unsigned 64-bit counter. The
  printer and the parser of the JSON library are the parameters \<open>pr\<close> and \<open>ps\<close>.
\<close>

definition kMinIdLength :: nat where "kMinIdLength = 16"
definition kMaxIdLength :: nat where "kMaxIdLength = 128"
definition kLamportCeiling :: "64 word" where "kLamportCeiling = push_bit 40 1"

text \<open>\<^verbatim>\<open>2^53\<close> as a double.\<close>

definition kMaxCounter :: dbl where "kMaxCounter = word_of_nat (1076 * 2 ^ 52)"

definition id_char :: "byte \<Rightarrow> bool" where
  "id_char c \<longleftrightarrow> c \<ge> 0x61 \<and> c \<le> 0x7a \<or> c \<ge> 0x41 \<and> c \<le> 0x5a \<or> c \<ge> 0x30 \<and> c \<le> 0x39 \<or> c = 0x2d"

definition valid_id :: "bytes \<Rightarrow> check" where
  "valid_id i =
     (if length i < kMinIdLength \<or> length i > kMaxIdLength
      then Some (ascii ''a replica id is 16 to 128 characters'')
      else if \<not> list_all id_char i then Some (ascii ''a replica id is [A-Za-z0-9-] only'')
      else None)"

definition empty_root :: json where
  "empty_root = JObject [(ascii ''palabra'', mk_int 1), (ascii ''mantles'', JObject [])]"

section \<open>Tags\<close>

function collect_all_tags :: "json option \<Rightarrow> bytes list \<Rightarrow> bytes list" where
  "collect_all_tags node out =
     (case node of None \<Rightarrow> out
      | Some n \<Rightarrow>
          if is_orset (Some n) then
            let s = orset_from_json (Some n) in os_union (os_union out (map fst (adds s))) (removes s)
          else foldl (\<lambda>out kv. collect_all_tags (Some (snd kv)) out) out (members (Some n)))"
  by pat_completeness auto
termination
  by (relation "measure (\<lambda>(node, _). case node of None \<Rightarrow> 0 | Some n \<Rightarrow> size n)")
     (auto dest!: size_members)

declare collect_all_tags.simps [simp del]

function collect_adds :: "json option \<Rightarrow> bytes \<Rightarrow> (bytes, bytes) omap \<Rightarrow> (bytes, bytes) omap" where
  "collect_adds node path out =
     (case node of None \<Rightarrow> out
      | Some n \<Rightarrow>
          if is_orset (Some n) then
            foldl (\<lambda>out kv. om_put (fst kv) (path @ [0] @ snd kv) out) out (adds (orset_from_json (Some n)))
          else foldl (\<lambda>out kv. collect_adds (Some (snd kv)) (path @ ascii ''/'' @ fst kv) out) out
                 (members (Some n)))"
  by pat_completeness auto
termination
  by (relation "measure (\<lambda>(node, _, _). case node of None \<Rightarrow> 0 | Some n \<Rightarrow> size n)")
     (auto dest!: size_members)

declare collect_adds.simps [simp del]

definition own_counter :: "bytes \<Rightarrow> bytes \<Rightarrow> 64 word option" where
  "own_counter tag i =
     (if length tag \<le> length i + 1 \<or> take (length i) tag \<noteq> i \<or> tag ! length i \<noteq> 0x5f then None
      else stamp_digits 0 (drop (length i + 1) tag))"

definition highest_counter :: "json option \<Rightarrow> 64 word" where
  "highest_counter node =
     foldl (\<lambda>best t. let n = st_n (stamp_of t) in if n \<le> kLamportCeiling \<and> n > best then n else best)
       0 (collect_all_tags node [])"

section \<open>Paths\<close>

type_synonym path = "bytes list"

fun node_at :: "json option \<Rightarrow> path \<Rightarrow> json option" where
  "node_at n [] = n"
| "node_at n (k # ks) = node_at (get n (c_str k)) ks"

text \<open>\<^verbatim>\<open>at_path(root, path, true)\<close> and a change of the node it returns.\<close>

fun edit_at :: "path \<Rightarrow> (json \<Rightarrow> json) \<Rightarrow> json \<Rightarrow> json" where
  "edit_at [] f n = f n"
| "edit_at (k # ks) f (JObject ms) =
     (if map_of ms (c_str k) = None then JObject (add_member ms k (edit_at ks f (JObject [])))
      else JObject (update_member (c_str k) (edit_at ks f) ms))"
| "edit_at (k # ks) f n = n"

section \<open>The editor\<close>

record editor =
  work :: json
  delta :: json
  issued :: "64 word"
  changes :: nat

text \<open>A step may throw; what it minted before that stays minted.\<close>

type_synonym step = "editor \<Rightarrow> canon_error option \<times> editor"

definition ed_ok :: step where "ed_ok e = (None, e)"

definition ed_throw :: "canon_error \<Rightarrow> step" where "ed_throw x e = (Some x, e)"

definition ed_then :: "step \<Rightarrow> step \<Rightarrow> step" where
  "ed_then a b e = (case a e of (Some x, e') \<Rightarrow> (Some x, e') | (None, e') \<Rightarrow> b e')"

definition ed_canon :: "'a canon \<Rightarrow> ('a \<Rightarrow> step) \<Rightarrow> step" where
  "ed_canon r f = (case r of Inl x \<Rightarrow> ed_throw x | Inr v \<Rightarrow> f v)"

fun ed_each :: "('a \<Rightarrow> step) \<Rightarrow> 'a list \<Rightarrow> step" where
  "ed_each f [] = ed_ok"
| "ed_each f (x # xs) = ed_then (f x) (ed_each f xs)"

definition mint_tag :: "bytes \<Rightarrow> editor \<Rightarrow> bytes \<times> editor" where
  "mint_tag i e =
     (let n = issued e + 1 in (i @ ascii ''_'' @ to_string (unat n), e\<lparr> issued := n \<rparr>))"

definition ed_load :: "path \<Rightarrow> editor \<Rightarrow> orset" where
  "ed_load p e = orset_from_json (node_at (Some (work e)) p)"

definition orset_diff :: "orset \<Rightarrow> orset \<Rightarrow> orset" where
  "orset_diff before after =
     \<lparr> adds = filter (\<lambda>kv. fst kv \<notin> fst ` set (adds before)) (adds after),
       removes = filter (\<lambda>t. t \<notin> set (removes before)) (removes after) \<rparr>"

definition put_joined :: "bytes \<Rightarrow> orset \<Rightarrow> json \<Rightarrow> json" where
  "put_joined k diff holder =
     (let existing = get (Some holder) (c_str k) in
      put_orset k (if existing = None then diff else orset_join (orset_from_json existing) diff) holder)"

definition ed_store :: "path \<Rightarrow> orset \<Rightarrow> orset \<Rightarrow> editor \<Rightarrow> editor" where
  "ed_store p before after e =
     (if before = after then e
      else e\<lparr> work := edit_at (butlast p) (put_orset (last p) after) (work e),
              delta := edit_at (butlast p) (put_joined (last p) (orset_diff before after)) (delta e),
              changes := changes e + 1 \<rparr>)"

definition ed_write :: "bytes \<Rightarrow> path \<Rightarrow> bytes \<Rightarrow> editor \<Rightarrow> editor" where
  "ed_write i p value e =
     (let before = ed_load p e; (t, e') = mint_tag i e in ed_store p before (reg_write t value before) e')"

definition sync_register :: "bytes \<Rightarrow> join_policy \<Rightarrow> path \<Rightarrow> bytes \<Rightarrow> bytes option \<Rightarrow> step" where
  "sync_register i policy p field value e =
     (let l = resolve (node_at (Some (work e)) p) (lookup policy field) in
      (None,
       case value of
         Some v \<Rightarrow> if lvalues l \<noteq> [] \<and> hd (lvalues l) = v then e else ed_write i p v e
       | None \<Rightarrow> if lvalues l = [] then e
                 else let before = ed_load p e in ed_store p before (remove_all before) e))"

text \<open>The first loop of \<^verbatim>\<open>sync_set\<close>: one mint per wanted value that is not live.\<close>

definition add_wanted :: "bytes \<Rightarrow> bytes list \<Rightarrow> orset \<times> editor \<Rightarrow> bytes \<Rightarrow> orset \<times> editor" where
  "add_wanted i have se v =
     (if v \<in> set have then se
      else let (t, e) = mint_tag i (snd se) in (orset_add t v (fst se), e))"

definition sync_set :: "bytes \<Rightarrow> path \<Rightarrow> bytes list \<Rightarrow> step" where
  "sync_set i p want e =
     (let before = ed_load p e;
          have = orset_values before;
          (after, e') = foldl (add_wanted i have) (before, e) want;
          after = foldl (\<lambda>s v. if v \<in> set want then s else remove_value v s) after have
      in (None, ed_store p before after e'))"

definition ed_live :: "path \<Rightarrow> editor \<Rightarrow> bool" where
  "ed_live p e \<longleftrightarrow> orset_values (ed_load (p @ [ascii ''present'']) e) \<noteq> []"

definition make_present :: "bytes \<Rightarrow> path \<Rightarrow> bytes \<Rightarrow> step" where
  "make_present i p value e =
     (let pp = p @ [ascii ''present'']; before = ed_load pp e in
      (None,
       if orset_values before \<noteq> [] then e
       else let (t, e') = mint_tag i e in ed_store pp before (orset_add t value before) e'))"

definition ed_remove :: "path \<Rightarrow> bool \<Rightarrow> step" where
  "ed_remove p even_if_dead e =
     (let n = node_at (Some (work e)) p in
      (None,
       if n = None then e
       else let pp = p @ [ascii ''present'']; before = ed_load pp e in
         if orset_values before = [] \<and> \<not> even_if_dead then e
         else let after = remove_all before;
                  seen = collect_live_tags n True []
              in ed_store pp before (after\<lparr> removes := os_union (removes after) seen \<rparr>) e))"

section \<open>Observing\<close>

definition shown_with_prefix :: "path \<Rightarrow> bytes \<Rightarrow> editor \<Rightarrow> bytes list" where
  "shown_with_prefix fs prefix e =
     map fst (filter (\<lambda>it. has_prefix prefix (fst it) \<and> lvalues (live_of (Some (snd it))) \<noteq> [])
                (members (node_at (Some (work e)) fs)))"

definition keyed_fields :: "bytes \<Rightarrow> join_policy \<Rightarrow> path \<Rightarrow> bytes \<Rightarrow> json option \<Rightarrow> step" where
  "keyed_fields i policy fs prefix object =
     (let cs = filter (\<lambda>c. fst c \<noteq> []) (members object);
          present = map (\<lambda>c. prefix @ fst c) cs
      in ed_then
           (ed_each (\<lambda>c. ed_canon (encode (snd c)) (\<lambda>b.
              sync_register i policy (fs @ [prefix @ fst c]) (prefix @ fst c) (Some b))) cs)
           (\<lambda>e. ed_each (\<lambda>name. if name \<in> set present then ed_ok
                                else sync_register i policy (fs @ [name]) name None)
                  (shown_with_prefix fs prefix e) e))"

definition optional_field :: "bytes \<Rightarrow> join_policy \<Rightarrow> path \<Rightarrow> bytes \<Rightarrow> json option \<Rightarrow> step" where
  "optional_field i policy fs name v =
     (if unless_empty_array v
      then ed_canon (encode_opt v) (\<lambda>b. sync_register i policy (fs @ [name]) name (Some b))
      else sync_register i policy (fs @ [name]) name None)"

definition fixed_field :: "bytes \<Rightarrow> join_policy \<Rightarrow> path \<Rightarrow> bytes \<Rightarrow> json option \<Rightarrow> step" where
  "fixed_field i policy fs name v =
     ed_canon (encode_opt v) (\<lambda>b. sync_register i policy (fs @ [name]) name (Some b))"

definition canon_set :: "json list \<Rightarrow> bytes list canon" where
  "canon_set items = cbind (cmap encode items) (\<lambda>bs. Inr (os_of bs))"

definition observe_rune :: "bytes \<Rightarrow> join_policy \<Rightarrow> path \<Rightarrow> json option \<Rightarrow> step" where
  "observe_rune i policy base r =
     (let fs = base @ [ascii ''fields'']; content = get r (ascii ''content'') in
      ed_then (make_present i base (ascii ''1''))
     (ed_then (fixed_field i policy fs (ascii ''spirit.name'') (get (get r (ascii ''spirit'')) (ascii ''name'')))
     (ed_then (fixed_field i policy fs (ascii ''glyph'') (get r (ascii ''glyph'')))
     (ed_then (ed_each (\<lambda>k. fixed_field i policy fs (ascii ''facets.'' @ ascii k)
                              (get (get r (ascii ''facets'')) (ascii k))) kFacets)
     (ed_then (fixed_field i policy fs (ascii ''placement'') (get r (ascii ''placement'')))
     (ed_then (optional_field i policy fs (ascii ''relations'') (get r (ascii ''relations'')))
     (if content \<noteq> None \<and> \<not> is_JObject content
      then ed_throw (CanonicalError ''rune content is not an object'')
      else ed_then (keyed_fields i policy fs (ascii ''content.'') content)
        (ed_canon (canon_set (children (get r (ascii ''tags'')))) (\<lambda>want.
           sync_set i (base @ [ascii ''tags'']) want)))))))))"

text \<open>The loop that files items under their key in a \<^verbatim>\<open>std::map\<close> and refuses a second one.\<close>

fun file_items :: "(json \<Rightarrow> json option) \<Rightarrow> string \<Rightarrow> string \<Rightarrow> (bytes, json) omap \<Rightarrow> json list \<Rightarrow> (bytes, json) omap canon" where
  "file_items key missing dup m [] = Inr m"
| "file_items key missing dup m (x # xs) =
     (case nonempty_string (key x) of
        None \<Rightarrow> Inl (CanonicalError missing)
      | Some k \<Rightarrow> if map_of m k \<noteq> None then Inl (CanonicalError (dup @ map (\<lambda>c. char_of (unat c)) k))
                  else file_items key missing dup (om_put k x m) xs)"

text \<open>Live entries of a map that the state does not name: removed.\<close>

definition remove_gone :: "path \<Rightarrow> bytes list \<Rightarrow> step" where
  "remove_gone base named e =
     (let gone = filter (\<lambda>k. k \<notin> set named \<and> ed_live (base @ [k]) e)
                   (map fst (members (node_at (Some (work e)) base)))
      in ed_each (\<lambda>k. ed_remove (base @ [k]) False) gone e)"

definition observe_mantle :: "bytes \<Rightarrow> join_policy \<Rightarrow> path \<Rightarrow> json option \<Rightarrow> step" where
  "observe_mantle i policy base m =
     (let fs = base @ [ascii ''fields'']; mtags = get m (ascii ''tags'') in
      ed_then (make_present i base (ascii ''1''))
     (ed_then (fixed_field i policy fs (ascii ''id'') (get m (ascii ''id'')))
     (ed_then (fixed_field i policy fs (ascii ''domain'') (get m (ascii ''domain'')))
     (if mtags \<noteq> None \<and> \<not> is_JObject mtags \<and> \<not> is_JNull mtags
      then ed_throw (CanonicalError ''mantle tags are not an object'')
      else ed_then (keyed_fields i policy fs (ascii ''tags.'') (if is_JObject mtags then mtags else None))
     (ed_then (optional_field i policy fs (ascii ''rules'') (get m (ascii ''rules'')))
     (ed_canon (file_items (\<lambda>r. get (get (Some r) (ascii ''spirit'')) (ascii ''id''))
                  ''a rune has no spirit.id'' ''duplicate rune id '' [] (children (get m (ascii ''runes'')))) (\<lambda>runes.
      ed_then (ed_each (\<lambda>kv. observe_rune i policy (base @ [ascii ''runes'', fst kv]) (Some (snd kv))) runes)
     (ed_then (remove_gone (base @ [ascii ''runes'']) (map fst runes))
     (ed_canon (canon_set (children (get (get m (ascii ''layout'')) (ascii ''edges'')))) (\<lambda>edges.
      sync_set i (base @ [ascii ''edges'']) edges))))))))))"

definition file_glyphs :: "(bytes \<times> json) list \<Rightarrow> (bytes, bytes) omap canon" where
  "file_glyphs gs =
     cfold (\<lambda>m g. if fst g = [] then Inl (CanonicalError ''a glyph declaration has no name'')
                  else cbind (canon_glyph_descriptor (Some (snd g))) (\<lambda>b. Inr (om_put (fst g) b m))) [] gs"

definition observe_into :: "bytes \<Rightarrow> join_policy \<Rightarrow> json option \<Rightarrow> step" where
  "observe_into i policy state =
     (if \<not> is_JObject state then ed_throw (CanonicalError ''a state document is an object'')
      else let marr = get state (ascii ''mantles''); gobj = get state (ascii ''glyphs'') in
      if marr \<noteq> None \<and> \<not> is_JArray marr then ed_throw (CanonicalError ''`mantles` is not an array'')
      else ed_canon (file_items (\<lambda>m. get (Some m) (ascii ''name''))
                       ''a mantle has no name'' ''duplicate mantle name '' [] (children marr)) (\<lambda>mantles.
      ed_then (ed_each (\<lambda>kv. observe_mantle i policy [ascii ''mantles'', fst kv] (Some (snd kv))) mantles)
     (ed_then (remove_gone [ascii ''mantles''] (map fst mantles))
     (if gobj \<noteq> None \<and> \<not> is_JObject gobj \<and> \<not> is_JNull gobj
      then ed_throw (CanonicalError ''`glyphs` is present but is not an object'')
      else ed_canon (file_glyphs (members gobj)) (\<lambda>glyphs.
      ed_then (ed_each (\<lambda>kv. ed_then (make_present i [ascii ''glyphs'', fst kv] [])
                 (sync_register i policy [ascii ''glyphs'', fst kv, ascii ''fields'', ascii ''descriptor'']
                    (ascii ''descriptor'') (Some (snd kv)))) glyphs)
        (remove_gone [ascii ''glyphs''] (map fst glyphs)))))))"

section \<open>The replica\<close>

record replica =
  r_id :: bytes
  r_issued :: "64 word"
  r_revision :: nat
  r_doc :: json
  r_policy :: join_policy

definition default_policy :: join_policy where
  "default_policy = \<lparr> pfields = [], fallback = FConflict \<rparr>"

definition create :: "bytes \<Rightarrow> bytes + replica" where
  "create i =
     (case valid_id i of Some why \<Rightarrow> Inl why
      | None \<Rightarrow> Inr \<lparr> r_id = i, r_issued = 0, r_revision = 0, r_doc = empty_root, r_policy = default_policy \<rparr>)"

definition fork :: "replica \<Rightarrow> bytes \<Rightarrow> bytes + replica" where
  "fork r new_id =
     (case valid_id new_id of Some why \<Rightarrow> Inl why
      | None \<Rightarrow>
          if new_id = r_id r
          then Inl (ascii ''a fork needs a NEW id; reusing this one is the failure it prevents'')
          else Inr \<lparr> r_id = new_id, r_issued = highest_counter (Some (r_doc r)), r_revision = 0,
                     r_doc = r_doc r, r_policy = r_policy r \<rparr>)"

definition start_edit :: "replica \<Rightarrow> editor" where
  "start_edit r = \<lparr> work = r_doc r, delta = JObject [(ascii ''palabra'', mk_int 1)], issued = r_issued r, changes = 0 \<rparr>"

definition observe :: "replica \<Rightarrow> json option \<Rightarrow> (canon_error + nat \<times> json) \<times> replica" where
  "observe r state =
     (case observe_into (r_id r) (r_policy r) state (start_edit r) of
        (Some x, e) \<Rightarrow> (Inl x, r\<lparr> r_issued := issued e \<rparr>)
      | (None, e) \<Rightarrow>
          (Inr (changes e, delta e),
           r\<lparr> r_issued := issued e, r_doc := work e,
              r_revision := r_revision r + (if changes e = 0 then 0 else 1) \<rparr>))"

datatype merge_result = merged | invalid bytes | identity_collision bytes

text \<open>The check of one of their tags that carries this replica's id: the tag it trips on.\<close>

definition collides :: "replica \<Rightarrow> json option \<Rightarrow> bytes \<Rightarrow> bool" where
  "collides r remote tag \<longleftrightarrow>
     own_counter tag (r_id r) \<noteq> None \<and>
     (let mine = collect_all_tags (Some (r_doc r)) [];
          my_adds = collect_adds (Some (r_doc r)) [] [];
          their_adds = collect_adds remote [] []
      in tag \<notin> set mine \<or>
         map_of their_adds tag \<noteq> None \<and> map_of my_adds tag \<noteq> map_of their_adds tag)"

definition merge :: "(json \<Rightarrow> bytes) \<Rightarrow> replica \<Rightarrow> json option \<Rightarrow> merge_result \<times> replica" where
  "merge pr r remote =
     (case validate remote of Some why \<Rightarrow> (invalid why, r)
      | None \<Rightarrow>
          (case filter (collides r remote) (collect_all_tags remote []) of
             tag # _ \<Rightarrow> (identity_collision tag, r)
           | [] \<Rightarrow>
               (merged,
                case remote of None \<Rightarrow> r
                | Some j \<Rightarrow>
                    r\<lparr> r_doc := join_node pr (r_doc r) j,
                       r_issued := max (r_issued r) (highest_counter remote),
                       r_revision := r_revision r + 1 \<rparr>)))"

definition conflict_path :: "conflict \<Rightarrow> path" where
  "conflict_path c =
     (if c_glyph c \<noteq> [] then [ascii ''glyphs'', c_glyph c]
      else if c_rune c \<noteq> [] then [ascii ''mantles'', c_mantle c, ascii ''runes'', c_rune c]
      else [ascii ''mantles'', c_mantle c])"

definition settle :: "replica \<Rightarrow> conflict \<Rightarrow> bytes \<Rightarrow> editor option" where
  "settle r c side =
     (let e = start_edit r; base = conflict_path c in
      case c_kind c of
        values_differ \<Rightarrow> Some (ed_write (r_id r) (base @ [ascii ''fields'', c_field c]) side e)
      | deleted_while_edited \<Rightarrow>
          (let what = (case as_string (decode side) of Some s \<Rightarrow> s | None \<Rightarrow> []) in
           if what = ascii ''kept'' then
             Some (snd (make_present (r_id r) base (if c_glyph c = [] then ascii ''1'' else []) e))
           else if what = ascii ''deleted'' then Some (snd (ed_remove base True e))
           else None))"

definition settle_conflict :: "replica \<Rightarrow> conflict \<Rightarrow> nat \<Rightarrow> (bool \<times> json option \<times> replica) canon" where
  "settle_conflict r c side =
     (if length (c_sides c) \<le> side then Inr (False, None, r)
      else cbind (conflict_hash c) (\<lambda>wanted.
           cbind (cmap conflict_hash (conflicts (Some (r_doc r)) (r_policy r))) (\<lambda>hs.
           if to_hex wanted \<notin> set (map to_hex hs) then Inr (False, None, r)
           else case settle r c (c_sides c ! side) of
             None \<Rightarrow> Inr (False, None, r)
           | Some e \<Rightarrow>
               Inr (True, Some (delta e),
                    r\<lparr> r_issued := issued e, r_doc := work e, r_revision := r_revision r + 1 \<rparr>))))"

section \<open>On disk\<close>

definition replica_json :: "replica \<Rightarrow> json" where
  "replica_json r = JObject
     [(ascii ''palabra_replica'', mk_int 1), (ascii ''id'', mk_string (r_id r)),
      (ascii ''issued'', mk_int (uint (r_issued r))), (ascii ''doc'', r_doc r)]"

definition to_bytes :: "(json \<Rightarrow> bytes) \<Rightarrow> replica \<Rightarrow> bytes" where
  "to_bytes pr r = pr (replica_json r)"

definition counter_ok :: "dbl \<Rightarrow> bool" where
  "counter_ok x \<longleftrightarrow> \<not> dbl_less x (dbl_of_int 0) \<and> \<not> dbl_less kMaxCounter x \<and>
     dbl_eq x (dbl_of_int (dbl_trunc x))"

definition from_bytes :: "(bytes \<Rightarrow> json option) \<Rightarrow> bytes \<Rightarrow> bytes + replica" where
  "from_bytes ps bytes =
     (case ps bytes of None \<Rightarrow> Inl (ascii ''not JSON'')
      | Some o' \<Rightarrow>
        (let ob = Some o' in
         if \<not> (case as_number (get ob (ascii ''palabra_replica'')) of Some x \<Rightarrow> dbl_eq x (dbl_of_int 1) | None \<Rightarrow> False)
         then Inl (ascii ''not a replica, or a newer shape'')
         else case as_string (get ob (ascii ''id'')) of None \<Rightarrow> Inl []
         | Some i \<Rightarrow>
           (case valid_id i of Some why \<Rightarrow> Inl why
            | None \<Rightarrow>
              (case as_number (get ob (ascii ''issued'')) of
                 None \<Rightarrow> Inl (ascii ''the counter is not a whole number in range'')
               | Some x \<Rightarrow>
                   if \<not> counter_ok x then Inl (ascii ''the counter is not a whole number in range'')
                   else let doc = get ob (ascii ''doc'') in
                   (case validate doc of Some why \<Rightarrow> Inl why
                    | None \<Rightarrow>
                      (let counter = word_of_int (dbl_trunc x) in
                       if list_ex (\<lambda>t. case own_counter t i of Some n \<Rightarrow> n > counter | None \<Rightarrow> False)
                            (collect_all_tags doc [])
                       then Inl (ascii ''the counter is behind the document; fork to a new id'')
                       else case doc of None \<Rightarrow> Inl []
                         | Some d \<Rightarrow> Inr \<lparr> r_id = i, r_issued = counter, r_revision = 0, r_doc = d,
                                         r_policy = default_policy \<rparr>))))))"

end
