(* ===== verification/Kinds.thy ===== *)
theory Kinds
  imports Validate
begin

text \<open>
  The grammar of a document that passes \<^verbatim>\<open>validate\<close>, as a typing of its nodes: what each
  member of a node of a kind is. A document passes the check exactly when it has the type of
  a root, and writing a set at a path that the grammar gives a set keeps the type.
\<close>

datatype held = AnyBytes | CanonicalValue | Declaration

datatype kind =
    KRoot | KVersion | KMantles | KMantle | KRunes | KRune | KGlyphs | KGlyph
  | KMantleFields | KRuneFields | KGlyphFields
  | KSet held

text \<open>The members an object of a kind may have by name.\<close>

fun table :: "kind \<Rightarrow> (bytes \<times> kind) list" where
  "table KRoot = [(ascii ''palabra'', KVersion), (ascii ''mantles'', KMantles), (ascii ''glyphs'', KGlyphs)]"
| "table KMantle = [(ascii ''present'', KSet AnyBytes), (ascii ''fields'', KMantleFields),
                    (ascii ''runes'', KRunes), (ascii ''edges'', KSet CanonicalValue)]"
| "table KRune = [(ascii ''present'', KSet AnyBytes), (ascii ''fields'', KRuneFields),
                  (ascii ''tags'', KSet CanonicalValue)]"
| "table KGlyph = [(ascii ''present'', KSet AnyBytes), (ascii ''fields'', KGlyphFields)]"
| "table KGlyphFields = [(ascii ''descriptor'', KSet Declaration)]"
| "table K = []"

fun child :: "kind \<Rightarrow> bytes \<Rightarrow> kind option" where
  "child KMantles k = (if k = [] then None else Some KMantle)"
| "child KRunes k = (if k = [] then None else Some KRune)"
| "child KGlyphs k = (if k = [] then None else Some KGlyph)"
| "child KMantleFields k = (if mantle_field_allowed k then Some (KSet CanonicalValue) else None)"
| "child KRuneFields k = (if rune_field_allowed k then Some (KSet CanonicalValue) else None)"
| "child K k = map_of (table K) k"

fun value_ok :: "held \<Rightarrow> bytes \<Rightarrow> bool" where
  "value_ok AnyBytes b = True"
| "value_ok CanonicalValue b = is_canonical b"
| "value_ok Declaration b = (is_canonical b \<and> b \<noteq> [] \<and> hd b = kMap)"

definition set_ok :: "held \<Rightarrow> json \<Rightarrow> bool" where
  "set_ok v n \<longleftrightarrow> orset_json_well_formed (Some n) \<and> distinct (map fst (members (Some n))) \<and>
     distinct (map fst (members (get (Some n) (ascii ''a'')))) \<and>
     (\<forall>kv \<in> set (adds (orset_from_json (Some n))). value_ok v (snd kv))"

function conforms :: "kind \<Rightarrow> json \<Rightarrow> bool" where
  "conforms K n =
     (case K of
        KVersion \<Rightarrow> n = mk_int 1
      | KSet v \<Rightarrow> set_ok v n
      | _ \<Rightarrow> is_JObject (Some n) \<and> distinct (map fst (members (Some n))) \<and>
          (\<forall>kv \<in> set (members (Some n)).
             case child K (fst kv) of None \<Rightarrow> False | Some K' \<Rightarrow> conforms K' (snd kv)))"
  by pat_completeness auto
termination
  by (relation "measure (\<lambda>(K, n). size n)") (auto dest!: size_members)

declare conforms.simps [simp del]

fun is_object_kind :: "kind \<Rightarrow> bool" where
  "is_object_kind KVersion = False"
| "is_object_kind (KSet v) = False"
| "is_object_kind _ = True"

lemma conforms_object:
  "is_object_kind K \<Longrightarrow> conforms K n \<longleftrightarrow> distinct_members (Some n) \<and>
     (\<forall>k v. (k, v) \<in> set (members (Some n)) \<longrightarrow> (\<exists>K'. child K k = Some K' \<and> conforms K' v))"
  by (subst conforms.simps, cases K)
     (auto simp: distinct_members_def split: option.splits; fastforce)+

lemma conforms_set [simp]: "conforms (KSet v) n \<longleftrightarrow> set_ok v n"
  by (simp add: conforms.simps)

lemma conforms_version [simp]: "conforms KVersion n \<longleftrightarrow> n = mk_int 1"
  by (simp add: conforms.simps)

lemma child_object: "child K k = Some K' \<Longrightarrow> is_object_kind K"
  by (cases K) auto

lemma conforms_get:
  "conforms K n \<Longrightarrow> is_object_kind K \<Longrightarrow> get (Some n) k = Some v \<Longrightarrow> \<exists>K'. child K k = Some K' \<and> conforms K' v"
  using get_memD [of n k v] by (auto simp: conforms_object)

section \<open>The check is the typing\<close>

lemma set_check: "check_orset (Some n) p False = None \<longleftrightarrow> set_ok AnyBytes n"
  "check_orset (Some n) p True = None \<longleftrightarrow> set_ok CanonicalValue n"
  "check_descriptor (Some n) p = None \<longleftrightarrow> set_ok Declaration n"
  by (auto simp: check_orset_None set_ok_def check_descriptor_def)

text \<open>A member that may be absent, checked through \<^verbatim>\<open>get\<close>, when the keys are distinct.\<close>

lemma object_by_members:
  assumes "distinct_members (Some n)"
  shows "(\<forall>k v. (k, v) \<in> set (members (Some n)) \<longrightarrow> P k v) \<longleftrightarrow>
    (\<forall>k v. get (Some n) k = Some v \<longrightarrow> P k v)"
  using assms by (auto simp: get_def distinct_members_def)

lemma fields_check:
  "check_fields f (Some n) p = None \<longleftrightarrow> distinct_members (Some n) \<and>
     (\<forall>k v. (k, v) \<in> set (members (Some n)) \<longrightarrow> f k \<and> set_ok CanonicalValue v)"
  unfolding check_fields_def check_then_None check_members_None check_all_None set_check by auto

lemma conforms_fields:
  assumes "is_object_kind K" "\<And>k. child K k = (if f k then Some (KSet CanonicalValue) else None)"
  shows "check_fields f (Some n) p = None \<longleftrightarrow> conforms K n"
  unfolding fields_check conforms_object [OF assms(1)] assms(2) by (auto split: if_splits)

lemma conforms_table:
  assumes K: "is_object_kind K" and d: "distinct_members (Some n)"
    and t: "child K = map_of (table K)" "distinct (map fst (table K))"
  shows "conforms K n \<longleftrightarrow> (\<forall>kv \<in> set (members (Some n)). fst kv \<in> fst ` set (table K)) \<and>
    (\<forall>e \<in> set (table K). \<forall>v. get (Some n) (fst e) = Some v \<longrightarrow> conforms (snd e) v)"
proof -
  have m: "map_of (table K) k = Some K' \<longleftrightarrow> (k, K') \<in> set (table K)" for k K'
    using t(2) by (rule map_of_eq_Some_iff)
  have g: "get (Some n) k = Some v \<longleftrightarrow> (k, v) \<in> set (members (Some n))" for k v
    using d by (simp add: get_def distinct_members_def)
  have e: "(\<exists>K'. (k, K') \<in> set (table K) \<and> conforms K' v) \<longleftrightarrow>
      k \<in> fst ` set (table K) \<and> (\<forall>e \<in> set (table K). fst e = k \<longrightarrow> conforms (snd e) v)" for k v
  proof (cases "k \<in> fst ` set (table K)")
    case True
    then obtain K' where K': "(k, K') \<in> set (table K)" by auto
    have "e = (k, K')" if "e \<in> set (table K)" "fst e = k" for e
      using eq_key_imp_eq_value [OF t(2) K', of "snd e"] that by (cases e) auto
    with K' True show ?thesis by (metis fst_conv snd_conv)
  qed (auto simp: image_iff)
  have "conforms K n \<longleftrightarrow> (\<forall>k v. (k, v) \<in> set (members (Some n)) \<longrightarrow>
      k \<in> fst ` set (table K) \<and> (\<forall>e \<in> set (table K). fst e = k \<longrightarrow> conforms (snd e) v))"
    using d by (simp only: conforms_object [OF K] t(1) m e simp_thms)
  then show ?thesis unfolding g by (simp only: Ball_def split_paired_All fst_conv snd_conv) blast
qed

lemma rune_check: "check_rune p (k, n) = None \<longleftrightarrow> k \<noteq> [] \<and> conforms KRune n"
proof (cases "distinct_members (Some n)")
  case True
  have f: "fields_of_rune (Some v) q = None \<longleftrightarrow> conforms KRuneFields v" for v q
    unfolding fields_of_rune_def by (rule conforms_fields) simp_all
  have c: "conforms KRune n \<longleftrightarrow> (\<forall>kv \<in> set (members (Some n)). fst kv \<in> fst ` set (table KRune)) \<and>
    (\<forall>e \<in> set (table KRune). \<forall>v. get (Some n) (fst e) = Some v \<longrightarrow> conforms (snd e) v)"
    by (rule conforms_table [OF _ True]) (simp_all add: fun_eq_iff)
  show ?thesis
    using True by (simp add: check_rune_def Let_def check_name_def set_check f c is_rune_member_def)
qed (simp add: check_rune_def Let_def conforms_object)

lemma objects_check:
  assumes "\<And>p k n. f p (k, n) = None \<longleftrightarrow> k \<noteq> [] \<and> conforms K' n"
    and "is_object_kind K" "\<And>k. child K k = (if k = [] then None else Some K')"
  shows "check_objects f (Some n) p = None \<longleftrightarrow> conforms K n"
proof -
  have "check_objects f (Some n) p = None \<longleftrightarrow> distinct_members (Some n) \<and>
      (\<forall>kv \<in> set (members (Some n)). f (sub p (fst kv)) kv = None)"
    by (simp add: check_objects_def distinct_members_def)
  also have "\<dots> \<longleftrightarrow> distinct_members (Some n) \<and>
      (\<forall>k v. (k, v) \<in> set (members (Some n)) \<longrightarrow> k \<noteq> [] \<and> conforms K' v)"
    using assms(1) by fastforce
  finally show ?thesis unfolding conforms_object [OF assms(2)] assms(3) by (auto split: if_splits)
qed

lemma mantle_check: "check_mantle p (k, n) = None \<longleftrightarrow> k \<noteq> [] \<and> conforms KMantle n"
proof (cases "distinct_members (Some n)")
  case True
  have f: "fields_of_mantle (Some v) q = None \<longleftrightarrow> conforms KMantleFields v" for v q
    unfolding fields_of_mantle_def by (rule conforms_fields) simp_all
  have r: "check_objects check_rune (Some v) q = None \<longleftrightarrow> conforms KRunes v" for v q
    by (rule objects_check) (simp_all add: rune_check)
  have c: "conforms KMantle n \<longleftrightarrow> (\<forall>kv \<in> set (members (Some n)). fst kv \<in> fst ` set (table KMantle)) \<and>
    (\<forall>e \<in> set (table KMantle). \<forall>v. get (Some n) (fst e) = Some v \<longrightarrow> conforms (snd e) v)"
    by (rule conforms_table [OF _ True]) (simp_all add: fun_eq_iff)
  show ?thesis
    using True by (auto simp: check_mantle_def Let_def check_name_def set_check f r c is_mantle_member_def)
qed (simp add: check_mantle_def Let_def conforms_object)

lemma glyph_fields_check:
  "check_then (check_members (Some n) q is_glyph_field) (check_opt (Some n) ''descriptor'' q check_descriptor) = None
   \<longleftrightarrow> conforms KGlyphFields n"
proof (cases "distinct_members (Some n)")
  case True
  have c: "conforms KGlyphFields n \<longleftrightarrow> (\<forall>kv \<in> set (members (Some n)). fst kv \<in> fst ` set (table KGlyphFields)) \<and>
    (\<forall>e \<in> set (table KGlyphFields). \<forall>v. get (Some n) (fst e) = Some v \<longrightarrow> conforms (snd e) v)"
    by (rule conforms_table [OF _ True]) (simp_all add: fun_eq_iff)
  show ?thesis using True by (simp add: set_check c is_glyph_field_def)
qed (simp add: conforms_object)

lemma glyph_check: "check_glyph p (k, n) = None \<longleftrightarrow> k \<noteq> [] \<and> conforms KGlyph n"
proof (cases "distinct_members (Some n)")
  case True
  have c: "conforms KGlyph n \<longleftrightarrow> (\<forall>kv \<in> set (members (Some n)). fst kv \<in> fst ` set (table KGlyph)) \<and>
    (\<forall>e \<in> set (table KGlyph). \<forall>v. get (Some n) (fst e) = Some v \<longrightarrow> conforms (snd e) v)"
    by (rule conforms_table [OF _ True]) (simp_all add: fun_eq_iff)
  show ?thesis
    using True glyph_fields_check [simplified]
    by (simp add: check_glyph_def Let_def check_name_def set_check c is_glyph_member_def)
qed (simp add: check_glyph_def Let_def conforms_object)

lemma version_check:
  "(case as_number v of Some x \<Rightarrow> if dbl_eq x (dbl_of_int 1) then None else fail p a | None \<Rightarrow> fail p b) = None
   \<longleftrightarrow> v = Some (mk_int 1)"
proof -
  have "dbl_eq (dbl_of_int 1) (dbl_of_int 1)" using dbl_of_int_exact(4) [of 1] by (simp add: dbl_eq_def)
  then show ?thesis
    using dbl_one_unique by (cases v; cases "the v") (auto simp: mk_int_def)
qed

lemma validate_iff:
  "validate (Some root) = None \<longleftrightarrow> conforms KRoot root \<and> get (Some root) (ascii ''palabra'') \<noteq> None"
proof (cases "distinct_members (Some root)")
  case True
  have m: "check_objects check_mantle (Some v) q = None \<longleftrightarrow> conforms KMantles v" for v q
    by (rule objects_check) (simp_all add: mantle_check)
  have g: "check_objects check_glyph (Some v) q = None \<longleftrightarrow> conforms KGlyphs v" for v q
    by (rule objects_check) (simp_all add: glyph_check)
  have c: "conforms KRoot root \<longleftrightarrow> (\<forall>kv \<in> set (members (Some root)). fst kv \<in> fst ` set (table KRoot)) \<and>
    (\<forall>e \<in> set (table KRoot). \<forall>v. get (Some root) (fst e) = Some v \<longrightarrow> conforms (snd e) v)"
    by (rule conforms_table [OF _ True]) (simp_all add: fun_eq_iff)
  show ?thesis
    using True distinct_members_JObject [OF True]
    by (auto simp: validate_def version_check m g c is_root_member_def)
qed (simp add: validate_def conforms_object)

text \<open>C20. The check at the door accepts exactly the documents of the grammar: the typed tree of
  mantles, runes and declarations, every set well formed and every value canonical.\<close>

theorem validate_conforms:
  "validate (Some root) = None \<longleftrightarrow> conforms KRoot root \<and> get (Some root) (ascii ''palabra'') \<noteq> None"
  by (rule validate_iff)

section \<open>At concrete inputs\<close>

definition note_doc :: json where
  "note_doc = JObject [(ascii ''palabra'', mk_int 1), (ascii ''mantles'', JObject
     [(ascii ''m'', JObject [(ascii ''present'', orset_to_json (orset_add (ascii ''a_1'') (ascii ''1'') orset_new)),
        (ascii ''fields'', JObject []),
        (ascii ''runes'', JObject [(ascii ''r'', JObject
           [(ascii ''present'', orset_to_json (orset_add (ascii ''a_2'') (ascii ''1'') orset_new)),
            (ascii ''fields'', JObject [(ascii ''glyph'', orset_to_json (orset_add (ascii ''a_3'') [5, 1, 0x67] orset_new))]),
            (ascii ''tags'', orset_to_json orset_new)])])])])]"

lemma note_sets:
  "set_ok AnyBytes (orset_to_json (orset_add (ascii ''a_1'') (ascii ''1'') orset_new))"
  "set_ok AnyBytes (orset_to_json (orset_add (ascii ''a_2'') (ascii ''1'') orset_new))"
  "set_ok CanonicalValue (orset_to_json (orset_add (ascii ''a_3'') [5, 1, 0x67] orset_new))"
  "set_ok CanonicalValue (orset_to_json orset_new)"
  by code_simp+

lemma note_valid: "validate (Some note_doc) = None"
proof -
  have "rune_field_allowed (ascii ''glyph'')" by code_simp
  then show ?thesis
  unfolding validate_iff
  by (simp add: note_doc_def conforms_object distinct_members_def note_sets)
qed

lemma note_sets_wf [simp]:
  "json_wf (orset_to_json (orset_add (ascii ''a_1'') (ascii ''1'') orset_new))"
  "json_wf (orset_to_json (orset_add (ascii ''a_2'') (ascii ''1'') orset_new))"
  "json_wf (orset_to_json (orset_add (ascii ''a_3'') [5, 1, 0x67] orset_new))"
  "json_wf (orset_to_json orset_new)"
  by code_simp+

lemma note_wf: "json_wf note_doc"
  by (simp add: note_doc_def mk_int_def nul_free_ascii)

definition note_tag_value :: "bytes \<Rightarrow> bytes" where
  "note_tag_value t = (if t = ascii ''a_3'' then [5, 1, 0x67] else ascii ''1'')"

lemma tags_agree_object:
  "\<not> is_orset (Some (JObject ms)) \<Longrightarrow> tags_agree V (JObject ms) \<longleftrightarrow> (\<forall>kv \<in> set ms. tags_agree V (snd kv))"
  by (subst tags_agree.simps) simp

lemma tags_agree_to_json:
  "orset_wf s \<Longrightarrow> tags_printable s \<Longrightarrow> tags_agree V (orset_to_json s) \<longleftrightarrow> (\<forall>kv \<in> set (adds s). snd kv = V (fst kv))"
  by (subst tags_agree.simps) (simp add: from_to_json)

lemma note_sets_agree:
  "tags_agree note_tag_value (orset_to_json (orset_add (ascii ''a_1'') (ascii ''1'') orset_new))"
  "tags_agree note_tag_value (orset_to_json (orset_add (ascii ''a_2'') (ascii ''1'') orset_new))"
  "tags_agree note_tag_value (orset_to_json (orset_add (ascii ''a_3'') [5, 1, 0x67] orset_new))"
  "tags_agree note_tag_value (orset_to_json orset_new)"
  by code_simp+

lemma note_agrees: "tags_agree note_tag_value note_doc"
proof -
  have "tags_agree note_tag_value (mk_int 1)" by (subst tags_agree.simps) (simp add: mk_int_def is_orset_def)
  then show ?thesis
    by (simp add: note_doc_def tags_agree_object is_orset_def note_sets_agree)
qed

theorem validate_tree_ok_witness:
  "tree_ok (\<lambda>_. []) (\<lambda>_. mk_int 1) note_tag_value note_doc"
  by (rule validate_tree_ok [OF note_valid note_wf note_agrees]) simp

end
