(* ===== verification/Editing.thy ===== *)
theory Editing
  imports Replica Kinds
begin

text \<open>
  What the editor keeps: writing a set at a path of the grammar of documents keeps the
  document valid and adds no tag but the set's own.
\<close>

section \<open>The tags of a document\<close>

definition orset_tags :: "orset \<Rightarrow> bytes set" where
  "orset_tags s = fst ` set (adds s) \<union> set (removes s)"

function tags_in :: "json \<Rightarrow> bytes set" where
  "tags_in n =
     (if is_orset (Some n) then orset_tags (orset_from_json (Some n))
      else (\<Union>kv \<in> set (members (Some n)). tags_in (snd kv)))"
  by pat_completeness auto
termination
  by (relation "measure size") (auto dest!: size_members)

declare tags_in.simps [simp del]

lemma tags_in_orset: "is_orset (Some n) \<Longrightarrow> tags_in n = orset_tags (orset_from_json (Some n))"
  by (simp add: tags_in.simps)

lemma tags_in_object: "\<not> is_orset (Some n) \<Longrightarrow> tags_in n = (\<Union>kv \<in> set (members (Some n)). tags_in (snd kv))"
  by (subst tags_in.simps) simp

lemma set_collect_all_tags: "set (collect_all_tags (Some n) out) = set out \<union> tags_in n"
proof (induction n arbitrary: out rule: tags_in.induct)
  case (1 n)
  show ?case
  proof (cases "is_orset (Some n)")
    case True
    then show ?thesis
      by (auto simp: collect_all_tags.simps [of "Some n"] tags_in_orset orset_tags_def Let_def)
  next
    case False
    then have "collect_all_tags (Some n) out =
        foldl (\<lambda>out kv. collect_all_tags (Some (snd kv)) out) out (members (Some n))"
      by (simp add: collect_all_tags.simps [of "Some n"])
    also have "set \<dots> = set out \<union> (\<Union>kv \<in> set (members (Some n)). tags_in (snd kv))"
      by (rule foldl_union) (rule "1.IH" [OF False])
    finally show ?thesis using False by (simp add: tags_in_object)
  qed
qed

section \<open>Sets that may be stored\<close>

definition good_set :: "held \<Rightarrow> orset \<Rightarrow> bool" where
  "good_set v s \<longleftrightarrow> orset_wf s \<and> tags_printable s \<and> (\<forall>kv \<in> set (adds s). value_ok v (snd kv))"

lemma set_ok_orset: "set_ok v n \<Longrightarrow> is_orset (Some n)"
  by (auto simp: set_ok_def intro: well_formed_is_orset)

lemma good_set_to_json:
  assumes "good_set v s"
  shows "set_ok v (orset_to_json s)" "json_wf (orset_to_json s)" "tags_in (orset_to_json s) = orset_tags s"
proof -
  have s: "orset_from_json (Some (orset_to_json s)) = s" "orset_json_well_formed (Some (orset_to_json s))"
    using assms orset_from_to_json [of s] by (auto simp: good_set_def)
  have c: "c_str (fst kv) = fst kv" if "kv \<in> set (adds s)" for kv
    using that assms by (auto simp: good_set_def tags_printable_def)
  have "map (\<lambda>kv. c_str (fst kv)) (adds s) = map fst (adds s)" using c by simp
  moreover have "distinct (map fst (adds s))"
    using assms by (simp add: good_set_def orset_wf_def om_ok_distinct)
  ultimately have "distinct (map (\<lambda>kv. c_str (fst kv)) (adds s))" by (simp only:)
  then show "set_ok v (orset_to_json s)"
    using assms s by (simp add: set_ok_def good_set_def) (simp add: orset_to_json_def o_def)
  show "tags_in (orset_to_json s) = orset_tags s" using s by (simp add: tags_in_orset)
  show "json_wf (orset_to_json s)" by (auto simp: orset_to_json_def mk_string_def nul_free_ascii nul_free_hexify)
qed

lemma good_set_from_json:
  "set_ok v n \<Longrightarrow> json_wf n \<Longrightarrow> good_set v (orset_from_json (Some n))"
  by (simp add: good_set_def set_ok_def from_json_printable)

lemma good_set_new [simp]: "good_set v orset_new"
  by (simp add: good_set_def orset_new_def tags_printable_def orset_wf_def)

lemma good_set_add:
  assumes "good_set v s" "value_ok v b" "t \<noteq> []" "nul_free t"
  shows "good_set v (orset_add t b s)"
proof -
  have m: "kv \<in> set (om_put t b m) \<Longrightarrow> kv = (t, b) \<or> kv \<in> set m" for kv m
    by (induction t b m rule: om_put.induct) (auto split: if_splits)
  have "value_ok v (snd kv)" if "kv \<in> set (adds (orset_add t b s))" for kv
    using m [of kv "adds s"] that assms by (auto simp: good_set_def orset_add_def)
  then show ?thesis using assms by (simp add: good_set_def printable_add)
qed

lemma good_set_remove [intro]:
  "good_set v s \<Longrightarrow> good_set v (remove_all s)" "good_set v s \<Longrightarrow> good_set v (remove_value b s)"
proof -
  have "adds (remove_all s) = adds s" "adds (remove_value b s) = adds s"
    by (simp_all add: remove_all_def remove_value_def)
  then show "good_set v s \<Longrightarrow> good_set v (remove_all s)" "good_set v s \<Longrightarrow> good_set v (remove_value b s)"
    by (simp_all add: good_set_def printable_remove_all printable_remove_value)
qed

lemma good_set_write:
  "good_set v s \<Longrightarrow> value_ok v b \<Longrightarrow> t \<noteq> [] \<Longrightarrow> nul_free t \<Longrightarrow> good_set v (reg_write t b s)"
  by (auto simp: reg_write_def intro: good_set_add)

lemma orset_tags_ops:
  "orset_tags (orset_add t b s) = insert t (orset_tags s)"
  "orset_tags (remove_all s) = orset_tags s"
  "orset_tags (remove_value b s) \<subseteq> orset_tags s"
  by (auto simp: orset_tags_def orset_add_def remove_all_def remove_value_def fst_set_om_put)

section \<open>Paths of the grammar\<close>

fun kind_at :: "kind \<Rightarrow> path \<Rightarrow> kind option" where
  "kind_at K [] = Some K"
| "kind_at K (k # ks) = (case child K k of None \<Rightarrow> None | Some K' \<Rightarrow> kind_at K' ks)"

definition plain :: "path \<Rightarrow> bool" where
  "plain p \<longleftrightarrow> (\<forall>k \<in> set p. nul_free k)"

lemma plain_simps [simp]: "plain []" "plain (k # ks) \<longleftrightarrow> nul_free k \<and> plain ks"
  "plain (p @ q) \<longleftrightarrow> plain p \<and> plain q"
  by (auto simp: plain_def)

lemma kind_at_append:
  "kind_at K (p @ q) = (case kind_at K p of None \<Rightarrow> None | Some K' \<Rightarrow> kind_at K' q)"
  by (induction p arbitrary: K) (auto split: option.split)

lemma node_at_None [simp]: "node_at None p = None"
  by (induction p) auto

lemma node_at_kind:
  "conforms K n \<Longrightarrow> json_wf n \<Longrightarrow> kind_at K p = Some K' \<Longrightarrow> plain p \<Longrightarrow> node_at (Some n) p = Some m \<Longrightarrow>
   conforms K' m \<and> json_wf m"
proof (induction p arbitrary: K n)
  case (Cons k ks)
  from Cons.prems(3) obtain K1 where K1: "child K k = Some K1" "kind_at K1 ks = Some K'"
    by (auto split: option.splits)
  show ?case
  proof (cases "get (Some n) k")
    case None
    with Cons.prems show ?thesis by simp
  next
    case (Some v)
    then have "conforms K1 v" "json_wf v"
      using Cons.prems K1 conforms_get [of K n k v] get_wf [of n k v] child_object [of K k K1] by auto
    with Cons.IH [of K1 v] Cons.prems K1 Some show ?thesis by simp
  qed
qed simp

lemma conforms_not_orset:
  assumes "conforms K n" "is_object_kind K"
  shows "\<not> is_orset (Some n)"
proof -
  obtain ms where n: "n = JObject ms"
    using assms by (cases n) (auto simp: conforms_object distinct_members_def)
  have "is_JObject (Some v)" if v: "map_of ms (ascii ''r'') = Some v" for v
  proof -
    obtain K' where K': "child K (ascii ''r'') = Some K'" "conforms K' v"
      using conforms_get [OF assms] v n by auto
    have "K' \<noteq> KVersion" using K'(1) by (cases K) (auto split: if_splits)
    then show ?thesis
      using K'(2) by (cases K') (auto simp: conforms_object distinct_members_def set_ok_def orset_json_well_formed_def)
  qed
  then show ?thesis unfolding n by (rule object_not_orset)
qed

lemma tags_in_version [simp]: "tags_in (mk_int 1) = {}"
  by (subst tags_in_object) (auto simp: mk_int_def is_orset_def)

lemma tags_in_member:
  "conforms K n \<Longrightarrow> is_object_kind K \<Longrightarrow> (k, v) \<in> set (members (Some n)) \<Longrightarrow> tags_in v \<subseteq> tags_in n"
  using tags_in_object [of n] conforms_not_orset [of K n] by force

lemma tags_in_node_at:
  "conforms K n \<Longrightarrow> kind_at K p = Some K' \<Longrightarrow> plain p \<Longrightarrow> node_at (Some n) p = Some m \<Longrightarrow> tags_in m \<subseteq> tags_in n"
proof (induction p arbitrary: K n)
  case (Cons k ks)
  from Cons.prems(2) obtain K1 where K1: "child K k = Some K1" "kind_at K1 ks = Some K'"
    by (auto split: option.splits)
  show ?case
  proof (cases "get (Some n) k")
    case (Some v)
    have "conforms K1 v" using Cons.prems K1 Some conforms_get [of K n k v] child_object [of K k K1] by auto
    then have "tags_in m \<subseteq> tags_in v" using Cons.IH [of K1 v] Cons.prems K1 Some by simp
    moreover have "tags_in v \<subseteq> tags_in n"
      using tags_in_member [of K n k v] Cons.prems K1 Some get_memD [of n k v] child_object [of K k K1] by simp
    ultimately show ?thesis by blast
  qed (use Cons.prems in simp)
qed simp

lemma members_JObject: "distinct_members (Some n) \<Longrightarrow> \<exists>ms. n = JObject ms \<and> distinct (map fst ms)"
  by (cases n) (auto simp: distinct_members_def)

lemma set_delete_member: "distinct (map fst ms) \<Longrightarrow> set (delete_member k ms) = {kv \<in> set ms. fst kv \<noteq> k}"
  by (induction k ms rule: delete_member.induct) force+

lemma distinct_delete_member: "distinct (map fst ms) \<Longrightarrow> distinct (map fst (delete_member k ms))"
  by (induction k ms rule: delete_member.induct) (auto simp: set_delete_member)

lemma fst_update_member: "map fst (update_member k f ms) = map fst ms"
  by (induction k f ms rule: update_member.induct) auto

lemma set_update_member:
  "distinct (map fst ms) \<Longrightarrow> map_of ms k = Some v \<Longrightarrow>
   set (update_member k f ms) = {kv \<in> set ms. fst kv \<noteq> k} \<union> {(k, f v)}"
  by (induction k f ms rule: update_member.induct) force+

text \<open>Replacing, in an object of the grammar, the member \<open>k\<close>, or adding it.\<close>

lemma replace_member:
  assumes n: "conforms K (JObject ms)" "json_wf (JObject ms)" and K: "child K k = Some K'" "nul_free k"
    and v: "conforms K' v" "json_wf v"
    and ms': "distinct (map fst ms')" "set ms' = {kv \<in> set ms. fst kv \<noteq> k} \<union> {(k, v)}"
  shows "conforms K (JObject ms')" "json_wf (JObject ms')" "tags_in (JObject ms') \<subseteq> tags_in (JObject ms) \<union> tags_in v"
    "fst ` set ms \<subseteq> fst ` set ms'"
proof -
  show "fst ` set ms \<subseteq> fst ` set ms'" using ms'(2) by force
  have ob: "is_object_kind K" using K(1) by (rule child_object)
  show c: "conforms K (JObject ms')"
    using n(1) K v ms' by (auto simp: conforms_object [OF ob] distinct_members_def)
  show "json_wf (JObject ms')" using n(2) K(2) v(2) ms'(2) by auto
  show "tags_in (JObject ms') \<subseteq> tags_in (JObject ms) \<union> tags_in v"
    using tags_in_object [OF conforms_not_orset [OF n(1) ob]] tags_in_object [OF conforms_not_orset [OF c ob]] ms'(2)
    by auto
qed

lemma empty_object: "is_object_kind K \<Longrightarrow> conforms K (JObject []) \<and> tags_in (JObject []) = {}"
proof -
  assume K: "is_object_kind K"
  then have "conforms K (JObject [])" by (simp add: conforms_object distinct_members_def)
  with K tags_in_object [OF conforms_not_orset] show ?thesis by simp
qed

lemma put_set_at:
  assumes "conforms K n" "json_wf n" "kind_at K p = Some (KSet v)" "p \<noteq> []" "plain p" "good_set v s"
  shows "conforms K (edit_at (butlast p) (put_orset (last p) s) n) \<and>
    json_wf (edit_at (butlast p) (put_orset (last p) s) n) \<and>
    tags_in (edit_at (butlast p) (put_orset (last p) s) n) \<subseteq> tags_in n \<union> orset_tags s \<and>
    fst ` set (members (Some n)) \<subseteq> fst ` set (members (Some (edit_at (butlast p) (put_orset (last p) s) n)))"
  using assms
proof (induction p arbitrary: K n)
  case (Cons k ks)
  from Cons.prems(3) obtain K1 where K1: "child K k = Some K1" "kind_at K1 ks = Some (KSet v)"
    by (auto split: option.splits)
  have ob: "is_object_kind K" using K1(1) by (rule child_object)
  from Cons.prems(1) obtain ms where n: "n = JObject ms" "distinct (map fst ms)"
    using members_JObject conforms_object [OF ob] by blast
  have k: "nul_free k" "c_str k = k" using Cons.prems(5) by auto
  note replace = replace_member [OF Cons.prems(1) [unfolded n(1)] Cons.prems(2) [unfolded n(1)] K1(1) k(1)]
  show ?case
  proof (cases "ks = []")
    case True
    with K1 have "K1 = KSet v" by simp
    have "distinct (map fst (delete_member k ms @ [(k, orset_to_json s)]))"
      "set (delete_member k ms @ [(k, orset_to_json s)]) = {kv \<in> set ms. fst kv \<noteq> k} \<union> {(k, orset_to_json s)}"
      using n(2) by (auto simp: set_delete_member distinct_delete_member)
    from replace [OF _ _ this] show ?thesis
      using True n(1) k(2) good_set_to_json [OF Cons.prems(6)] \<open>K1 = KSet v\<close>
      by (auto simp: add_member_def)
  next
    case False
    let ?f = "edit_at (butlast ks) (put_orset (last ks) s)"
    have e: "edit_at (butlast (k # ks)) (put_orset (last (k # ks)) s) n =
        (if map_of ms k = None then JObject (ms @ [(k, ?f (JObject []))]) else JObject (update_member k ?f ms))"
      using False n(1) k(2) by (simp add: add_member_def)
    have ob1: "is_object_kind K1"
      using K1(2) False by (cases ks) (auto dest: child_object split: option.splits)
    note IH = Cons.IH [OF _ _ K1(2) False _ Cons.prems(6)]
    show ?thesis
    proof (cases "map_of ms k")
      case None
      let ?v = "?f (JObject [])"
      have v: "conforms K1 ?v" "json_wf ?v" "tags_in ?v \<subseteq> orset_tags s"
        using IH [of "JObject []"] empty_object [OF ob1] Cons.prems(5) by auto
      have "k \<notin> fst ` set ms" using None by (simp add: map_of_eq_None_iff)
      then have "distinct (map fst (ms @ [(k, ?v)]))" "set (ms @ [(k, ?v)]) = {kv \<in> set ms. fst kv \<noteq> k} \<union> {(k, ?v)}"
        using n(2) by auto
      from replace [OF v(1,2) this] show ?thesis unfolding e using None v(3) n(1) by auto
    next
      case (Some w)
      let ?v = "?f w"
      have w: "conforms K1 w" "json_wf w"
        using conforms_get [OF Cons.prems(1) ob, of k w] get_wf [of n k w] Some n(1) K1(1) Cons.prems(2) by auto
      have v: "conforms K1 ?v" "json_wf ?v" "tags_in ?v \<subseteq> tags_in w \<union> orset_tags s"
        using IH [OF w] Cons.prems(5) by auto
      have "tags_in w \<subseteq> tags_in n"
        using tags_in_member [OF Cons.prems(1) ob] map_of_SomeD [OF Some] n(1) by simp
      moreover have "distinct (map fst (update_member k ?f ms))" using n(2) by (simp add: fst_update_member)
      then have "conforms K (JObject (update_member k ?f ms)) \<and> json_wf (JObject (update_member k ?f ms)) \<and>
          tags_in (JObject (update_member k ?f ms)) \<subseteq> tags_in (JObject ms) \<union> tags_in ?v \<and>
          fst ` set ms \<subseteq> fst ` set (update_member k ?f ms)"
        using set_update_member [OF n(2) Some, of ?f] replace [OF v(1,2)] by blast
      ultimately show ?thesis unfolding e using Some v(3) n(1) by auto
    qed
  qed
qed simp

text \<open>A document that passes the check, as a value a peer can hold.\<close>

definition valid_doc :: "json \<Rightarrow> bool" where
  "valid_doc n \<longleftrightarrow> validate (Some n) = None \<and> json_wf n"

lemma valid_doc_iff:
  "valid_doc n \<longleftrightarrow> conforms KRoot n \<and> json_wf n \<and> ascii ''palabra'' \<in> fst ` set (members (Some n))"
  by (auto simp: valid_doc_def validate_iff get_def map_of_eq_None_iff)

lemma valid_doc_put:
  assumes "valid_doc n" "kind_at KRoot p = Some (KSet v)" "plain p" "good_set v s"
  shows "valid_doc (edit_at (butlast p) (put_orset (last p) s) n) \<and>
    tags_in (edit_at (butlast p) (put_orset (last p) s) n) \<subseteq> tags_in n \<union> orset_tags s"
proof -
  have "p \<noteq> []" using assms(2) by auto
  with put_set_at [of KRoot n p v s] assms show ?thesis unfolding valid_doc_iff by blast
qed

text \<open>An edit whose change depends on the member it replaces.\<close>

lemma update_member_cong:
  "(\<And>v. map_of ms k = Some v \<Longrightarrow> f v = g v) \<Longrightarrow> update_member k f ms = update_member k g ms"
  by (induction k f ms rule: update_member.induct) auto

lemma edit_at_dependent:
  "edit_at q (\<lambda>h. put_orset k (F (get (Some h) (c_str k))) h) n =
   edit_at q (put_orset k (F (node_at (Some n) (q @ [k])))) n"
proof (induction q arbitrary: n)
  case (Cons a q)
  show ?case
  proof (cases n)
    case (JObject ms)
    have "edit_at q (\<lambda>h. put_orset k (F (get (Some h) (c_str k))) h) (JObject []) =
        edit_at q (put_orset k (F None)) (JObject [])"
      using Cons.IH [of "JObject []"] by (cases q) simp_all
    moreover have "edit_at q (\<lambda>h. put_orset k (F (get (Some h) (c_str k))) h) v =
        edit_at q (put_orset k (F (node_at (map_of ms (c_str a)) (q @ [k])))) v"
      if "map_of ms (c_str a) = Some v" for v
      using Cons.IH that by simp
    ultimately show ?thesis
      using JObject by (auto intro: update_member_cong)
  qed simp_all
qed simp

end
