(* ===== verification/Minting.thy ===== *)
theory Minting
  imports Editing
begin

text \<open>
  The account of what an editor mints. A step \<open>runs\<close> at a cost when it keeps the document and
  the delta valid, never leaves a tag under this replica's id whose number its counter has not
  reached, and keeps the delta the difference between the document the editor started from and
  the one it has, provided the counter has room for that many more tags.
\<close>

section \<open>The last counter a tag can carry\<close>

text \<open>\<^verbatim>\<open>own_counter\<close> reads numbers up to \<^verbatim>\<open>UINT64_MAX - 9\<close>.\<close>

definition mint_limit :: nat where
  "mint_limit = 2 ^ 64 - 1 - 9"

definition own_le :: "bytes \<Rightarrow> 64 word \<Rightarrow> bytes set \<Rightarrow> bool" where
  "own_le i n T \<longleftrightarrow> (\<forall>t \<in> T. \<forall>c. own_counter t i = Some c \<longrightarrow> c \<le> n)"

lemma own_le_simps [simp]:
  "own_le i n {}" "own_le i n (S \<union> T) \<longleftrightarrow> own_le i n S \<and> own_le i n T"
  by (auto simp: own_le_def)

lemma own_le_insert: "own_le i n {t} \<Longrightarrow> own_le i n T \<Longrightarrow> own_le i n (insert t T)"
  by (simp add: own_le_def)

lemma own_le_fresh: "own_le i n T \<Longrightarrow> own_counter t i = Some c \<Longrightarrow> n < c \<Longrightarrow> t \<notin> T"
  by (auto simp: own_le_def)

lemma own_le_subset: "own_le i n T \<Longrightarrow> S \<subseteq> T \<Longrightarrow> own_le i n S"
  by (auto simp: own_le_def)

lemma own_le_mono: "own_le i n T \<Longrightarrow> n \<le> m \<Longrightarrow> own_le i m T"
  by (force simp: own_le_def)

lemma own_counter_minted:
  assumes "unat n \<le> mint_limit"
  shows "own_counter (i @ ascii ''_'' @ to_string (unat n)) i = Some n"
proof -
  have "(i @ ascii ''_'' @ to_string (unat n)) ! length i = 0x5f"
    by (simp add: nth_append ascii_def)
  moreover have "stamp_digits 0 (to_string (unat n)) = Some (word_of_nat (unat n))"
    using assms unfolding mint_limit_def by (rule stamp_digits_to_string)
  moreover have "length (to_string (unat n)) > 0" using to_string_nonempty by simp
  ultimately show ?thesis by (simp add: own_counter_def ascii_def)
qed

lemma to_string_nul_free: "nul_free (to_string n)"
proof -
  have "(48 + word_of_nat k :: byte) \<noteq> 0" if "k < 10" for k
    using that digit_byte [of k] by force
  then show ?thesis using to_string_digits unfolding nul_free_def by metis
qed

lemma id_nul_free: "valid_id i = None \<Longrightarrow> nul_free i"
proof -
  assume "valid_id i = None"
  then have "\<forall>c \<in> set i. id_char c" by (auto simp: valid_id_def list_all_iff split: if_splits)
  moreover have "\<not> id_char 0" by (simp add: id_char_def)
  ultimately show ?thesis unfolding nul_free_def by blast
qed

section \<open>The sets of a document\<close>

definition orset_at :: "json \<Rightarrow> path \<Rightarrow> orset" where
  "orset_at n p = orset_from_json (node_at (Some n) p)"

lemma ed_load_at: "ed_load p e = orset_at (work e) p"
  by (simp add: ed_load_def orset_at_def)

lemma orset_at_good:
  assumes "valid_doc n" "kind_at KRoot p = Some (KSet v)" "plain p"
  shows "good_set v (orset_at n p) \<and> orset_tags (orset_at n p) \<subseteq> tags_in n"
proof -
  have w: "conforms KRoot n" "json_wf n" using assms(1) by (auto simp: valid_doc_iff)
  show ?thesis
  proof (cases "node_at (Some n) p")
    case None
    then have "orset_at n p = orset_new" by (simp add: orset_at_def)
    then show ?thesis by (simp add: orset_tags_def) (simp add: orset_new_def)
  next
    case (Some m)
    have m: "set_ok v m" "json_wf m" using node_at_kind [OF w assms(2,3) Some] by auto
    have "orset_tags (orset_from_json (Some m)) = tags_in m"
      using tags_in_orset set_ok_orset [OF m(1)] by simp
    also have "\<dots> \<subseteq> tags_in n" using w(1) assms(2,3) Some by (rule tags_in_node_at)
    finally show ?thesis using good_set_from_json [OF m] Some by (simp add: orset_at_def)
  qed
qed

text \<open>An edit of one set changes what is at its path and at no other path of a set.\<close>

lemma node_at_edit:
  "conforms K n \<Longrightarrow> kind_at K p = Some (KSet v) \<Longrightarrow> plain p \<Longrightarrow> p \<noteq> [] \<Longrightarrow> kind_at K q = Some (KSet w) \<Longrightarrow> plain q \<Longrightarrow>
   node_at (Some (edit_at (butlast p) (put_orset (last p) s) n)) q =
     (if q = p then Some (orset_to_json s) else node_at (Some n) q)"
proof (induction p arbitrary: K n q)
  case (Cons k ks)
  from Cons.prems(2) obtain K1 where K1: "child K k = Some K1" "kind_at K1 ks = Some (KSet v)"
    by (auto split: option.splits)
  have ob: "is_object_kind K" using K1(1) by (rule child_object)
  from Cons.prems(1) obtain ms where n: "n = JObject ms" "distinct (map fst ms)"
    using members_JObject conforms_object [OF ob] by blast
  have k: "c_str k = k" using Cons.prems(3) by auto
  obtain a q' where q: "q = a # q'" using Cons.prems(5) ob by (cases q) auto
  have a: "c_str a = a" "plain q'" using Cons.prems(6) q by auto
  obtain A where A: "child K a = Some A" "kind_at A q' = Some (KSet w)"
    using Cons.prems(5) q by (auto split: option.splits)
  show ?case
  proof (cases "ks = []")
    case True
    then have "q' = []" if "a = k" using that A K1 by (cases q') (auto simp: is_object_kind.simps)
    then show ?thesis
      using True n q k a by (auto simp: add_member_def map_of_delete_member map_add_def split: option.split)
  next
    case False
    let ?f = "edit_at (butlast ks) (put_orset (last ks) s)"
    have e: "edit_at (butlast (k # ks)) (put_orset (last (k # ks)) s) n =
        (if map_of ms k = None then JObject (ms @ [(k, ?f (JObject []))]) else JObject (update_member k ?f ms))"
      using False n(1) k by (simp add: add_member_def)
    have ob1: "is_object_kind K1"
      using K1(2) False by (cases ks) (auto dest: child_object split: option.splits)
    have IH: "node_at (Some (?f m)) q' = (if q' = ks then Some (orset_to_json s) else node_at (Some m) q')"
      if "conforms K1 m" "a = k" for m
      using Cons.IH [OF that(1) K1(2) _ False _ a(2)] Cons.prems(3) A K1(1) that(2) by simp
    show ?thesis
    proof (cases "map_of ms k")
      case None
      have "q' \<noteq> []" if "a = k" using that A K1(1) ob1 by auto
      then have "node_at (Some (JObject [])) q' = None" if "a = k" using that by (cases q') auto
      then show ?thesis
        unfolding e using None n q a IH [of "JObject []"] empty_object [OF ob1]
        by (cases "a = k") (auto simp: map_add_def split: option.split)
    next
      case (Some m)
      then have "conforms K1 m"
        using conforms_get [OF Cons.prems(1) ob, of k m] n(1) K1(1) by auto
      then show ?thesis
        unfolding e using Some n q a IH [of m] by (auto simp: map_of_update_member)
    qed
  qed
qed simp

lemma orset_at_edit:
  assumes "valid_doc n" "kind_at KRoot p = Some (KSet v)" "plain p" "good_set v s"
    "kind_at KRoot q = Some (KSet w)" "plain q"
  shows "orset_at (edit_at (butlast p) (put_orset (last p) s) n) q = (if q = p then s else orset_at n q)"
proof -
  have "p \<noteq> []" using assms(2) by auto
  then show ?thesis
    using node_at_edit [OF _ assms(2,3) _ assms(5,6), of n s] assms(1,4) orset_from_to_json [of s]
    by (auto simp: orset_at_def valid_doc_iff good_set_def)
qed

text \<open>A set that holds more: new tags, new retirements, nothing lost.\<close>

definition extends :: "orset \<Rightarrow> orset \<Rightarrow> bool" where
  "extends a b \<longleftrightarrow> map_of (adds a) \<subseteq>\<^sub>m map_of (adds b) \<and> set (removes a) \<subseteq> set (removes b)"

section \<open>Good editors\<close>

text \<open>The delta joined to the document \<open>d\<close> the editor started from gives its document, set by set.\<close>

definition tracks :: "json \<Rightarrow> editor \<Rightarrow> bool" where
  "tracks d e \<longleftrightarrow> (\<forall>p v. kind_at KRoot p = Some (KSet v) \<longrightarrow> plain p \<longrightarrow>
     orset_join (orset_at d p) (orset_at (delta e) p) = orset_at (work e) p)"

definition ed_good :: "bytes \<Rightarrow> json \<Rightarrow> editor \<Rightarrow> bool" where
  "ed_good i d e \<longleftrightarrow> valid_doc d \<and> tracks d e \<and> valid_doc (work e) \<and> valid_doc (delta e) \<and>
     own_le i (issued e) (tags_in (work e)) \<and> own_le i (issued e) (tags_in (delta e))"

definition runs :: "bytes \<Rightarrow> json \<Rightarrow> nat \<Rightarrow> step \<Rightarrow> bool" where
  "runs i d n s \<longleftrightarrow> (\<forall>e. ed_good i d e \<longrightarrow> unat (issued e) + n \<le> mint_limit \<longrightarrow>
     ed_good i d (snd (s e)) \<and> unat (issued e) \<le> unat (issued (snd (s e))) \<and>
     unat (issued (snd (s e))) \<le> unat (issued e) + n)"

lemma runsD:
  assumes "runs i d n s" "ed_good i d e" "unat (issued e) + n \<le> mint_limit"
  shows "ed_good i d (snd (s e))" "unat (issued e) \<le> unat (issued (snd (s e)))"
    "unat (issued (snd (s e))) \<le> unat (issued e) + n"
  using assms by (auto simp: runs_def)

lemma runs_weaken: "runs i d m s \<Longrightarrow> m \<le> n \<Longrightarrow> runs i d n s"
  unfolding runs_def by (meson add_left_mono le_trans)

lemma runs_ok: "runs i d 0 ed_ok"
  by (simp add: runs_def ed_ok_def)

lemma runs_throw: "runs i d 0 (ed_throw x)"
  by (simp add: runs_def ed_throw_def)

lemma runs_then:
  assumes a: "runs i d m a" and b: "runs i d n b"
  shows "runs i d (m + n) (ed_then a b)"
  unfolding runs_def
proof (intro allI impI)
  fix e assume e: "ed_good i d e" "unat (issued e) + (m + n) \<le> mint_limit"
  obtain x e' where ae: "a e = (x, e')" by (cases "a e")
  have m: "unat (issued e) + m \<le> mint_limit" using e(2) by simp
  have e': "ed_good i d e'" "unat (issued e) \<le> unat (issued e')" "unat (issued e') \<le> unat (issued e) + m"
    using runsD [OF a e(1) m] ae by simp_all
  have n: "unat (issued e') + n \<le> mint_limit" using e(2) e'(3) by simp
  show "ed_good i d (snd (ed_then a b e)) \<and> unat (issued e) \<le> unat (issued (snd (ed_then a b e))) \<and>
      unat (issued (snd (ed_then a b e))) \<le> unat (issued e) + (m + n)"
  proof (cases x)
    case None
    with runsD [OF b e'(1) n] e' ae show ?thesis by (auto simp: ed_then_def)
  qed (use e' ae in \<open>auto simp: ed_then_def\<close>)
qed

lemma runs_each:
  assumes "\<And>x. x \<in> set xs \<Longrightarrow> runs i d (c x) (f x)"
  shows "runs i d (sum_list (map c xs)) (ed_each f xs)"
  using assms by (induction xs) (auto intro: runs_ok runs_then)

lemma runs_canon: "(\<And>v. r = Inr v \<Longrightarrow> runs i d n (f v)) \<Longrightarrow> runs i d n (ed_canon r f)"
  by (auto simp: ed_canon_def split: sum.split intro: runs_weaken [OF runs_throw])

section \<open>Storing a set\<close>

lemma load_good:
  assumes "ed_good i d e" "kind_at KRoot p = Some (KSet v)" "plain p"
  shows "good_set v (ed_load p e)" "own_le i (issued e) (orset_tags (ed_load p e))"
  using orset_at_good [OF _ assms(2,3), of "work e"] assms(1)
  by (auto simp: ed_load_at ed_good_def intro: own_le_subset)

lemma good_diff:
  assumes "good_set v a"
  shows "good_set v (orset_diff b a)" "orset_tags (orset_diff b a) \<subseteq> orset_tags a"
proof -
  have "sorted_wrt (<) (filter P (removes a))" for P
    using assms by (simp add: good_set_def orset_wf_def sorted_wrt_filter)
  moreover have "tags_printable (orset_diff b a)"
    using assms by (auto simp: good_set_def tags_printable_def orset_diff_def)
  ultimately show "good_set v (orset_diff b a)"
    using assms by (auto simp: good_set_def orset_diff_def orset_wf_def)
  show "orset_tags (orset_diff b a) \<subseteq> orset_tags a" by (auto simp: orset_tags_def orset_diff_def)
qed

lemma set_join_adds:
  "set (foldl (\<lambda>m kv. om_put (fst kv) (snd kv) m) m kvs) \<subseteq> set m \<union> set kvs"
proof (induction kvs arbitrary: m)
  case (Cons kv kvs)
  have "set (om_put k v m) \<subseteq> insert (k, v) (set m)" for k v
    by (induction k v m rule: om_put.induct) auto
  with Cons [of "om_put (fst kv) (snd kv) m"] show ?case by fastforce
qed simp

lemma good_join:
  assumes "good_set v a" "good_set v b"
  shows "good_set v (orset_join a b)" "orset_tags (orset_join a b) \<subseteq> orset_tags a \<union> orset_tags b"
proof -
  have s: "set (adds (orset_join a b)) \<subseteq> set (adds a) \<union> set (adds b)"
    using set_join_adds by (simp add: orset_join_def)
  then have "tags_printable (orset_join a b)"
    using assms removes_join [of a b] by (fastforce simp: good_set_def tags_printable_def)
  then show "good_set v (orset_join a b)" using assms s by (auto simp: good_set_def)
  show "orset_tags (orset_join a b) \<subseteq> orset_tags a \<union> orset_tags b"
    using s removes_join [of a b] by (auto simp: orset_tags_def)
qed

lemma put_joined_at:
  "edit_at (butlast p) (put_joined (last p) diff) n =
   edit_at (butlast p) (put_orset (last p)
     (if node_at (Some n) p = None then diff else orset_join (orset_at n p) diff)) n"
  if "p \<noteq> []"
proof -
  let ?put = "\<lambda>v. if v = None then diff else orset_join (orset_from_json v) diff"
  have "put_joined (last p) diff = (\<lambda>h. put_orset (last p) (?put (get (Some h) (c_str (last p)))) h)"
    by (simp add: put_joined_def Let_def fun_eq_iff)
  then show ?thesis
    using edit_at_dependent [of "butlast p" "last p" ?put n] append_butlast_last_id [OF that]
    by (simp add: orset_at_def)
qed

lemma wf_diff: "orset_wf a \<Longrightarrow> orset_wf (orset_diff b a)"
  by (simp add: orset_wf_def orset_diff_def sorted_wrt_filter)

lemma join_new: "orset_wf s \<Longrightarrow> orset_join orset_new s = s"
  by (rule orset_eqI) (auto simp: map_of_join_adds removes_join fun_eq_iff split: option.split, simp_all add: orset_new_def)

lemma join_assoc: "orset_wf a \<Longrightarrow> orset_wf b \<Longrightarrow> orset_wf c \<Longrightarrow> orset_join (orset_join a b) c = orset_join a (orset_join b c)"
  by (rule orset_eqI) (auto simp: map_of_join_adds removes_join fun_eq_iff wf_join split: option.split)

lemma join_diff:
  assumes "orset_wf b" "orset_wf a" "extends b a"
  shows "orset_join b (orset_diff b a) = a"
proof (rule orset_eqI)
  have "map_of (adds (orset_diff b a)) k = (if map_of (adds b) k = None then map_of (adds a) k else None)" for k
  proof -
    have "map_of (filter (\<lambda>kv. fst kv \<notin> fst ` set (adds b)) (adds a)) k =
        (if k \<notin> fst ` set (adds b) then map_of (adds a) k else None)"
      by (rule map_of_filter_key)
    moreover have "k \<notin> fst ` set (adds b) \<longleftrightarrow> map_of (adds b) k = None" by (metis map_of_eq_None_iff)
    ultimately show ?thesis by (simp add: orset_diff_def)
  qed
  then show "map_of (adds (orset_join b (orset_diff b a))) = map_of (adds a)"
    using assms by (auto simp: map_of_join_adds wf_diff fun_eq_iff extends_def map_le_def domIff split: option.split; metis domI option.distinct(1))
  show "set (removes (orset_join b (orset_diff b a))) = set (removes a)"
    using assms(3) by (auto simp: removes_join orset_diff_def extends_def)
qed (use assms in \<open>auto simp: wf_join wf_diff\<close>)

lemma store_good:
  assumes e: "ed_good i d e" and p: "kind_at KRoot p = Some (KSet v)" "plain p"
    and s: "good_set v after" "own_le i (issued e) (orset_tags after)" "extends (ed_load p e) after"
  shows "ed_good i d (ed_store p (ed_load p e) after e)"
proof (cases "ed_load p e = after")
  case False
  let ?b = "ed_load p e"
  let ?diff = "orset_diff ?b after"
  let ?s = "if node_at (Some (delta e)) p = None then ?diff else orset_join (orset_at (delta e) p) ?diff"
  let ?w = "edit_at (butlast p) (put_orset (last p) after) (work e)"
  let ?d = "edit_at (butlast p) (put_orset (last p) ?s) (delta e)"
  have "p \<noteq> []" using p(1) by auto
  have v: "valid_doc d" "valid_doc (work e)" "valid_doc (delta e)" using e by (auto simp: ed_good_def)
  have D: "good_set v (orset_at (delta e) p)" "orset_tags (orset_at (delta e) p) \<subseteq> tags_in (delta e)"
    using orset_at_good [OF v(3) p] by auto
  note diff = good_diff [OF s(1), of ?b]
  have g: "good_set v ?s" "orset_tags ?s \<subseteq> tags_in (delta e) \<union> orset_tags after"
    using diff good_join [OF D(1) diff(1)] D(2) by auto
  have w: "valid_doc ?w" "tags_in ?w \<subseteq> tags_in (work e) \<union> orset_tags after"
    using valid_doc_put [OF v(2) p s(1)] by auto
  have dl: "valid_doc ?d" "tags_in ?d \<subseteq> tags_in (delta e) \<union> orset_tags after"
    using valid_doc_put [OF v(3) p g(1)] g(2) by auto
  have "own_le i (issued e) (tags_in (work e) \<union> orset_tags after)"
    "own_le i (issued e) (tags_in (delta e) \<union> orset_tags after)"
    using e s(2) by (auto simp: ed_good_def)
  then have own: "own_le i (issued e) (tags_in ?w)" "own_le i (issued e) (tags_in ?d)"
    using own_le_subset w(2) dl(2) by blast+
  have "orset_join (orset_at d q) (orset_at ?d q) = orset_at ?w q"
    if q: "kind_at KRoot q = Some (KSet u)" "plain q" for q u
  proof (cases "q = p")
    case True
    have wf: "orset_wf (orset_at d p)" "orset_wf (orset_at (delta e) p)" "orset_wf ?diff" "orset_wf ?b" "orset_wf after"
      using orset_at_good [OF v(1) p] D(1) diff(1) load_good(1) [OF e p] s(1) by (auto simp: good_set_def)
    have "?s = orset_join (orset_at (delta e) p) ?diff"
      using join_new [OF wf(3)] by (auto simp: orset_at_def)
    then have "orset_join (orset_at d p) ?s = orset_join (orset_join (orset_at d p) (orset_at (delta e) p)) ?diff"
      by (simp only: join_assoc [OF wf(1-3)])
    also have "\<dots> = orset_join ?b ?diff"
      using e p by (simp add: ed_good_def tracks_def ed_load_at)
    also have "\<dots> = after" using wf(4,5) s(3) by (rule join_diff)
    finally show ?thesis
      using True orset_at_edit [OF v(3) p g(1) p] orset_at_edit [OF v(2) p s(1) p] by simp
  next
    case False
    then show ?thesis
      using e q orset_at_edit [OF v(3) p g(1) q] orset_at_edit [OF v(2) p s(1) q]
      by (simp add: ed_good_def tracks_def)
  qed
  then have "tracks d (ed_store p ?b after e)"
    using False put_joined_at [OF \<open>p \<noteq> []\<close>, of ?diff "delta e"] by (auto simp: tracks_def ed_store_def)
  with v(1) w(1) dl(1) own show ?thesis
    using False put_joined_at [OF \<open>p \<noteq> []\<close>, of ?diff "delta e"] by (simp add: ed_good_def ed_store_def)
qed (use e in \<open>simp add: ed_store_def\<close>)

lemma issued_store [simp]: "issued (ed_store p b a e) = issued e"
  by (simp add: ed_store_def)

lemma load_mint [simp]: "ed_load p (e\<lparr> issued := n \<rparr>) = ed_load p e"
  by (simp add: ed_load_def)

section \<open>Minting\<close>

lemma mint_good:
  assumes "ed_good i d e" "unat (issued e) + 1 \<le> mint_limit" "valid_id i = None"
    and m: "mint_tag i e = (t, e')"
  shows "ed_good i d e'" "unat (issued e') = unat (issued e) + 1" "own_le i (issued e') {t}"
    "t \<noteq> []" "nul_free t" "ed_load p e' = ed_load p e" "own_counter t i = Some (issued e')"
    "issued e \<le> issued e'"
proof -
  have t: "t = i @ ascii ''_'' @ to_string (unat (issued e + 1))" and e': "e' = e\<lparr> issued := issued e + 1 \<rparr>"
    using m by (auto simp: mint_tag_def Let_def)
  have "unat (issued e) + 1 < 2 ^ 64" using assms(2) by (simp add: mint_limit_def)
  then show u: "unat (issued e') = unat (issued e) + 1"
    unfolding e' by (simp add: unat_word_ariths)
  then show le: "issued e \<le> issued e'" by (simp add: word_le_nat_alt)
  have "unat (issued e + 1) \<le> mint_limit" using u assms(2) by (simp add: e')
  then show c: "own_counter t i = Some (issued e')"
    unfolding t e' by (simp add: own_counter_minted)
  then show "own_le i (issued e') {t}" by (simp add: own_le_def)
  show "ed_good i d e'"
    using assms(1) le own_le_mono by (auto simp: ed_good_def e' tracks_def)
  show "t \<noteq> []" by (simp add: t ascii_def)
  show "nul_free t" using id_nul_free [OF assms(3)] by (simp add: t to_string_nul_free nul_free_ascii)
  show "ed_load p e' = ed_load p e" by (simp add: e')
qed

end
