(* ===== verification/Observing.thy ===== *)
theory Observing
  imports Minting
begin

text \<open>
  What observing a state does to a replica: whatever the state holds, the document stays valid
  and no tag under the replica's id runs ahead of its counter. The states are bounded by the
  size of their canonical bytes, which the code reads as a 64-bit length, and by the nesting
  the decoder accepts.
\<close>

section \<open>The size of the canonical bytes\<close>

fun json_weight :: "json \<Rightarrow> nat" where
  "json_weight (JString s) = 11 + length s"
| "json_weight (JArray xs) = 11 + sum_list (map json_weight xs)"
| "json_weight (JObject ms) = 11 + sum_list (map (\<lambda>kv. 11 + length (fst kv) + json_weight (snd kv)) ms)"
| "json_weight _ = 11"

lemma put_uvarint_length: "unat n < 128 ^ Suc k \<Longrightarrow> length (put_uvarint n) \<le> Suc k"
proof (induction k arbitrary: n)
  case 0
  then have "unat (drop_bit 7 n) = 0" by (simp add: unat_drop_bit_7)
  then have "drop_bit 7 n = 0" by (simp add: unat_eq_zero)
  then show ?case by (simp add: put_uvarint.simps Let_def)
next
  case (Suc k)
  have "unat (drop_bit 7 n) < 128 ^ Suc k"
    using Suc.prems by (simp add: unat_drop_bit_7 less_mult_imp_div_less)
  then show ?case using Suc.IH [of "drop_bit 7 n"] by (simp add: put_uvarint.simps [of n] Let_def)
qed

lemma put_uvarint_10: "length (put_uvarint n) \<le> 10"
proof -
  have "unat n < 2 ^ 64" using unsigned_less [of n, where ?'a = nat] by simp
  then have "unat n < 128 ^ Suc 9" by simp
  then show ?thesis using put_uvarint_length [of n 9] by simp
qed

lemma put_size_10: "length (put_size n) \<le> 10"
  by (simp add: put_size_def put_uvarint_10)

lemma str_bytes_weight: "length (str_bytes s) \<le> 11 + length s"
  using put_size_10 [of "length s"] by (simp add: str_bytes_def)

lemma encode_weight: "encode v = Inr b \<Longrightarrow> length b \<le> json_weight v"
proof (induction v arbitrary: b)
  case (JNumber x)
  then have "encode_number x = Inr b" by simp
  then show ?case
    by (rule encode_number_cases) (simp_all add: encode_int_def put_uvarint_10)
next
  case (JString s)
  then show ?case using str_bytes_weight by (auto simp: encode_str_def split: if_splits)
next
  case (JArray xs)
  then obtain bs where b: "encode_items xs = Inr bs" "b = encode_seq bs"
    by (auto split: sum.splits)
  then have e: "\<forall>x \<in> set xs. encode x = Inr (enc x)" "bs = map enc xs" by (simp_all add: encode_items_Inr)
  then have "sum_list (map (length \<circ> enc) xs) \<le> sum_list (map json_weight xs)"
    using JArray.IH by (intro sum_list_mono) auto
  then show ?case
    using b(2) e(2) put_size_10 [of "length xs"] by (simp add: encode_seq_def length_concat)
next
  case (JObject ms)
  let ?f = "\<lambda>kv. str_bytes (fst kv) @ enc (snd kv)"
  let ?sm = "sort_key (\<lambda>kv. str_bytes (fst kv)) ms"
  note E = encode_JObject_Inr [OF JObject.prems]
  have "length (?f kv) \<le> 11 + length (fst kv) + json_weight (snd kv)" if kv: "kv \<in> set ms" for kv
  proof -
    have "length (enc (snd kv)) \<le> json_weight (snd kv)"
      using kv E(1) by (intro JObject.IH [of kv "snd kv"]) (cases kv, auto simp: snds.simps)
    then show ?thesis using str_bytes_weight [of "fst kv"] by simp
  qed
  then have "sum_list (map (\<lambda>kv. length (?f kv)) ms) \<le>
      sum_list (map (\<lambda>kv. 11 + length (fst kv) + json_weight (snd kv)) ms)"
    by (intro sum_list_mono) auto
  moreover have "sum_list (map (\<lambda>kv. length (?f kv)) ?sm) = sum_list (map (\<lambda>kv. length (?f kv)) ms)"
  proof -
    have "mset (map (\<lambda>kv. length (?f kv)) ?sm) = mset (map (\<lambda>kv. length (?f kv)) ms)" by simp
    then have "sum_mset (mset (map (\<lambda>kv. length (?f kv)) ?sm)) = sum_mset (mset (map (\<lambda>kv. length (?f kv)) ms))"
      by (rule arg_cong)
    then show ?thesis unfolding sum_mset_sum_list .
  qed
  ultimately show ?case
    using put_size_10 [of "length ms"] unfolding E(3)
    by (simp add: map_bytes_def length_concat o_def)
qed auto

section \<open>Values that can be stored\<close>

definition storable :: "json \<Rightarrow> bool" where
  "storable v \<longleftrightarrow> json_wf v \<and> json_depth v \<le> kMaxDepth \<and> json_weight v < 2 ^ 64"

lemma encode_canonical:
  assumes "encode v = Inr b" "storable v"
  shows "is_canonical b"
proof -
  have "length b < 2 ^ 64" using encode_weight [OF assms(1)] assms(2) by (simp add: storable_def)
  then have "decode b = Some (canon_json v)"
    using decode_encode_at [OF assms(1), of "kMaxDepth + 1" "[]"] assms(2)
    by (simp add: decode_def storable_def)
  then show ?thesis using encode_canon_json [OF assms(1)] by (simp add: is_canonical_def)
qed

lemma storable_member:
  assumes "storable (JObject ms)" "(k, v) \<in> set ms"
  shows "storable v" "nul_free k"
proof -
  have "11 + length k + json_weight v \<le>
      sum_list (map (\<lambda>kv. 11 + length (fst kv) + json_weight (snd kv)) ms)"
    using member_le_sum_list [of "11 + length k + json_weight v"
        "map (\<lambda>kv. 11 + length (fst kv) + json_weight (snd kv)) ms"] assms(2) by force
  moreover have "Suc (json_depth v) \<le> kMaxDepth"
    using assms by (fastforce simp: storable_def json_depth_JObject_le simp del: json_depth.simps)
  ultimately show "storable v" "nul_free k"
    using assms by (auto simp: storable_def simp del: json_depth.simps)
qed

lemma storable_item:
  assumes "storable (JArray xs)" "v \<in> set xs"
  shows "storable v"
proof -
  have "json_weight v \<le> sum_list (map json_weight xs)"
    using assms(2) by (intro member_le_sum_list) auto
  moreover have "Suc (json_depth v) \<le> kMaxDepth"
    using assms by (auto simp: storable_def json_depth_JArray_le simp del: json_depth.simps)
  ultimately show ?thesis using assms by (auto simp: storable_def simp del: json_depth.simps)
qed

definition storable_opt :: "json option \<Rightarrow> bool" where
  "storable_opt v \<longleftrightarrow> (\<forall>j. v = Some j \<longrightarrow> storable j)"

lemma storable_members:
  assumes "storable_opt v" "(k, w) \<in> set (members v)"
  shows "storable w" "nul_free k"
proof -
  obtain ms where "v = Some (JObject ms)" "(k, w) \<in> set ms"
    using assms(2) by (cases v rule: members.cases) simp_all
  then show "storable w" "nul_free k"
    using assms(1) storable_member [of ms k w] by (simp_all add: storable_opt_def)
qed

lemma storable_get [simp]: "storable_opt v \<Longrightarrow> storable_opt (get v k)"
proof -
  assume v: "storable_opt v"
  have "storable w" if "get v k = Some w" for w
    using storable_members(1) [OF v] map_of_SomeD [of "members v" k w] that unfolding get_def by blast
  then show ?thesis by (simp add: storable_opt_def)
qed

lemma storable_children: "storable_opt v \<Longrightarrow> w \<in> set (children v) \<Longrightarrow> storable w"
proof (cases v rule: children.cases)
  case (2 ms)
  assume "storable_opt v" "w \<in> set (children v)"
  then have "w \<in> snd ` set ms" "storable (JObject ms)" using 2 by (simp_all add: storable_opt_def)
  then obtain k where "(k, w) \<in> set ms" by force
  from storable_member(1) [OF \<open>storable (JObject ms)\<close> this] show ?thesis .
next
  case (1 xs)
  assume "storable_opt v" "w \<in> set (children v)"
  then show ?thesis using 1 storable_item [of xs w] by (simp add: storable_opt_def)
qed simp_all

lemma encode_opt_canonical: "encode_opt v = Inr b \<Longrightarrow> storable_opt v \<Longrightarrow> is_canonical b"
proof (cases v)
  case None
  assume "encode_opt v = Inr b"
  then have "encode JNull = Inr b" using None by (simp add: encode_opt_def)
  then show ?thesis by (rule encode_canonical) (simp add: storable_def)
qed (auto simp: encode_opt_def storable_opt_def intro: encode_canonical)

section \<open>The tags below a node\<close>

lemma tags_printable_in: "json_wf n \<Longrightarrow> t \<in> tags_in n \<Longrightarrow> t \<noteq> [] \<and> nul_free t"
proof (induction n rule: tags_in.induct)
  case (1 n)
  show ?case
  proof (cases "is_orset (Some n)")
    case True
    with "1.prems" from_json_printable [of n] show ?thesis
      by (auto simp: tags_in_orset tags_printable_def orset_tags_def)
  next
    case False
    then obtain kv where kv: "kv \<in> set (members (Some n))" "t \<in> tags_in (snd kv)"
      using "1.prems"(2) by (auto simp: tags_in_object)
    have "json_wf (snd kv)" using kv(1) "1.prems"(1) by (cases n) auto
    from "1.IH" [OF False kv(1) this kv(2)] show ?thesis .
  qed
qed

lemma collect_live_tags_in: "set (collect_live_tags (Some n) b out) \<subseteq> set out \<union> tags_in n"
proof (induction n arbitrary: b out rule: tags_in.induct)
  case (1 n)
  show ?case
  proof (cases "is_orset (Some n)")
    case True
    have "fst ` set (live_adds (orset_from_json (Some n))) \<subseteq> tags_in n"
      using True by (force simp: tags_in_orset orset_tags_def set_live_adds dest: map_of_SomeD)
    then show ?thesis using True by (auto simp: collect_live_tags.simps [of "Some n"])
  next
    case False
    let ?f = "\<lambda>out kv. if b \<and> fst kv = ascii ''present'' then out else collect_live_tags (Some (snd kv)) False out"
    have "set (foldl ?f out kvs) \<subseteq> set out \<union> (\<Union>kv \<in> set kvs. tags_in (snd kv))"
      if "set kvs \<subseteq> set (members (Some n))" for out kvs
      using that
    proof (induction kvs arbitrary: out)
      case (Cons kv kvs)
      have "set (?f out kv) \<subseteq> set out \<union> tags_in (snd kv)"
        using "1.IH" [OF False, of kv False out] Cons.prems by auto
      moreover have "set (foldl ?f (?f out kv) kvs) \<subseteq> set (?f out kv) \<union> (\<Union>kv \<in> set kvs. tags_in (snd kv))"
        using Cons.prems by (intro Cons.IH) simp
      ultimately show ?case by (simp only: foldl_Cons list.set UN_insert) blast
    qed simp
    from this [of "members (Some n)" out] show ?thesis
      using False by (simp add: collect_live_tags.simps [of "Some n"] tags_in_object)
  qed
qed

section \<open>The edits of one set\<close>

definition set_path :: "held \<Rightarrow> path \<Rightarrow> bool" where
  "set_path v p \<longleftrightarrow> kind_at KRoot p = Some (KSet v) \<and> plain p"

definition base_ok :: "kind \<Rightarrow> path \<Rightarrow> bool" where
  "base_ok K p \<longleftrightarrow> kind_at KRoot p = Some K \<and> plain p"

lemma base_ok_child: "base_ok K p \<Longrightarrow> child K k = Some K' \<Longrightarrow> nul_free k \<Longrightarrow> base_ok K' (p @ [k])"
  by (simp add: base_ok_def kind_at_append)

lemma set_path_child: "base_ok K p \<Longrightarrow> child K k = Some (KSet v) \<Longrightarrow> nul_free k \<Longrightarrow> set_path v (p @ [k])"
  using base_ok_child [of K p k "KSet v"] by (simp add: base_ok_def set_path_def)

lemma ed_load_good:
  assumes "ed_good i d e" "set_path v p"
  shows "good_set v (ed_load p e)" "own_le i (issued e) (orset_tags (ed_load p e))"
  using load_good [OF assms(1), of p v] assms(2) by (auto simp: set_path_def)

lemma runs_store:
  assumes "ed_good i d e" "set_path v p" "good_set v after" "own_le i (issued e) (orset_tags after)"
    "extends (ed_load p e) after"
  shows "ed_good i d (ed_store p (ed_load p e) after e)"
  using store_good [OF assms(1) _ _ assms(3-5)] assms(2) by (simp add: set_path_def)

lemma extends_refl [simp]: "extends s s"
  by (simp add: extends_def)

lemma extends_trans: "extends a b \<Longrightarrow> extends b c \<Longrightarrow> extends a c"
  by (auto simp: extends_def intro: map_le_trans)

lemma extends_retire:
  "extends s (remove_all s)" "extends s (remove_value b s)"
  "extends a s \<Longrightarrow> extends a (s\<lparr> removes := os_union (removes s) seen \<rparr>)"
  by (auto simp: extends_def remove_all_def remove_value_def set_os_union)

lemma extends_add: "orset_wf s \<Longrightarrow> t \<notin> orset_tags s \<Longrightarrow> extends s (orset_add t b s)"
  by (force simp: extends_def map_le_def map_of_add removes_add orset_tags_def dest: map_of_SomeD)

text \<open>A change that mints one tag for the set at \<open>p\<close>.\<close>

lemma minted_store:
  assumes e: "ed_good i d e" "unat (issued e) + 1 \<le> mint_limit" "valid_id i = None" "set_path v p"
    and m: "mint_tag i e = (t, e')" and b: "value_ok v b"
    and a: "good_set v s" "orset_tags s = orset_tags (ed_load p e)" "extends (ed_load p e) s"
  shows "ed_good i d (ed_store p (ed_load p e) (orset_add t b s) e')"
    "unat (issued (ed_store p (ed_load p e) (orset_add t b s) e')) = unat (issued e) + 1"
proof -
  note g = mint_good [OF e(1-3) m]
  have "own_le i (issued e') (orset_tags (ed_load p e))"
    using ed_load_good(2) [OF e(1,4)] g(8) by (rule own_le_mono)
  then have o: "own_le i (issued e') (orset_tags (orset_add t b s))"
    using own_le_insert [OF g(3)] by (simp add: a(2) orset_tags_ops)
  have "issued e < issued e'" using g(2) by (simp add: word_less_nat_alt)
  then have "t \<notin> orset_tags s"
    using own_le_fresh [OF ed_load_good(2) [OF e(1,4)] g(7)] a(2) by simp
  then have x: "extends (ed_load p e) (orset_add t b s)"
    using a(1,3) by (auto simp: good_set_def intro: extends_trans extends_add)
  have l: "ed_load p e' = ed_load p e" using m by (auto simp: mint_tag_def Let_def)
  show "ed_good i d (ed_store p (ed_load p e) (orset_add t b s) e')"
    using runs_store [OF g(1) e(4) good_set_add [OF a(1) b g(4,5)] o] x by (simp add: l)
  show "unat (issued (ed_store p (ed_load p e) (orset_add t b s) e')) = unat (issued e) + 1" using g(2) by simp
qed

lemma runs_write:
  assumes "valid_id i = None" "set_path v p" "value_ok v b"
  shows "runs i d 1 (\<lambda>e. (None, ed_write i p b e))"
  unfolding runs_def
proof (intro allI impI)
  fix e assume e: "ed_good i d e" "unat (issued e) + 1 \<le> mint_limit"
  obtain t e' where m: "mint_tag i e = (t, e')" by (cases "mint_tag i e")
  let ?b = "ed_load p e"
  have "ed_write i p b e = ed_store p ?b (orset_add t b (remove_all ?b)) e'"
    by (simp add: ed_write_def m Let_def reg_write_def)
  moreover have "good_set v (remove_all ?b)" using ed_load_good(1) [OF e(1) assms(2)] by auto
  ultimately show "ed_good i d (snd (None, ed_write i p b e)) \<and> unat (issued e) \<le> unat (issued (snd (None, ed_write i p b e))) \<and>
      unat (issued (snd (None, ed_write i p b e))) \<le> unat (issued e) + 1"
    using minted_store [OF e assms(1,2) m assms(3), of "remove_all ?b"]
    by (simp add: orset_tags_ops extends_retire)
qed

lemma runs_keep: "(\<And>e. ed_good i d e \<Longrightarrow> ed_good i d (f e) \<and> issued (f e) = issued e) \<Longrightarrow> runs i d 0 (\<lambda>e. (None, f e))"
  by (simp add: runs_def)

lemma runs_clear:
  assumes "set_path v p"
  shows "runs i d 0 (\<lambda>e. (None, ed_store p (ed_load p e) (remove_all (ed_load p e)) e))"
  by (rule runs_keep) (auto simp: ed_load_good [OF _ assms] orset_tags_ops extends_retire intro!: runs_store [OF _ assms])

lemma runs_register:
  assumes "valid_id i = None" "set_path v p" "\<And>b. new = Some b \<Longrightarrow> value_ok v b"
  shows "runs i d (if new = None then 0 else 1) (sync_register i policy p field new)"
proof (cases new)
  case None
  have "runs i d 0 (\<lambda>e. (None, ed_store p (ed_load p e) (remove_all (ed_load p e)) e))"
    using assms(2) by (rule runs_clear)
  then show ?thesis
    using None by (auto simp: runs_def sync_register_def Let_def)
next
  case (Some b)
  then have "runs i d 1 (\<lambda>e. (None, ed_write i p b e))" using assms by (intro runs_write) auto
  then show ?thesis
    using Some by (auto simp: runs_def sync_register_def Let_def)
qed

lemma runs_make_present:
  assumes "valid_id i = None" "set_path AnyBytes (p @ [ascii ''present''])"
  shows "runs i d 1 (make_present i p b)"
  unfolding runs_def
proof (intro allI impI)
  fix e assume e: "ed_good i d e" "unat (issued e) + 1 \<le> mint_limit"
  let ?p = "p @ [ascii ''present'']"
  let ?b = "ed_load ?p e"
  obtain t e' where m: "mint_tag i e = (t, e')" by (cases "mint_tag i e")
  have "ed_good i d (ed_store ?p ?b (orset_add t b ?b) e')"
    "unat (issued (ed_store ?p ?b (orset_add t b ?b) e')) = unat (issued e) + 1"
    using minted_store [OF e assms m, of b ?b] ed_load_good(1) [OF e(1) assms(2)] by auto
  then show "ed_good i d (snd (make_present i p b e)) \<and> unat (issued e) \<le> unat (issued (snd (make_present i p b e))) \<and>
      unat (issued (snd (make_present i p b e))) \<le> unat (issued e) + 1"
    using e by (simp add: make_present_def Let_def m)
qed

lemma orset_tags_seen: "orset_tags (s\<lparr> removes := os_union (removes s) seen \<rparr>) = orset_tags s \<union> set seen"
  by (auto simp: orset_tags_def set_os_union)

lemma runs_remove:
  assumes "base_ok K p" "set_path v (p @ [ascii ''present''])"
  shows "runs i d 0 (ed_remove p dead)"
  unfolding ed_remove_def Let_def
proof (rule runs_keep)
  fix e assume e: "ed_good i d e"
  let ?n = "node_at (Some (work e)) p"
  let ?p = "p @ [ascii ''present'']"
  let ?b = "ed_load ?p e"
  let ?seen = "collect_live_tags ?n True []"
  let ?after = "remove_all ?b\<lparr> removes := os_union (removes (remove_all ?b)) ?seen \<rparr>"
  have "ed_good i d (ed_store ?p ?b ?after e)" if n: "?n = Some n" for n
  proof -
    have w: "conforms KRoot (work e)" "json_wf (work e)" using e by (auto simp: ed_good_def valid_doc_iff)
    have k: "conforms K n" "json_wf n"
      using node_at_kind [OF w _ _ n] assms(1) by (auto simp: base_ok_def)
    have seen: "set ?seen \<subseteq> tags_in n" using collect_live_tags_in [of n True "[]"] n by simp
    then have "\<forall>t \<in> set ?seen. t \<noteq> [] \<and> nul_free t" using tags_printable_in [OF k(2)] by blast
    moreover have r: "good_set v (remove_all ?b)" using ed_load_good(1) [OF e assms(2)] by auto
    ultimately have "good_set v ?after"
      by (auto simp: good_set_def orset_wf_def tags_printable_def set_os_union)
    moreover have "tags_in n \<subseteq> tags_in (work e)"
      using tags_in_node_at [OF w(1) _ _ n] assms(1) by (auto simp: base_ok_def)
    then have "own_le i (issued e) (set ?seen)"
      using e seen by (auto simp: ed_good_def intro: own_le_subset)
    then have "own_le i (issued e) (orset_tags ?after)"
      using ed_load_good(2) [OF e assms(2)] by (simp add: orset_tags_seen orset_tags_ops)
    ultimately show ?thesis
      using e assms(2) extends_retire(1) [of ?b] by (intro runs_store extends_retire(3))
  qed
  then show "ed_good i d (if ?n = None then e else if orset_values ?b = [] \<and> \<not> dead then e else ed_store ?p ?b ?after e) \<and>
      issued (if ?n = None then e else if orset_values ?b = [] \<and> \<not> dead then e else ed_store ?p ?b ?after e) = issued e"
    using e by auto
qed

lemma orset_tags_foldl_remove: "orset_tags (foldl (\<lambda>s v. if P v then s else remove_value v s) s vs) \<subseteq> orset_tags s"
  using orset_tags_ops(3) by (induction vs arbitrary: s) (auto, blast)

lemma extends_foldl_remove: "extends a s \<Longrightarrow> extends a (foldl (\<lambda>s v. if P v then s else remove_value v s) s vs)"
  using extends_trans [OF _ extends_retire(2)] by (induction vs arbitrary: s) auto

lemma good_foldl_remove: "good_set v s \<Longrightarrow> good_set v (foldl (\<lambda>s v. if P v then s else remove_value v s) s vs)"
  by (induction vs arbitrary: s) auto

lemma add_wanted_simps:
  "b \<in> set have \<Longrightarrow> add_wanted i have (s, e) b = (s, e)"
  "b \<notin> set have \<Longrightarrow> mint_tag i e = (t, e1) \<Longrightarrow> add_wanted i have (s, e) b = (orset_add t b s, e1)"
  by (simp_all add: add_wanted_def)

lemma add_wanted_good:
  assumes "valid_id i = None"
  shows "ed_good i d e \<Longrightarrow> good_set v s \<Longrightarrow> own_le i (issued e) (orset_tags s) \<Longrightarrow> extends (ed_load p e) s \<Longrightarrow>
    unat (issued e) + length want \<le> mint_limit \<Longrightarrow> \<forall>b \<in> set want. value_ok v b \<Longrightarrow>
    foldl (add_wanted i have) (s, e) want = (s', e') \<Longrightarrow>
    ed_good i d e' \<and> good_set v s' \<and> own_le i (issued e') (orset_tags s') \<and>
    extends (ed_load p e) s' \<and> ed_load p e' = ed_load p e \<and>
    unat (issued e) \<le> unat (issued e') \<and> unat (issued e') \<le> unat (issued e) + length want"
proof (induction want arbitrary: s e)
  case (Cons b want)
  show ?case
  proof (cases "b \<in> set have")
    case True
    then have "foldl (add_wanted i have) (s, e) want = (s', e')" using Cons.prems(7) by (simp add: add_wanted_simps)
    from Cons.IH [OF Cons.prems(1-4) _ _ this] Cons.prems(5,6) show ?thesis by simp
  next
    case False
    obtain t e1 where m: "mint_tag i e = (t, e1)" by (cases "mint_tag i e")
    have room: "unat (issued e) + 1 \<le> mint_limit" using Cons.prems(5) by simp
    note g = mint_good [OF Cons.prems(1) room assms m]
    have s1: "good_set v (orset_add t b s)" using Cons.prems(2,6) g(4,5) by (intro good_set_add) auto
    have o1: "own_le i (issued e1) (orset_tags (orset_add t b s))"
      using own_le_insert [OF g(3) own_le_mono [OF Cons.prems(3) g(8)]] by (simp add: orset_tags_ops)
    have l: "ed_load p e1 = ed_load p e" using m by (auto simp: mint_tag_def Let_def)
    have "issued e < issued e1" using g(2) by (simp add: word_less_nat_alt)
    then have "t \<notin> orset_tags s" using own_le_fresh [OF Cons.prems(3) g(7)] by simp
    then have x1: "extends (ed_load p e1) (orset_add t b s)"
      using Cons.prems(2,4) unfolding l by (auto simp: good_set_def intro: extends_trans extends_add)
    have "foldl (add_wanted i have) (orset_add t b s, e1) want = (s', e')"
      using Cons.prems(7) by (simp add: add_wanted_simps(2) [OF False m])
    from Cons.IH [OF g(1) s1 o1 x1 _ _ this] Cons.prems(5,6) g(2) l show ?thesis by simp
  qed
qed simp

lemma runs_sync_set:
  assumes "valid_id i = None" "set_path v p" "\<forall>b \<in> set want. value_ok v b"
  shows "runs i d (length want) (sync_set i p want)"
  unfolding runs_def
proof (intro allI impI)
  fix e assume e: "ed_good i d e" "unat (issued e) + length want \<le> mint_limit"
  let ?b = "ed_load p e"
  let ?have = "orset_values ?b"
  obtain s' e' where f: "foldl (add_wanted i ?have) (?b, e) want = (s', e')"
    by (cases "foldl (add_wanted i ?have) (?b, e) want")
  let ?a = "foldl (\<lambda>s v. if v \<in> set want then s else remove_value v s) s' ?have"
  have g: "ed_good i d e'" "good_set v s'" "own_le i (issued e') (orset_tags s')"
    "extends ?b s'" "ed_load p e' = ?b" "unat (issued e) \<le> unat (issued e')" "unat (issued e') \<le> unat (issued e) + length want"
    using add_wanted_good [OF assms(1) e(1) ed_load_good [OF e(1) assms(2)] extends_refl e(2) assms(3) f] by auto
  have "own_le i (issued e') (orset_tags ?a)"
    using g(3) orset_tags_foldl_remove by (rule own_le_subset)
  then have "ed_good i d (ed_store p ?b ?a e')"
    using runs_store [OF g(1) assms(2) good_foldl_remove [OF g(2)] _ extends_foldl_remove] g(4,5) by simp
  then show "ed_good i d (snd (sync_set i p want e)) \<and> unat (issued e) \<le> unat (issued (snd (sync_set i p want e))) \<and>
      unat (issued (snd (sync_set i p want e))) \<le> unat (issued e) + length want"
    using g(6,7) by (simp add: sync_set_def Let_def f)
qed

section \<open>The fields of a rune or a mantle\<close>

text \<open>A set of named registers: any name the grammar allows holds canonical values.\<close>

definition field_kind :: "kind \<Rightarrow> bool" where
  "field_kind F \<longleftrightarrow> F = KMantleFields \<or> F = KRuneFields"

lemma field_kind_child: "field_kind F \<Longrightarrow> child F k = Some K \<Longrightarrow> K = KSet CanonicalValue"
  by (auto simp: field_kind_def split: if_splits)

lemma runs_each_free: "(\<And>x. x \<in> set xs \<Longrightarrow> runs i d 0 (f x)) \<Longrightarrow> runs i d 0 (ed_each f xs)"
  using runs_each [of xs i d "\<lambda>_. 0" f] by simp

lemma runs_each_const: "(\<And>x. x \<in> set xs \<Longrightarrow> runs i d c (f x)) \<Longrightarrow> runs i d (c * length xs) (ed_each f xs)"
  using runs_each [of xs i d "\<lambda>_. c" f] by (simp add: sum_list_triv mult.commute)

lemma runs_each_one: "(\<And>x. x \<in> set xs \<Longrightarrow> runs i d 1 (f x)) \<Longrightarrow> runs i d (length xs) (ed_each f xs)"
  using runs_each [of xs i d "\<lambda>_. 1" f] by (simp add: sum_list_triv)

lemma runs_each_read:
  assumes "\<And>e x. ed_good i d e \<Longrightarrow> x \<in> set (xs e) \<Longrightarrow> runs i d 0 (f x)"
  shows "runs i d 0 (\<lambda>e. ed_each f (xs e) e)"
  unfolding runs_def
proof (intro allI impI)
  fix e assume e: "ed_good i d e" "unat (issued e) + 0 \<le> mint_limit"
  have "runs i d 0 (ed_each f (xs e))" using assms e(1) by (intro runs_each_free)
  from runsD [OF this e]
  show "ed_good i d (snd (ed_each f (xs e) e)) \<and> unat (issued e) \<le> unat (issued (snd (ed_each f (xs e) e))) \<and>
      unat (issued (snd (ed_each f (xs e) e))) \<le> unat (issued e) + 0"
    by simp
qed

lemma runs_fixed_field:
  assumes "valid_id i = None" "base_ok F fs" "child F name = Some (KSet CanonicalValue)" "nul_free name"
    "storable_opt v"
  shows "runs i d 1 (fixed_field i policy fs name v)"
  unfolding fixed_field_def
proof (rule runs_canon)
  fix b assume "encode_opt v = Inr b"
  then have "is_canonical b" using assms(5) by (rule encode_opt_canonical)
  then show "runs i d 1 (sync_register i policy (fs @ [name]) name (Some b))"
    using runs_register [OF assms(1) set_path_child [OF assms(2-4)], of "Some b"] by simp
qed

lemma runs_no_field:
  assumes "valid_id i = None" "base_ok F fs" "child F name = Some (KSet v)" "nul_free name"
  shows "runs i d 0 (sync_register i policy (fs @ [name]) name None)"
  using runs_register [OF assms(1) set_path_child [OF assms(2-4)], of None] by simp

lemma runs_optional_field:
  assumes "valid_id i = None" "base_ok F fs" "child F name = Some (KSet CanonicalValue)" "nul_free name"
    "storable_opt v"
  shows "runs i d 1 (optional_field i policy fs name v)"
proof (cases "unless_empty_array v")
  case True
  then show ?thesis
    using runs_fixed_field [OF assms] by (simp add: optional_field_def fixed_field_def)
next
  case False
  then show ?thesis
    using runs_weaken [OF runs_no_field [OF assms(1-4)], of 1] by (simp add: optional_field_def)
qed

lemma shown_with_prefix_ok:
  assumes "ed_good i d e" "base_ok F fs" "field_kind F" "k \<in> set (shown_with_prefix fs prefix e)"
  shows "child F k = Some (KSet CanonicalValue)" "nul_free k"
proof -
  have w: "conforms KRoot (work e)" "json_wf (work e)" using assms(1) by (auto simp: ed_good_def valid_doc_iff)
  obtain v n where kv: "node_at (Some (work e)) fs = Some n" "(k, v) \<in> set (members (Some n))"
    using assms(4) by (cases "node_at (Some (work e)) fs") (auto simp: shown_with_prefix_def)
  have n: "conforms F n" "json_wf n" using node_at_kind [OF w _ _ kv(1)] assms(2) by (auto simp: base_ok_def)
  have "is_object_kind F" using assms(3) by (auto simp: field_kind_def)
  then obtain K where K: "child F k = Some K" using n(1) kv(2) by (auto simp: conforms_object)
  then show "child F k = Some (KSet CanonicalValue)" using field_kind_child [OF assms(3)] by blast
  show "nul_free k" using n(2) kv(2) by (cases n) auto
qed

lemma runs_keyed_fields:
  assumes "valid_id i = None" "base_ok F fs" "field_kind F" "nul_free prefix"
    and c: "\<And>k. k \<noteq> [] \<Longrightarrow> child F (prefix @ k) = Some (KSet CanonicalValue)" and v: "storable_opt object"
  shows "runs i d (length (members object)) (keyed_fields i policy fs prefix object)"
proof -
  let ?cs = "filter (\<lambda>c. fst c \<noteq> []) (members object)"
  let ?one = "\<lambda>c. ed_canon (encode (snd c)) (\<lambda>b. sync_register i policy (fs @ [prefix @ fst c]) (prefix @ fst c) (Some b))"
  have "runs i d 1 (?one kv)" if "kv \<in> set ?cs" for kv
  proof -
    have kv: "fst kv \<noteq> []" "storable (snd kv)" "nul_free (fst kv)"
      using that storable_members [OF v, of "fst kv" "snd kv"] by auto
    have "fixed_field i policy fs (prefix @ fst kv) (Some (snd kv)) = ?one kv"
      by (simp add: fixed_field_def encode_opt_def)
    then show ?thesis
      using runs_fixed_field [OF assms(1,2) c [OF kv(1)], of "Some (snd kv)" d policy] kv assms(4)
      by (simp add: storable_opt_def)
  qed
  then have "runs i d (length ?cs) (ed_each ?one ?cs)" by (rule runs_each_one)
  moreover have "runs i d 0 (\<lambda>e. ed_each (\<lambda>name. if name \<in> set (map (\<lambda>c. prefix @ fst c) ?cs) then ed_ok
      else sync_register i policy (fs @ [name]) name None) (shown_with_prefix fs prefix e) e)"
  proof (rule runs_each_read)
    fix e name assume e: "ed_good i d e" "name \<in> set (shown_with_prefix fs prefix e)"
    show "runs i d 0 (if name \<in> set (map (\<lambda>c. prefix @ fst c) ?cs) then ed_ok
      else sync_register i policy (fs @ [name]) name None)"
      using runs_no_field [OF assms(1,2) shown_with_prefix_ok [OF e(1) assms(2,3) e(2)]] runs_ok by simp
  qed
  ultimately have "runs i d (length ?cs + 0) (keyed_fields i policy fs prefix object)"
    unfolding keyed_fields_def Let_def by (rule runs_then)
  then show ?thesis by (rule runs_weaken) simp
qed

section \<open>Runes and mantles\<close>

lemma length_os_of: "length (os_of xs) \<le> length xs"
proof -
  have "distinct (os_of xs)" using sorted_os_of [of xs] by (simp add: strict_sorted_iff)
  then have "length (os_of xs) = card (set (os_of xs))" by (simp only: distinct_card)
  then show ?thesis by (simp add: card_length)
qed

lemma canon_set_ok:
  assumes "canon_set items = Inr bs" "\<And>x. x \<in> set items \<Longrightarrow> storable x"
  shows "length bs \<le> length items" "\<forall>b \<in> set bs. is_canonical b"
proof -
  obtain ys where ys: "cmap encode items = Inr ys" "bs = os_of ys"
    using assms(1) by (auto simp: canon_set_def cbind_Inr)
  then have l: "list_all2 (\<lambda>x y. encode x = Inr y) items ys" by (simp add: cmap_Inr)
  then show "length bs \<le> length items"
    using length_os_of [of ys] ys(2) by (simp add: list_all2_lengthD)
  have "is_canonical b" if "b \<in> set ys" for b
  proof -
    from that obtain k where k: "k < length ys" "ys ! k = b" unfolding in_set_conv_nth by blast
    then have "encode (items ! k) = Inr b" "items ! k \<in> set items"
      using list_all2_nthD2 [OF l, of k] l by (auto simp: list_all2_lengthD)
    then show ?thesis using assms(2) by (intro encode_canonical)
  qed
  then show "\<forall>b \<in> set bs. is_canonical b" by (simp add: ys(2))
qed

lemma runs_canon_set:
  assumes "valid_id i = None" "set_path CanonicalValue p" "storable_opt v"
  shows "runs i d (length (children v)) (ed_canon (canon_set (children v)) (\<lambda>want. sync_set i p want))"
proof (rule runs_canon)
  fix want assume w: "canon_set (children v) = Inr want"
  note c = canon_set_ok [OF w storable_children [OF assms(3)]]
  have "runs i d (length want) (sync_set i p want)"
    using assms(1,2) c(2) by (intro runs_sync_set) auto
  then show "runs i d (length (children v)) (sync_set i p want)" using c(1) by (rule runs_weaken)
qed

lemma field_names:
  "rune_field_allowed (ascii ''spirit.name'')" "rune_field_allowed (ascii ''glyph'')"
  "rune_field_allowed (ascii ''placement'')" "rune_field_allowed (ascii ''relations'')"
  "mantle_field_allowed (ascii ''id'')" "mantle_field_allowed (ascii ''domain'')"
  "mantle_field_allowed (ascii ''rules'')"
  by code_simp+

lemma facet_names: "k \<in> set kFacets \<Longrightarrow> rune_field_allowed (ascii ''facets.'' @ ascii k)"
proof -
  have "list_all (\<lambda>k. rune_field_allowed (ascii ''facets.'' @ ascii k)) kFacets" by code_simp
  then show "k \<in> set kFacets \<Longrightarrow> rune_field_allowed (ascii ''facets.'' @ ascii k)" by (simp add: list_all_iff)
qed

lemma facet_nul_free: "k \<in> set kFacets \<Longrightarrow> nul_free (ascii ''facets.'' @ ascii k)"
  by (auto simp: kFacets_def nul_free_ascii)

lemma content_names: "k \<noteq> [] \<Longrightarrow> rune_field_allowed (ascii ''content.'' @ k)"
proof -
  have l: "length (ascii ''content.'') = 8" and d: "ascii ''content.'' = 0x63 # ascii ''ontent.''"
    "ascii ''facets.'' = 0x66 # ascii ''acets.''" by code_simp+
  have "\<not> has_prefix (ascii ''facets.'') (ascii ''content.'' @ k)" by (simp add: has_prefix_def d)
  then show "k \<noteq> [] \<Longrightarrow> rune_field_allowed (ascii ''content.'' @ k)"
    using l by (simp add: rune_field_allowed_def has_prefix_def)
qed

lemma tag_names: "k \<noteq> [] \<Longrightarrow> mantle_field_allowed (ascii ''tags.'' @ k)"
proof -
  have "length (ascii ''tags.'') = 5" by code_simp
  then show "k \<noteq> [] \<Longrightarrow> mantle_field_allowed (ascii ''tags.'' @ k)"
    by (simp add: mantle_field_allowed_def has_prefix_def)
qed

text \<open>The most tags an observation can mint.\<close>

definition rune_cost :: "json option \<Rightarrow> nat" where
  "rune_cost r = 11 + length (members (get r (ascii ''content''))) + length (children (get r (ascii ''tags'')))"

lemma runs_observe_rune:
  assumes i: "valid_id i = None" and b: "base_ok KRune base" and r: "storable_opt r"
  shows "runs i d (rune_cost r) (observe_rune i policy base r)"
proof -
  let ?fs = "base @ [ascii ''fields'']"
  have fs: "base_ok KRuneFields ?fs" using b by (rule base_ok_child) (simp_all add: nul_free_ascii)
  have pr: "set_path AnyBytes (base @ [ascii ''present''])" using b by (rule set_path_child) (simp_all add: nul_free_ascii)
  have tg: "set_path CanonicalValue (base @ [ascii ''tags''])" using b by (rule set_path_child) (simp_all add: nul_free_ascii)
  note fixed = runs_fixed_field [OF i fs]
  have facets: "runs i d (length kFacets) (ed_each (\<lambda>k. fixed_field i policy ?fs (ascii ''facets.'' @ ascii k)
      (get (get r (ascii ''facets'')) (ascii k))) kFacets)"
    using facet_names facet_nul_free r by (intro runs_each_one fixed) auto
  have content: "runs i d (length (members (get r (ascii ''content''))))
      (keyed_fields i policy ?fs (ascii ''content.'') (get r (ascii ''content'')))"
    using i fs r content_names by (intro runs_keyed_fields) (auto simp: field_kind_def nul_free_ascii)
  have relations: "runs i d 1 (optional_field i policy ?fs (ascii ''relations'') (get r (ascii ''relations'')))"
    using r field_names by (intro runs_optional_field [OF i fs]) (auto simp: nul_free_ascii)
  have tags: "runs i d (length (children (get r (ascii ''tags''))))
      (ed_canon (canon_set (children (get r (ascii ''tags'')))) (\<lambda>want. sync_set i (base @ [ascii ''tags'']) want))"
    using i tg r by (intro runs_canon_set) simp_all
  have last: "runs i d (length (members (get r (ascii ''content''))) + length (children (get r (ascii ''tags''))))
      (if get r (ascii ''content'') \<noteq> None \<and> \<not> is_JObject (get r (ascii ''content''))
       then ed_throw (CanonicalError ''rune content is not an object'')
       else ed_then (keyed_fields i policy ?fs (ascii ''content.'') (get r (ascii ''content'')))
         (ed_canon (canon_set (children (get r (ascii ''tags'')))) (\<lambda>want. sync_set i (base @ [ascii ''tags'']) want)))"
    using runs_then [OF content tags] runs_weaken [OF runs_throw] by simp
  have one: "runs i d 1 (fixed_field i policy ?fs name v)"
    if "rune_field_allowed name" "nul_free name" "storable_opt v" for name v
    using that by (intro fixed) auto
  have "runs i d (1 + (1 + (1 + (length kFacets + (1 + (1 + (length (members (get r (ascii ''content''))) +
      length (children (get r (ascii ''tags'')))))))))) (observe_rune i policy base r)"
    unfolding observe_rune_def Let_def
    using r field_names by (intro runs_then runs_make_present one facets relations last i pr) (auto simp: nul_free_ascii)
  then show ?thesis by (rule runs_weaken) (simp add: rune_cost_def kFacets_def)
qed

lemma sum_om_put:
  fixes f :: "'a \<Rightarrow> nat"
  shows "map_of m k = None \<Longrightarrow> sum_list (map (\<lambda>kv. f (snd kv)) (om_put k v m)) = f v + sum_list (map (\<lambda>kv. f (snd kv)) m)"
  by (induction k v m rule: om_put.induct) (auto split: if_splits)

lemma set_om_put: "set (om_put k v m) \<subseteq> insert (k, v) (set m)"
  by (induction k v m rule: om_put.induct) auto

text \<open>Filing keeps the items apart: what the map holds costs what the list costs.\<close>

lemma file_items_ok:
  fixes f :: "json \<Rightarrow> nat"
  shows "file_items key missing dup m xs = Inr m' \<Longrightarrow>
   sum_list (map (\<lambda>kv. f (snd kv)) m') = sum_list (map (\<lambda>kv. f (snd kv)) m) + sum_list (map f xs) \<and>
   (\<forall>kv \<in> set m'. kv \<in> set m \<or> snd kv \<in> set xs \<and> nonempty_string (key (snd kv)) = Some (fst kv))"
proof (induction xs arbitrary: m)
  case (Cons x xs)
  then obtain k where k: "nonempty_string (key x) = Some k" "map_of m k = None"
    "file_items key missing dup (om_put k x m) xs = Inr m'"
    by (auto split: option.splits if_splits)
  note IH = Cons.IH [OF k(3)]
  have "kv \<in> set m \<or> snd kv \<in> set (x # xs) \<and> nonempty_string (key (snd kv)) = Some (fst kv)"
    if "kv \<in> set m'" for kv
  proof -
    have "kv \<in> set (om_put k x m) \<or> snd kv \<in> set xs \<and> nonempty_string (key (snd kv)) = Some (fst kv)"
      using conjunct2 [OF IH] that by (rule bspec)
    then show ?thesis
    proof
      assume "kv \<in> set (om_put k x m)"
      then have "kv = (k, x) \<or> kv \<in> set m" using set_om_put [of k x m] by blast
      then show ?thesis using k(1) by (elim disjE) simp_all
    qed simp
  qed
  then show ?case using conjunct1 [OF IH] sum_om_put [OF k(2), of f x] by simp
qed simp

lemma runs_remove_gone:
  assumes "base_ok L base" "\<And>k. k \<noteq> [] \<Longrightarrow> child L k = Some K" "child L [] = None"
    "child K (ascii ''present'') = Some (KSet v)" "is_object_kind L"
  shows "runs i d 0 (remove_gone base named)"
  unfolding remove_gone_def Let_def
proof (rule runs_each_read)
  fix e k assume e: "ed_good i d e" and k: "k \<in> set (filter (\<lambda>k. k \<notin> set named \<and> ed_live (base @ [k]) e)
      (map fst (members (node_at (Some (work e)) base))))"
  have w: "conforms KRoot (work e)" "json_wf (work e)" using e by (auto simp: ed_good_def valid_doc_iff)
  from k obtain w' n where kv: "node_at (Some (work e)) base = Some n" "(k, w') \<in> set (members (Some n))"
    by (cases "node_at (Some (work e)) base") auto
  have n: "conforms L n" "json_wf n" using node_at_kind [OF w _ _ kv(1)] assms(1) by (auto simp: base_ok_def)
  have "child L k \<noteq> None" using n(1) kv(2) by (auto simp: conforms_object [OF assms(5)])
  then have "child L k = Some K" using assms(2,3) by (cases "k = []") auto
  moreover have "nul_free k" using n(2) kv(2) by (cases n) auto
  ultimately have b: "base_ok K (base @ [k])" using assms(1) by (intro base_ok_child)
  then have "set_path v ((base @ [k]) @ [ascii ''present''])"
    using assms(4) by (intro set_path_child) (auto simp: nul_free_ascii)
  with b show "runs i d 0 (ed_remove (base @ [k]) False)" by (intro runs_remove)
qed

definition mantle_cost :: "json option \<Rightarrow> nat" where
  "mantle_cost m = 4 + length (members (get m (ascii ''tags''))) +
     sum_list (map (\<lambda>r. rune_cost (Some r)) (children (get m (ascii ''runes'')))) +
     length (children (get (get m (ascii ''layout'')) (ascii ''edges'')))"

lemma nonempty_key:
  "nonempty_string v = Some k \<Longrightarrow> storable_opt v \<Longrightarrow> k \<noteq> [] \<and> nul_free k"
  using nonempty_string_ok [of "the v" k] by (cases v) (auto simp: storable_opt_def storable_def nonempty_string_def)

lemma runs_filed:
  assumes "\<And>k x. k \<noteq> [] \<Longrightarrow> nul_free k \<Longrightarrow> storable x \<Longrightarrow> runs i d (f (Some x)) (g k x)"
    and "\<And>x. storable x \<Longrightarrow> storable_opt (key x)" and v: "storable_opt v"
    and fi: "file_items key missing dup [] (children v) = Inr m"
  shows "runs i d (sum_list (map (\<lambda>x. f (Some x)) (children v))) (ed_each (\<lambda>kv. g (fst kv) (snd kv)) m)"
proof -
  note fo = file_items_ok [OF fi, of "\<lambda>x. f (Some x)"]
  have "runs i d (f (Some (snd kv))) (g (fst kv) (snd kv))" if "kv \<in> set m" for kv
  proof -
    have kv: "snd kv \<in> set (children v)" "nonempty_string (key (snd kv)) = Some (fst kv)" using fo that by auto
    have "storable (snd kv)" using v kv(1) by (rule storable_children)
    then show ?thesis using assms(1) nonempty_key [OF kv(2)] assms(2) by blast
  qed
  then have "runs i d (sum_list (map (\<lambda>kv. f (Some (snd kv))) m)) (ed_each (\<lambda>kv. g (fst kv) (snd kv)) m)"
    by (rule runs_each)
  then show ?thesis using fo by simp
qed

lemma runs_observe_mantle:
  assumes i: "valid_id i = None" and b: "base_ok KMantle base" and m: "storable_opt m"
  shows "runs i d (mantle_cost m) (observe_mantle i policy base m)"
proof -
  let ?fs = "base @ [ascii ''fields'']"
  let ?tags = "get m (ascii ''tags'')"
  let ?runes = "get m (ascii ''runes'')"
  let ?edges = "get (get m (ascii ''layout'')) (ascii ''edges'')"
  let ?rs = "base @ [ascii ''runes'']"
  have fs: "base_ok KMantleFields ?fs" using b by (rule base_ok_child) (simp_all add: nul_free_ascii)
  have rs: "base_ok KRunes ?rs" using b by (rule base_ok_child) (simp_all add: nul_free_ascii)
  have pr: "set_path AnyBytes (base @ [ascii ''present''])" using b by (rule set_path_child) (simp_all add: nul_free_ascii)
  have ed: "set_path CanonicalValue (base @ [ascii ''edges''])" using b by (rule set_path_child) (simp_all add: nul_free_ascii)
  have fixed: "runs i d 1 (fixed_field i policy ?fs name v)"
    if "mantle_field_allowed name" "nul_free name" "storable_opt v" for name v
    using that by (intro runs_fixed_field [OF i fs]) auto
  have keyed: "runs i d (length (members ?tags)) (keyed_fields i policy ?fs (ascii ''tags.'') (if is_JObject ?tags then ?tags else None))"
  proof -
    have "runs i d (length (members (if is_JObject ?tags then ?tags else None)))
        (keyed_fields i policy ?fs (ascii ''tags.'') (if is_JObject ?tags then ?tags else None))"
      using i fs storable_get [OF m] tag_names
      by (intro runs_keyed_fields) (auto simp: field_kind_def nul_free_ascii storable_opt_def [of None])
    then show ?thesis by (rule runs_weaken) simp
  qed
  have rules: "runs i d 1 (optional_field i policy ?fs (ascii ''rules'') (get m (ascii ''rules'')))"
    using m field_names by (intro runs_optional_field [OF i fs]) (auto simp: nul_free_ascii)
  have one: "runs i d (rune_cost (Some r)) (observe_rune i policy (base @ [ascii ''runes'', k]) (Some r))"
    if "k \<noteq> []" "nul_free k" "storable r" for k r
    using runs_observe_rune [OF i base_ok_child [OF rs, of k KRune]] that by (simp add: storable_opt_def)
  have key: "storable_opt (get (get (Some r) (ascii ''spirit'')) (ascii ''id''))" if "storable r" for r
    using that by (simp add: storable_opt_def [of "Some r"])
  have gone: "runs i d 0 (remove_gone ?rs named)" for named
    using rs by (rule runs_remove_gone [where K = KRune and v = AnyBytes]) (simp_all add: nul_free_ascii)
  have edges: "runs i d (length (children ?edges)) (ed_canon (canon_set (children ?edges)) (\<lambda>es. sync_set i (base @ [ascii ''edges'']) es))"
    using i ed m by (intro runs_canon_set) simp_all
  have runes: "runs i d (sum_list (map (\<lambda>r. rune_cost (Some r)) (children ?runes)) + (0 + length (children ?edges)))
    (ed_canon (file_items (\<lambda>r. get (get (Some r) (ascii ''spirit'')) (ascii ''id''))
       ''a rune has no spirit.id'' ''duplicate rune id '' [] (children ?runes)) (\<lambda>runes.
      ed_then (ed_each (\<lambda>kv. observe_rune i policy (base @ [ascii ''runes'', fst kv]) (Some (snd kv))) runes)
     (ed_then (remove_gone ?rs (map fst runes))
       (ed_canon (canon_set (children ?edges)) (\<lambda>es. sync_set i (base @ [ascii ''edges'']) es)))))"
    using runs_filed [of i d rune_cost "\<lambda>k r. observe_rune i policy (base @ [ascii ''runes'', k]) (Some r)", OF one key storable_get [OF m]]
    by (intro runs_canon runs_then gone edges) simp
  have "runs i d (1 + (1 + (1 + (length (members ?tags) + (1 +
      (sum_list (map (\<lambda>r. rune_cost (Some r)) (children ?runes)) + (0 + length (children ?edges))))))))
      (observe_mantle i policy base m)"
    unfolding observe_mantle_def Let_def
    using runs_then [OF keyed runs_then [OF rules runes]] runs_weaken [OF runs_throw] m field_names
    by (intro runs_then runs_make_present fixed i pr) (auto simp: nul_free_ascii)
  then show ?thesis by (rule runs_weaken) (simp add: mantle_cost_def)
qed

section \<open>Declarations\<close>

lemma storable_subset:
  assumes "storable (JObject ms)" "set (filter P ms) \<subseteq> set ms"
  shows "storable (JObject (filter P ms))"
proof -
  have "sum_list (map f (filter P ms)) \<le> sum_list (map f ms)" for f :: "bytes \<times> json \<Rightarrow> nat"
    by (induction ms) auto
  then have "json_weight (JObject (filter P ms)) \<le> json_weight (JObject ms)" by simp
  moreover have "json_depth (JObject (filter P ms)) \<le> kMaxDepth"
    using assms by (auto simp: storable_def json_depth_JObject_le simp del: json_depth.simps)
  ultimately show ?thesis
    using assms by (auto simp: storable_def simp del: json_depth.simps json_weight.simps)
qed

lemma str_bytes_inject:
  assumes "str_bytes s = str_bytes t" "valid_utf8 s" "valid_utf8 t" "length s < 2 ^ 63" "length t < 2 ^ 63" "nul_free s" "nul_free t"
  shows "s = t"
proof -
  have d: "decode_at 1 (str_bytes u @ []) = Some (JString u, [])"
    if "valid_utf8 u" "length u < 2 ^ 63" "nul_free u" for u
  proof -
    have "encode (JString u) = Inr (str_bytes u)" using that(1) by (simp add: encode_str_def)
    moreover have "length (str_bytes u) < 2 ^ 64" using str_bytes_weight [of u] that(2) by simp
    ultimately have "decode_at 1 (str_bytes u @ []) = Some (canon_json (JString u), [])"
      using that(3) by (intro decode_encode_at) simp_all
    then show ?thesis by simp
  qed
  have "Some (JString s, [] :: bytes) = Some (JString t, [])"
    using d [OF assms(2,4,6)] d [OF assms(3,5,7)] unfolding assms(1) by (rule trans [OF sym])
  then show ?thesis by simp
qed

text \<open>A declaration is encoded without a check of its keys; on distinct keys it is the encoding
  of the object less its source.\<close>

lemma descriptor_canonical:
  assumes b: "canon_glyph_descriptor (Some g) = Inr b" and g: "storable g" "json_weight g < 2 ^ 63"
    and d: "distinct (map fst (members (Some g)))"
  shows "value_ok Declaration b"
proof -
  obtain ms where ms: "g = JObject ms" using b by (cases g) (auto simp: canon_glyph_descriptor_def)
  let ?ms = "filter (\<lambda>(k, v). k \<noteq> ascii ''source'') ms"
  have sub: "set ?ms \<subseteq> set ms" by auto
  obtain fs where fs: "cmap (\<lambda>(k, v). cbind (encode v) (\<lambda>b. Inr (k, b))) ?ms = Inr fs" "encode_map_of_encoded fs = Inr b"
    using b by (auto simp: canon_glyph_descriptor_def ms cbind_Inr)
  have 1: "cmap (\<lambda>(k, v). cbind (encode v) (\<lambda>b. Inr (k, b))) xs = Inr ys \<Longrightarrow>
      cmap (\<lambda>kv. case encode_str (fst kv) of Inl e \<Rightarrow> Inl e | Inr k \<Rightarrow> Inr (k, snd kv)) ys = Inr zs \<Longrightarrow>
      encode_members xs = Inr zs" for xs ys zs
  proof (induction xs arbitrary: ys zs)
    case (Cons kv xs)
    obtain k v where kv: "kv = (k, v)" by (cases kv)
    from Cons.prems(1) kv obtain vb ys' where ys: "encode v = Inr vb" "ys = (k, vb) # ys'"
      "cmap (\<lambda>(k, v). cbind (encode v) (\<lambda>b. Inr (k, b))) xs = Inr ys'"
      by (auto simp: cbind_Inr split: sum.splits)
    from Cons.prems(2) ys(2) obtain kb zs' where "encode_str k = Inr kb" "zs = (kb, vb) # zs'"
      "cmap (\<lambda>kv. case encode_str (fst kv) of Inl e \<Rightarrow> Inl e | Inr k \<Rightarrow> Inr (k, snd kv)) ys' = Inr zs'"
      by (auto split: sum.splits)
    with Cons.IH [OF ys(3)] ys(1) kv show ?case by simp
  qed simp
  obtain ps where ps: "encode_members ?ms = Inr ps" "b = map_bytes (sort_key fst ps)"
    using fs(2) 1 [OF fs(1)] by (auto simp: encode_map_of_encoded_def split: sum.splits)
  then have e: "\<forall>kv \<in> set ?ms. valid_utf8 (fst kv)" "ps = map (\<lambda>kv. (str_bytes (fst kv), enc (snd kv))) ?ms"
    by (auto simp: encode_members_Inr)
  have small: "length (fst kv) < 2 ^ 63" "nul_free (fst kv)" if "kv \<in> set ms" for kv
  proof -
    have "11 + length (fst kv) + json_weight (snd kv) \<le>
        sum_list (map (\<lambda>kv. 11 + length (fst kv) + json_weight (snd kv)) ms)"
      using that by (intro member_le_sum_list) auto
    then show "length (fst kv) < 2 ^ 63" using g(2) by (simp add: ms)
    show "nul_free (fst kv)" using storable_member(2) [of ms "fst kv" "snd kv"] g(1) that by (simp add: ms)
  qed
  have inj: "inj_on (\<lambda>kv. str_bytes (fst kv)) (set ?ms)"
  proof (rule inj_onI)
    fix x y assume xy: "x \<in> set ?ms" "y \<in> set ?ms" "str_bytes (fst x) = str_bytes (fst y)"
    have m: "x \<in> set ms" "y \<in> set ms" using xy(1,2) sub by blast+
    have "fst x = fst y"
      using xy(3) bspec [OF e(1) xy(1)] bspec [OF e(1) xy(2)] small(1) [OF m(1)] small(1) [OF m(2)]
        small(2) [OF m(1)] small(2) [OF m(2)]
      by (rule str_bytes_inject)
    moreover have "inj_on fst (set ms)" using d by (simp add: ms distinct_map)
    ultimately show "x = y" using m by (meson inj_onD)
  qed
  have "distinct (map fst ?ms)" using d by (simp add: ms distinct_map_filter)
  then have "distinct ?ms" by (simp only: distinct_map)
  then have "distinct (map fst ps)" using inj by (simp add: e(2) distinct_map o_def)
  moreover have "mset (map fst (sort_key fst ps)) = mset (map fst ps)" by simp
  ultimately have "distinct (map fst (sort_key fst ps))" using mset_eq_imp_distinct_iff by blast
  then have "\<not> adjacent_dup (map fst (sort_key fst ps))" by (simp add: adjacent_dup_sorted)
  then have enc: "encode (JObject ?ms) = Inr b" using ps by (simp add: encode_map_def Let_def)
  have "storable (JObject ?ms)"
    using g(1) sub unfolding ms by (rule storable_subset)
  with enc have "is_canonical b" by (rule encode_canonical)
  then show ?thesis by (simp add: ps(2) map_bytes_def)
qed

lemma file_glyphs_ok:
  assumes "file_glyphs gs = Inr m"
  shows "length m \<le> length gs"
    and "\<forall>kv \<in> set m. fst kv \<noteq> [] \<and> (\<exists>g. (fst kv, g) \<in> set gs \<and> canon_glyph_descriptor (Some g) = Inr (snd kv))"
proof -
  let ?step = "\<lambda>m g. if fst g = [] then Inl (CanonicalError ''a glyph declaration has no name'')
                  else cbind (canon_glyph_descriptor (Some (snd g))) (\<lambda>b. Inr (om_put (fst g) b m))"
  let ?ok = "\<lambda>m. \<forall>kv \<in> set m. fst kv \<noteq> [] \<and> (\<exists>g. (fst kv, g) \<in> set gs \<and> canon_glyph_descriptor (Some g) = Inr (snd kv))"
  have put: "length (om_put k v m) \<le> Suc (length m)" for k v and m :: "(bytes, bytes) omap"
    by (induction k v m rule: om_put.induct) auto
  have "cfold ?step m0 xs = Inr m \<Longrightarrow> set xs \<subseteq> set gs \<Longrightarrow> ?ok m0 \<Longrightarrow> length m \<le> length m0 + length xs \<and> ?ok m" for m0 xs
  proof (induction xs arbitrary: m0)
    case (Cons g xs)
    then obtain b where g: "fst g \<noteq> []" "canon_glyph_descriptor (Some (snd g)) = Inr b"
      "cfold ?step (om_put (fst g) b m0) xs = Inr m"
      by (auto simp: cbind_Inr split: if_splits)
    have "(fst g, snd g) \<in> set gs" using Cons.prems(2) by simp
    then have new: "fst (fst g, b) \<noteq> [] \<and> (\<exists>d. (fst (fst g, b), d) \<in> set gs \<and>
        canon_glyph_descriptor (Some d) = Inr (snd (fst g, b)))"
      using g(1,2) by (simp only: fst_conv snd_conv) blast
    have "?ok (om_put (fst g) b m0)"
    proof
      fix kv assume "kv \<in> set (om_put (fst g) b m0)"
      then have "kv = (fst g, b) \<or> kv \<in> set m0" using set_om_put [of "fst g" b m0] by blast
      then show "fst kv \<noteq> [] \<and> (\<exists>d. (fst kv, d) \<in> set gs \<and> canon_glyph_descriptor (Some d) = Inr (snd kv))"
      proof
        assume kv: "kv = (fst g, b)"
        show ?thesis unfolding kv by (rule new)
      next
        assume "kv \<in> set m0"
        with Cons.prems(3) show ?thesis by (rule bspec)
      qed
    qed
    with Cons.IH [OF g(3)] Cons.prems(2) put [of "fst g" b m0] show ?case by simp
  qed simp
  from this [of "[]" gs] assms show "length m \<le> length gs" "?ok m" by (simp_all add: file_glyphs_def)
qed

section \<open>A whole state\<close>

text \<open>What the model asks of a state: strings as a parser makes them, the sizes the code can read
  back, and declarations whose keys are distinct.\<close>

definition state_ok :: "json option \<Rightarrow> bool" where
  "state_ok st \<longleftrightarrow> (\<forall>j. st = Some j \<longrightarrow> storable j \<and> json_weight j < 2 ^ 63) \<and>
     (\<forall>kv \<in> set (members (get st (ascii ''glyphs''))). distinct (map fst (members (Some (snd kv)))))"

definition state_cost :: "json option \<Rightarrow> nat" where
  "state_cost st = sum_list (map (\<lambda>m. mantle_cost (Some m)) (children (get st (ascii ''mantles'')))) +
     2 * length (members (get st (ascii ''glyphs'')))"

lemma weight_member:
  "(k, v) \<in> set (members j) \<Longrightarrow> j = Some n \<Longrightarrow> json_weight v \<le> json_weight n"
proof (cases n)
  case (JObject ms)
  assume "(k, v) \<in> set (members j)" "j = Some n"
  then have "11 + length k + json_weight v \<le> sum_list (map (\<lambda>kv. 11 + length (fst kv) + json_weight (snd kv)) ms)"
    using JObject member_le_sum_list [of "11 + length k + json_weight v"
        "map (\<lambda>kv. 11 + length (fst kv) + json_weight (snd kv)) ms"] by force
  then show ?thesis using JObject by simp
qed auto

lemma state_glyph:
  assumes "state_ok st" "(k, g) \<in> set (members (get st (ascii ''glyphs'')))"
  shows "storable g" "json_weight g < 2 ^ 63" "nul_free k" "distinct (map fst (members (Some g)))"
proof -
  have st: "storable_opt st" using assms(1) by (simp add: state_ok_def storable_opt_def)
  show "storable g" "nul_free k" using storable_members [OF storable_get [OF st] assms(2)] by auto
  show "distinct (map fst (members (Some g)))" using assms by (force simp: state_ok_def)
  obtain gs where gs: "get st (ascii ''glyphs'') = Some gs"
    using assms(2) by (cases "get st (ascii ''glyphs'')") auto
  then obtain s where s: "st = Some s" by (cases st) auto
  have "json_weight g \<le> json_weight gs" using assms(2) gs by (rule weight_member)
  moreover have "json_weight gs \<le> json_weight s"
    using gs s map_of_SomeD [of "members st" "ascii ''glyphs''" gs] weight_member by (simp add: get_def)
  ultimately show "json_weight g < 2 ^ 63" using assms(1) s by (simp add: state_ok_def)
qed

lemma runs_observe_into:
  assumes i: "valid_id i = None" and st: "state_ok st"
  shows "runs i d (state_cost st) (observe_into i policy st)"
proof -
  let ?ms = "get st (ascii ''mantles'')"
  let ?gs = "get st (ascii ''glyphs'')"
  have s: "storable_opt st" using st by (simp add: state_ok_def storable_opt_def)
  have root: "base_ok KRoot []" by (simp add: base_ok_def)
  have mb: "base_ok KMantles [ascii ''mantles'']" and gb: "base_ok KGlyphs [ascii ''glyphs'']"
    using base_ok_child [OF root, of "ascii ''mantles''"] base_ok_child [OF root, of "ascii ''glyphs''"]
    by (simp_all add: nul_free_ascii)
  have mantle: "runs i d (mantle_cost (Some m)) (observe_mantle i policy [ascii ''mantles'', k] (Some m))"
    if "k \<noteq> []" "nul_free k" "storable m" for k m
    using runs_observe_mantle [OF i base_ok_child [OF mb, of k KMantle]] that by (simp add: storable_opt_def)
  have key: "storable_opt (get (Some m) (ascii ''name''))" if "storable m" for m
    using that by (simp add: storable_opt_def [of "Some m"])
  have gone: "runs i d 0 (remove_gone [ascii ''mantles''] named)" "runs i d 0 (remove_gone [ascii ''glyphs''] named)" for named
    using runs_remove_gone [OF mb, of KMantle AnyBytes] runs_remove_gone [OF gb, of KGlyph AnyBytes]
    by (simp_all add: nul_free_ascii)
  have glyph: "runs i d 2 (ed_then (make_present i [ascii ''glyphs'', k] [])
       (sync_register i policy [ascii ''glyphs'', k, ascii ''fields'', ascii ''descriptor''] (ascii ''descriptor'') (Some b)))"
    if k: "k \<noteq> []" "nul_free k" and b: "value_ok Declaration b" for k b
  proof -
    have kb: "base_ok KGlyph ([ascii ''glyphs''] @ [k])" using gb by (rule base_ok_child) (simp_all add: k)
    then have "set_path AnyBytes (([ascii ''glyphs''] @ [k]) @ [ascii ''present''])"
      by (rule set_path_child) (simp_all add: nul_free_ascii)
    then have 1: "runs i d 1 (make_present i [ascii ''glyphs'', k] [])"
      using runs_make_present [OF i, of "[ascii ''glyphs'', k]" d "[]"] by simp
    have "base_ok KGlyphFields (([ascii ''glyphs''] @ [k]) @ [ascii ''fields''])"
      using kb by (rule base_ok_child) (simp_all add: nul_free_ascii)
    then have "set_path Declaration ((([ascii ''glyphs''] @ [k]) @ [ascii ''fields'']) @ [ascii ''descriptor''])"
      by (rule set_path_child) (simp_all add: nul_free_ascii)
    from runs_then [OF 1 runs_register [OF i this, of "Some b"]] b show ?thesis by (simp add: numeral_2_eq_2)
  qed
  have decls: "runs i d (2 * length m) (ed_each (\<lambda>kv. ed_then (make_present i [ascii ''glyphs'', fst kv] [])
       (sync_register i policy [ascii ''glyphs'', fst kv, ascii ''fields'', ascii ''descriptor''] (ascii ''descriptor'') (Some (snd kv)))) m)"
    if m: "file_glyphs (members ?gs) = Inr m" for m
  proof (rule runs_each_const)
    fix kv assume kv: "kv \<in> set m"
    show "runs i d 2 (ed_then (make_present i [ascii ''glyphs'', fst kv] [])
       (sync_register i policy [ascii ''glyphs'', fst kv, ascii ''fields'', ascii ''descriptor''] (ascii ''descriptor'') (Some (snd kv))))"
    proof -
      obtain g where g: "fst kv \<noteq> []" "(fst kv, g) \<in> set (members ?gs)" "canon_glyph_descriptor (Some g) = Inr (snd kv)"
        using file_glyphs_ok(2) [OF m] kv by blast
      note sg = state_glyph [OF st g(2)]
      show ?thesis using g(1) sg(3) descriptor_canonical [OF g(3) sg(1,2,4)] by (rule glyph)
    qed
  qed
  have glyphs: "runs i d (2 * length (members ?gs))
     (ed_canon (file_glyphs (members ?gs)) (\<lambda>glyphs.
      ed_then (ed_each (\<lambda>kv. ed_then (make_present i [ascii ''glyphs'', fst kv] [])
                 (sync_register i policy [ascii ''glyphs'', fst kv, ascii ''fields'', ascii ''descriptor'']
                    (ascii ''descriptor'') (Some (snd kv)))) glyphs)
        (remove_gone [ascii ''glyphs''] (map fst glyphs))))"
  proof (rule runs_canon)
    fix m assume m: "file_glyphs (members ?gs) = Inr m"
    have "runs i d (2 * length m + 0) (ed_then (ed_each (\<lambda>kv. ed_then (make_present i [ascii ''glyphs'', fst kv] [])
                 (sync_register i policy [ascii ''glyphs'', fst kv, ascii ''fields'', ascii ''descriptor'']
                    (ascii ''descriptor'') (Some (snd kv)))) m)
        (remove_gone [ascii ''glyphs''] (map fst m)))"
      using decls [OF m] gone(2) by (rule runs_then)
    then show "runs i d (2 * length (members ?gs)) (ed_then (ed_each (\<lambda>kv. ed_then (make_present i [ascii ''glyphs'', fst kv] [])
                 (sync_register i policy [ascii ''glyphs'', fst kv, ascii ''fields'', ascii ''descriptor'']
                    (ascii ''descriptor'') (Some (snd kv)))) m)
        (remove_gone [ascii ''glyphs''] (map fst m)))"
      by (rule runs_weaken) (use file_glyphs_ok(1) [OF m] in simp)
  qed
  have rest: "runs i d (2 * length (members ?gs)) (if P then ed_throw x else s)" if "runs i d (2 * length (members ?gs)) s" for P x s
    using that runs_weaken [OF runs_throw] by simp
  have "runs i d (sum_list (map (\<lambda>m. mantle_cost (Some m)) (children ?ms)) + (0 + 2 * length (members ?gs)))
     (ed_canon (file_items (\<lambda>m. get (Some m) (ascii ''name''))
                       ''a mantle has no name'' ''duplicate mantle name '' [] (children ?ms)) (\<lambda>mantles.
      ed_then (ed_each (\<lambda>kv. observe_mantle i policy [ascii ''mantles'', fst kv] (Some (snd kv))) mantles)
     (ed_then (remove_gone [ascii ''mantles''] (map fst mantles))
     (if ?gs \<noteq> None \<and> \<not> is_JObject ?gs \<and> \<not> is_JNull ?gs
      then ed_throw (CanonicalError ''`glyphs` is present but is not an object'')
      else ed_canon (file_glyphs (members ?gs)) (\<lambda>glyphs.
      ed_then (ed_each (\<lambda>kv. ed_then (make_present i [ascii ''glyphs'', fst kv] [])
                 (sync_register i policy [ascii ''glyphs'', fst kv, ascii ''fields'', ascii ''descriptor'']
                    (ascii ''descriptor'') (Some (snd kv)))) glyphs)
        (remove_gone [ascii ''glyphs''] (map fst glyphs)))))))"
    using runs_filed [of i d mantle_cost "\<lambda>k m. observe_mantle i policy [ascii ''mantles'', k] (Some m)", OF mantle key storable_get [OF s]]
    by (intro runs_canon runs_then gone rest glyphs) simp
  then show ?thesis
    using runs_weaken [OF runs_throw]
    by (simp add: observe_into_def Let_def state_cost_def)
qed

end
