(* ===== verification/Device.thy ===== *)
theory Device
  imports Observing
begin

text \<open>
  What a replica promises (\<^verbatim>\<open>src/crdt/replica.cpp\<close>), operation by operation: its document stays
  valid and its counter ahead of its own tags; a delta carries exactly the change; a peer that
  reuses this replica's id is refused; clocks follow what is received; a saved replica comes
  back.
\<close>

section \<open>Joining valid documents\<close>

lemma conforms_json_object:
  assumes "conforms K n" "is_object_kind K"
  obtains ms where "n = JObject ms" "distinct (map fst ms)" "\<not> is_orset (Some n)"
  using members_JObject [of n] conforms_not_orset [OF assms] assms by (auto simp: conforms_object)

lemma join_objects:
  assumes "\<not> is_orset (Some (JObject ams))" "\<not> is_orset (Some (JObject bms))"
  shows "join_node pr (JObject ams) (JObject bms) = JObject (join_map (join_node pr) ams bms)"
  using assms by (subst join_node.simps) (simp add: node_rank_def)

lemma join_sets:
  assumes "set_ok v a" "set_ok v b" "json_wf a" "json_wf b"
  shows "join_node pr a b = orset_to_json (orset_join (orset_from_json (Some a)) (orset_from_json (Some b)))"
    and "good_set v (orset_join (orset_from_json (Some a)) (orset_from_json (Some b)))"
    and "orset_tags (orset_join (orset_from_json (Some a)) (orset_from_json (Some b))) \<subseteq> tags_in a \<union> tags_in b"
proof -
  have s: "is_orset (Some a)" "is_orset (Some b)" using set_ok_orset assms(1,2) by blast+
  then show "join_node pr a b = orset_to_json (orset_join (orset_from_json (Some a)) (orset_from_json (Some b)))"
    by (subst join_node.simps) (simp add: node_rank_def)
  note g = good_set_from_json [OF assms(1,3)] good_set_from_json [OF assms(2,4)]
  show "good_set v (orset_join (orset_from_json (Some a)) (orset_from_json (Some b)))"
    using g by (rule good_join)
  show "orset_tags (orset_join (orset_from_json (Some a)) (orset_from_json (Some b))) \<subseteq> tags_in a \<union> tags_in b"
    using good_join(2) [OF g] s by (simp add: tags_in_orset)
qed

lemma conforms_join:
  "conforms K a \<Longrightarrow> conforms K b \<Longrightarrow> json_wf a \<Longrightarrow> json_wf b \<Longrightarrow>
   conforms K (join_node pr a b) \<and> json_wf (join_node pr a b) \<and> tags_in (join_node pr a b) \<subseteq> tags_in a \<union> tags_in b"
proof (induction a arbitrary: K b rule: measure_induct_rule [of size])
  case (less a)
  consider (set) v where "K = KSet v" | (version) "K = KVersion" | (object) "is_object_kind K"
    by (cases K) auto
  then show ?case
  proof cases
    case set
    then have s: "set_ok v a" "set_ok v b" using less.prems by auto
    note j = join_sets [OF s less.prems(3,4)]
    show ?thesis using j good_set_to_json [OF j(2)] set by auto
  next
    case version
    then have "a = mk_int 1" "b = mk_int 1" using less.prems by auto
    then have "join_node pr a b = mk_int 1"
      by (subst join_node.simps) (auto simp: Let_def node_rank_def mk_int_def is_orset_def)
    moreover have "json_wf (mk_int 1)" by (simp add: mk_int_def)
    ultimately show ?thesis using version by simp
  next
    case object
    obtain ams where a: "a = JObject ams" "distinct (map fst ams)" "\<not> is_orset (Some a)"
      using less.prems(1) object by (rule conforms_json_object)
    obtain bms where b: "b = JObject bms" "distinct (map fst bms)" "\<not> is_orset (Some b)"
      using less.prems(2) object by (rule conforms_json_object)
    let ?J = "join_map (join_node pr) ams bms"
    have j: "join_node pr a b = JObject ?J" using a b by (simp add: join_objects)
    have am: "\<exists>K'. child K k = Some K' \<and> conforms K' v \<and> json_wf v \<and> nul_free k \<and> tags_in v \<subseteq> tags_in a \<and> size v < size a"
      if "map_of ams k = Some v" for k v
      using that less.prems(1,3) object a map_of_SomeD [OF that] tags_in_member [OF less.prems(1) object, of k v]
        size_members [of "(k, v)" a]
      by (force simp: conforms_object)
    have bm: "\<exists>K'. child K k = Some K' \<and> conforms K' v \<and> json_wf v \<and> nul_free k \<and> tags_in v \<subseteq> tags_in b"
      if "map_of bms k = Some v" for k v
      using that less.prems(2,4) object b map_of_SomeD [OF that] tags_in_member [OF less.prems(2) object, of k v]
      by (force simp: conforms_object)
    have child: "\<exists>K'. child K k = Some K' \<and> conforms K' x \<and> json_wf x \<and> nul_free k \<and> tags_in x \<subseteq> tags_in a \<union> tags_in b"
      if x: "map_of ?J k = Some x" for k x
    proof (cases "map_of ams k")
      case None
      then show ?thesis using x bm [of k] by (cases "map_of bms k") (auto simp: map_of_join_map combine_def)
    next
      case (Some v)
      note va = am [OF Some]
      show ?thesis
      proof (cases "map_of bms k")
        case None
        then show ?thesis using x va Some by (auto simp: map_of_join_map combine_def)
      next
        case w: (Some w)
        then have "x = join_node pr v w" using x Some by (simp add: map_of_join_map combine_def)
        then show ?thesis using va bm [OF w] less.IH [of v _ w] by fastforce
      qed
    qed
    have mem: "map_of ?J k = Some x" if "(k, x) \<in> set ?J" for k x
      using that by (simp add: map_of_eq_Some_iff distinct_join_map)
    have c: "conforms K (JObject ?J)"
      using child mem by (auto simp: conforms_object [OF object] distinct_members_def distinct_join_map) blast
    moreover have "json_wf (JObject ?J)" using child mem by fastforce
    moreover have "tags_in (JObject ?J) \<subseteq> tags_in a \<union> tags_in b"
      using child mem by (fastforce simp: tags_in_object [OF conforms_not_orset [OF c object]])
    ultimately show ?thesis unfolding j by blast
  qed
qed

lemma valid_join:
  assumes "valid_doc a" "valid_doc b"
  shows "valid_doc (join_node pr a b) \<and> tags_in (join_node pr a b) \<subseteq> tags_in a \<union> tags_in b"
proof -
  have c: "conforms KRoot a" "conforms KRoot b" "json_wf a" "json_wf b"
    "ascii ''palabra'' \<in> fst ` set (members (Some a))"
    using assms by (auto simp: valid_doc_iff)
  obtain ams where a: "a = JObject ams" "\<not> is_orset (Some a)" using c(1) by (rule conforms_json_object) simp_all
  obtain bms where b: "b = JObject bms" "\<not> is_orset (Some b)" using c(2) by (rule conforms_json_object) simp_all
  have "ascii ''palabra'' \<in> fst ` set (members (Some (join_node pr a b)))"
    using c(5) a b by (simp add: join_objects fst_join_map)
  then show ?thesis using conforms_join [OF c(1-4), of pr] by (simp add: valid_doc_iff)
qed

lemma set_below:
  assumes "conforms K n" "json_wf n" "kind_at K p = Some (KSet v)" "plain p"
  shows "good_set v (orset_from_json (node_at (Some n) p))"
proof (cases "node_at (Some n) p")
  case (Some m)
  then show ?thesis using node_at_kind [OF assms Some] good_set_from_json by auto
qed simp

lemma join_new_right [simp]: "orset_join s orset_new = s"
  by (simp add: orset_join_def) (simp add: orset_new_def os_union_def)

lemma orset_at_join:
  "conforms K a \<Longrightarrow> conforms K b \<Longrightarrow> json_wf a \<Longrightarrow> json_wf b \<Longrightarrow> kind_at K p = Some (KSet v) \<Longrightarrow> plain p \<Longrightarrow>
   orset_at (join_node pr a b) p = orset_join (orset_at a p) (orset_at b p)"
proof (induction p arbitrary: K a b)
  case Nil
  then have s: "set_ok v a" "set_ok v b" by auto
  note j = join_sets [OF s Nil(3,4)]
  show ?case using j(1,2) orset_from_to_json by (simp add: orset_at_def good_set_def)
next
  case (Cons k ks)
  obtain K1 where K1: "child K k = Some K1" "kind_at K1 ks = Some (KSet v)"
    using Cons.prems(5) by (auto split: option.splits)
  have ob: "is_object_kind K" using K1(1) by (rule child_object)
  obtain ams where a: "a = JObject ams" "\<not> is_orset (Some a)" using Cons.prems(1) ob by (rule conforms_json_object)
  obtain bms where b: "b = JObject bms" "\<not> is_orset (Some b)" using Cons.prems(2) ob by (rule conforms_json_object)
  have k: "c_str k = k" "plain ks" using Cons.prems(6) by auto
  have am: "conforms K1 v" "json_wf v" if "map_of ams k = Some v" for v
    using conforms_get [OF Cons.prems(1) ob, of k v] get_wf [of a k v] that a(1) K1(1) Cons.prems(3) by auto
  have bm: "conforms K1 v" "json_wf v" if "map_of bms k = Some v" for v
    using conforms_get [OF Cons.prems(2) ob, of k v] get_wf [of b k v] that b(1) K1(1) Cons.prems(4) by auto
  have wf: "orset_wf (orset_at n ks)" if "conforms K1 n" "json_wf n" for n
    using set_below [OF that K1(2) k(2)] by (simp add: orset_at_def good_set_def)
  show ?case
    using a b k am bm wf Cons.IH [OF _ _ _ _ K1(2) k(2)] join_new join_new_right
    by (cases "map_of ams k"; cases "map_of bms k")
       (auto simp: orset_at_def join_objects map_of_join_map combine_def)
qed

section \<open>Good replicas\<close>

definition replica_ok :: "replica \<Rightarrow> bool" where
  "replica_ok r \<longleftrightarrow> valid_id (r_id r) = None \<and> valid_doc (r_doc r) \<and>
     own_le (r_id r) (r_issued r) (tags_in (r_doc r))"

lemma empty_doc:
  "valid_doc empty_root" "valid_doc (JObject [(ascii ''palabra'', mk_int 1)])"
  "tags_in empty_root = {}" "tags_in (JObject [(ascii ''palabra'', mk_int 1)]) = {}"
proof -
  have p: "ascii ''palabra'' \<noteq> ascii ''mantles''" by code_simp
  have w: "json_wf (mk_int 1)" by (simp add: mk_int_def)
  show "valid_doc empty_root" "valid_doc (JObject [(ascii ''palabra'', mk_int 1)])"
    using p w conjunct1 [OF empty_object [of KMantles]]
    by (simp_all add: valid_doc_iff empty_root_def conforms_object [of KRoot] distinct_members_def nul_free_ascii)
  have n: "\<not> is_orset (Some empty_root)" "\<not> is_orset (Some (JObject [(ascii ''palabra'', mk_int 1)]))"
    "\<not> is_orset (Some (JObject []))"
    by (simp_all add: is_orset_def empty_root_def)
  show "tags_in empty_root = {}" "tags_in (JObject [(ascii ''palabra'', mk_int 1)]) = {}"
    using n(2,3) tags_in_object [OF n(1)] by (auto simp: empty_root_def tags_in_object)
qed

lemma create_ok: "create i = Inr r \<Longrightarrow> replica_ok r"
  by (auto simp: create_def replica_ok_def empty_doc split: option.splits)

lemma start_good:
  assumes "replica_ok r"
  shows "ed_good (r_id r) (r_doc r) (start_edit r)"
proof -
  let ?e = "JObject [(ascii ''palabra'', mk_int 1)]"
  have "orset_at ?e p = orset_new" if kp: "kind_at KRoot p = Some (KSet v)" for p v
  proof -
    obtain k ks where p: "p = k # ks" using kp by (cases p) auto
    have "ks \<noteq> []" using kp p by (cases ks) (auto split: option.splits if_splits)
    then obtain a q where ks: "ks = a # q" by (cases ks) auto
    have "node_at (get (Some ?e) (c_str k)) ks = None" by (simp add: ks mk_int_def)
    then show ?thesis by (simp add: orset_at_def p)
  qed
  then show ?thesis
    using assms by (auto simp: ed_good_def replica_ok_def start_edit_def empty_doc tracks_def join_new_right)
qed

text \<open>What an observation may assume of the counter.\<close>

definition has_room :: "replica \<Rightarrow> nat \<Rightarrow> bool" where
  "has_room r n \<longleftrightarrow> unat (r_issued r) + n \<le> mint_limit"

lemma observe_good:
  assumes r: "replica_ok r" and s: "state_ok st" "has_room r (state_cost st)"
  defines "e \<equiv> snd (observe_into (r_id r) (r_policy r) st (start_edit r))"
  shows "ed_good (r_id r) (r_doc r) e" "unat (r_issued r) \<le> unat (issued e)"
    "unat (issued e) \<le> unat (r_issued r) + state_cost st"
proof -
  have i: "valid_id (r_id r) = None" using r by (simp add: replica_ok_def)
  have "unat (issued (start_edit r)) + state_cost st \<le> mint_limit"
    using s(2) by (simp add: has_room_def start_edit_def)
  from runsD [OF runs_observe_into [OF i s(1)] start_good [OF r] this]
  show "ed_good (r_id r) (r_doc r) e" "unat (r_issued r) \<le> unat (issued e)"
    "unat (issued e) \<le> unat (r_issued r) + state_cost st"
    by (simp_all add: e_def) (simp_all add: start_edit_def)
qed



text \<open>C3. The delta of an observation is a valid document, and joined to the document from before it
  gives, set by set, the document from after: sending the delta is sending the change.\<close>

theorem observe_delta:
  assumes "replica_ok r" "state_ok st" "has_room r (state_cost st)"
    and o: "observe r st = (Inr (n, sent), r')"
  shows "validate (Some sent) = None \<and>
    (\<forall>p v. set_path v p \<longrightarrow> orset_at (join_node pr (r_doc r) sent) p = orset_at (r_doc r') p)"
proof -
  obtain e where e: "observe_into (r_id r) (r_policy r) st (start_edit r) = (None, e)"
    "sent = delta e" "r_doc r' = work e"
    using o by (auto simp: observe_def split: prod.splits option.splits)
  have g: "ed_good (r_id r) (r_doc r) e" using observe_good(1) [OF assms(1-3)] e(1) by simp
  then have v: "valid_doc (r_doc r)" "valid_doc sent" by (auto simp: ed_good_def e(2))
  have "orset_at (join_node pr (r_doc r) sent) p = orset_at (r_doc r') p" if p: "set_path w p" for p w
  proof -
    have "orset_at (join_node pr (r_doc r) sent) p = orset_join (orset_at (r_doc r) p) (orset_at sent p)"
      using v p by (intro orset_at_join) (auto simp: valid_doc_iff set_path_def)
    also have "\<dots> = orset_at (work e) p"
      using g p by (simp add: ed_good_def tracks_def set_path_def e(2))
    finally show ?thesis by (simp add: e(3))
  qed
  then show ?thesis using v(2) by (simp add: valid_doc_def)
qed

section \<open>Merging a peer's document\<close>

lemma foldl_highest:
  fixes b :: "64 word"
  defines "step \<equiv> \<lambda>best t. let n = st_n (stamp_of t) in if n \<le> kLamportCeiling \<and> n > best then n else best"
  shows "b \<le> foldl step b ts \<and> (\<forall>t \<in> set ts. st_n (stamp_of t) \<le> kLamportCeiling \<longrightarrow> st_n (stamp_of t) \<le> foldl step b ts)"
proof (induction ts arbitrary: b)
  case (Cons t ts)
  have "b \<le> step b t" "st_n (stamp_of t) \<le> kLamportCeiling \<longrightarrow> st_n (stamp_of t) \<le> step b t"
    by (auto simp: step_def Let_def not_less)
  with Cons.IH [of "step b t"] show ?case by (auto intro: order_trans)
qed simp

lemma highest_counter_bound:
  "t \<in> tags_in n \<Longrightarrow> st_n (stamp_of t) \<le> kLamportCeiling \<Longrightarrow> st_n (stamp_of t) \<le> highest_counter (Some n)"
  using foldl_highest [where b = 0 and ts = "collect_all_tags (Some n) []"]
  by (simp add: highest_counter_def set_collect_all_tags)

lemma merge_cases:
  obtains (refused) why where "validate (Some remote) = Some why" "merge pr r (Some remote) = (invalid why, r)"
  | (twin) t where "validate (Some remote) = None" "t \<in> tags_in remote" "collides r (Some remote) t"
      "merge pr r (Some remote) = (identity_collision t, r)"
  | (joined) "validate (Some remote) = None" "\<forall>t \<in> tags_in remote. \<not> collides r (Some remote) t"
      "merge pr r (Some remote) = (merged, r\<lparr> r_doc := join_node pr (r_doc r) remote,
         r_issued := max (r_issued r) (highest_counter (Some remote)), r_revision := r_revision r + 1 \<rparr>)"
proof (cases "validate (Some remote)")
  case None
  have s: "set (collect_all_tags (Some remote) []) = tags_in remote" by (simp add: set_collect_all_tags)
  show ?thesis
  proof (cases "filter (collides r (Some remote)) (collect_all_tags (Some remote) [])")
    case Nil
    then have "\<forall>t \<in> tags_in remote. \<not> collides r (Some remote) t" unfolding s [symmetric] by (simp add: filter_empty_conv)
    with None Nil show ?thesis by (intro joined) (simp_all add: merge_def)
  next
    case (Cons t ts)
    then have "t \<in> set (filter (collides r (Some remote)) (collect_all_tags (Some remote) []))" by simp
    then have "t \<in> tags_in remote" "collides r (Some remote) t" unfolding set_filter s by blast+
    moreover have "merge pr r (Some remote) = (identity_collision t, r)" using None Cons by (simp add: merge_def)
    ultimately show ?thesis using None by (intro twin)
  qed
qed (auto simp: merge_def intro: refused)

lemma merge_good:
  assumes "replica_ok r" "json_wf remote" and m: "merge pr r (Some remote) = (res, r')"
  shows "replica_ok r' \<and> (res \<noteq> merged \<longrightarrow> r' = r) \<and>
    (res = merged \<longrightarrow>
      (\<forall>p v. set_path v p \<longrightarrow> orset_at (r_doc r') p = orset_join (orset_at (r_doc r) p) (orset_at remote p)) \<and>
      (\<forall>t \<in> tags_in remote. st_n (stamp_of t) \<le> kLamportCeiling \<longrightarrow> st_n (stamp_of t) \<le> r_issued r') \<and>
      r_issued r \<le> r_issued r')"
proof (cases rule: merge_cases [of remote pr r])
  case joined
  let ?n = "max (r_issued r) (highest_counter (Some remote))"
  have r': "res = merged" "r_id r' = r_id r" "r_doc r' = join_node pr (r_doc r) remote" "r_issued r' = ?n"
    using m joined(3) by auto
  have v: "valid_doc (r_doc r)" "valid_doc remote"
    using assms(1,2) joined(1) by (auto simp: replica_ok_def valid_doc_def)
  have own: "own_le (r_id r) (r_issued r) (tags_in (r_doc r))" using assms(1) by (simp add: replica_ok_def)
  have mine: "t \<in> tags_in (r_doc r)" if "t \<in> tags_in remote" "own_counter t (r_id r) \<noteq> None" for t
    using joined(2) that by (auto simp: collides_def set_collect_all_tags Let_def)
  have "own_le (r_id r) (r_issued r) (tags_in remote)"
    using mine own by (fastforce simp: own_le_def)
  then have "own_le (r_id r) (r_issued r) (tags_in (r_doc r) \<union> tags_in remote)"
    using own by simp
  then have "own_le (r_id r) ?n (tags_in (r_doc r'))"
    using valid_join [OF v, of pr] own_le_subset own_le_mono [of "r_id r" "r_issued r" _ ?n]
    by (metis max.cobounded1 r'(3))
  moreover have "valid_doc (r_doc r')" using valid_join [OF v] by (simp add: r'(3))
  ultimately have "replica_ok r'" using assms(1) by (simp add: replica_ok_def r')
  moreover have "orset_at (r_doc r') p = orset_join (orset_at (r_doc r) p) (orset_at remote p)"
    if "set_path w p" for p w
    using orset_at_join [OF _ _ _ _ _ _, of KRoot "r_doc r" remote p w pr] v that
    by (auto simp: valid_doc_iff set_path_def r'(3))
  ultimately show ?thesis
    using highest_counter_bound [of _ remote] r' by (auto simp: le_max_iff_disj)
qed (use m assms(1) in auto)

text \<open>C4. Merging keeps a replica good, whatever arrives. What is refused changes nothing; what is
  merged is, set by set, the join of the two documents, and the counter follows every counter
  the peer has used, up to the ceiling.\<close>

theorem merge_keeps:
  assumes "replica_ok r" "json_wf remote" and m: "merge pr r (Some remote) = (res, r')"
  shows "replica_ok r' \<and> (res \<noteq> merged \<longrightarrow> r' = r) \<and>
    (res = merged \<longrightarrow>
      (\<forall>p v. set_path v p \<longrightarrow> orset_at (r_doc r') p = orset_join (orset_at (r_doc r) p) (orset_at remote p)) \<and>
      (\<forall>t \<in> tags_in remote. st_n (stamp_of t) \<le> kLamportCeiling \<longrightarrow> st_n (stamp_of t) \<le> r_issued r') \<and>
      r_issued r \<le> r_issued r')"
  using assms by (rule merge_good)

text \<open>A document that holds a tag under this replica's id which this replica does not hold is
  refused, and nothing changes: two devices of one id are found out before they are merged.\<close>

theorem merge_finds_twin:
  assumes "validate (Some remote) = None" "t \<in> tags_in remote"
    "own_counter t (r_id r) \<noteq> None" "t \<notin> tags_in (r_doc r)"
  shows "\<exists>u \<in> tags_in remote. merge pr r (Some remote) = (identity_collision u, r) \<and> own_counter u (r_id r) \<noteq> None"
proof (cases rule: merge_cases [of remote pr r])
  case (twin u)
  then show ?thesis by (auto simp: collides_def)
next
  case joined
  have "collides r (Some remote) t"
    using assms(3,4) by (simp add: collides_def set_collect_all_tags Let_def)
  with joined(2) assms(2) show ?thesis by blast
qed (use assms(1) in simp)

section \<open>On disk\<close>

text \<open>C18. Whatever blob is read, a replica that is loaded is good: a counter behind the tags of the
  document is refused with every other damage.\<close>

theorem restored_good:
  assumes "from_bytes ps blob = Inr r" "\<And>j. ps blob = Some j \<Longrightarrow> json_wf j"
  shows "replica_ok r \<and> r_revision r = 0 \<and> r_policy r = default_policy"
proof -
  obtain j i x n where j: "ps blob = Some j" "as_string (get (Some j) (ascii ''id'')) = Some i" "valid_id i = None"
    "as_number (get (Some j) (ascii ''issued'')) = Some x"
    "validate (get (Some j) (ascii ''doc'')) = None" "get (Some j) (ascii ''doc'') = Some n"
    "\<not> list_ex (\<lambda>t. case own_counter t i of Some c \<Rightarrow> c > word_of_int (dbl_trunc x) | None \<Rightarrow> False) (collect_all_tags (Some n) [])"
    "r = \<lparr> r_id = i, r_issued = word_of_int (dbl_trunc x), r_revision = 0, r_doc = n, r_policy = default_policy \<rparr>"
    using assms(1) by (auto simp: from_bytes_def Let_def split: option.splits if_splits)
  have "json_wf n" using get_wf [OF j(6)] assms(2) j(1) by simp
  then have "valid_doc n" using j(5,6) by (simp add: valid_doc_def)
  moreover have "own_le i (word_of_int (dbl_trunc x)) (tags_in n)"
    unfolding own_le_def
  proof (intro ballI allI impI)
    fix t c assume "t \<in> tags_in n" "own_counter t i = Some c"
    then show "c \<le> word_of_int (dbl_trunc x)"
      using j(7) by (auto simp: list_ex_iff set_collect_all_tags not_less)
  qed
  ultimately show ?thesis using j(3,8) by (simp add: replica_ok_def)
qed

lemma counter_round:
  assumes "unat n < 2 ^ 53"
  shows "counter_ok (dbl_of_int (uint n))" "word_of_int (dbl_trunc (dbl_of_int (uint n))) = (n :: 64 word)"
proof -
  have u: "uint n = int (unat n)" by simp
  have "int (unat n) < int (2 ^ 53)" using assms unfolding of_nat_less_iff .
  then have "uint n < 2 ^ 53" unfolding u by (simp only: of_nat_power of_nat_numeral)
  then have n: "\<bar>uint n\<bar> < 2 ^ 53" "uint n \<ge> 0" by simp_all
  note x = dbl_of_int_exact [OF n(1)]
  show "word_of_int (dbl_trunc (dbl_of_int (uint n))) = n" by (simp add: x(1))
  have pos: "\<not> dbl_neg (dbl_of_int (uint n))" "\<not> dbl_neg (dbl_of_int 0)" "dbl_mag (dbl_of_int 0) = 0"
    using dbl_of_int_sign_mag [of "uint n"] dbl_of_int_sign_mag [of 0] n by (simp_all add: dbl_bits_of_nat_def)
  have "dbl_key kMaxCounter = int dbl_2_53" by (simp add: dbl_key_def kMaxCounter_def dbl_neg_def dbl_mag_def dbl_2_53_def)
  then show "counter_ok (dbl_of_int (uint n))"
    using pos x(3,4) by (simp add: counter_ok_def x(1) dbl_eq_def dbl_less_def dbl_key_def)
qed

lemma save_load:
  assumes "replica_ok r" "unat (r_issued r) < 2 ^ 53"
    "ps (to_bytes pr r) = Some (replica_json r)"
  shows "from_bytes ps (to_bytes pr r) = Inr (r\<lparr> r_revision := 0, r_policy := default_policy \<rparr>)"
proof -
  note c = counter_round [OF assms(2)]
  have r: "valid_id (r_id r) = None" "validate (Some (r_doc r)) = None" "json_wf (r_doc r)"
    "own_le (r_id r) (r_issued r) (tags_in (r_doc r))"
    using assms(1) by (auto simp: replica_ok_def valid_doc_def)
  have "dbl_eq (dbl_of_int 1) (dbl_of_int 1)" using dbl_of_int_exact(4) [of 1] by (simp add: dbl_eq_def)
  then have g: "\<not> \<not> (case as_number (get (Some (replica_json r)) (ascii ''palabra_replica'')) of Some x \<Rightarrow> dbl_eq x (dbl_of_int 1) | None \<Rightarrow> False)"
    "as_string (get (Some (replica_json r)) (ascii ''id'')) = Some (r_id r)"
    "as_number (get (Some (replica_json r)) (ascii ''issued'')) = Some (dbl_of_int (uint (r_issued r)))"
    "get (Some (replica_json r)) (ascii ''doc'') = Some (r_doc r)"
    using id_nul_free [OF r(1)] by (simp_all add: replica_json_def mk_int_def mk_string_def)
  have "\<not> list_ex (\<lambda>t. case own_counter t (r_id r) of Some n \<Rightarrow> n > r_issued r | None \<Rightarrow> False)
      (collect_all_tags (Some (r_doc r)) [])"
    using r(4) by (auto simp: list_ex_iff set_collect_all_tags own_le_def not_less split: option.splits)
  then show ?thesis
    using r(1,2) c by (simp add: from_bytes_def assms(3) g Let_def)
qed

text \<open>A good replica whose counter a double can hold comes back from its blob, with the
  revision and the policy reset.\<close>

theorem saved_restored:
  assumes "replica_ok r" "unat (r_issued r) < 2 ^ 53" "ps (to_bytes pr r) = Some (replica_json r)"
  shows "from_bytes ps (to_bytes pr r) = Inr (r\<lparr> r_revision := 0, r_policy := default_policy \<rparr>)"
  using assms by (rule save_load)

section \<open>At concrete inputs\<close>

definition note_replica :: replica where
  "note_replica = \<lparr> r_id = ascii ''abcdefghijklmnop'', r_issued = 0, r_revision = 0, r_doc = empty_root,
     r_policy = default_policy \<rparr>"

lemma note_replica_ok: "replica_ok note_replica"
proof -
  have "valid_id (ascii ''abcdefghijklmnop'') = None" by code_simp
  then have "create (ascii ''abcdefghijklmnop'') = Inr note_replica" by (simp add: create_def note_replica_def)
  then show ?thesis by (rule create_ok)
qed





text \<open>A state of one declaration, which cannot be refused.\<close>

definition glyph_state :: json where
  "glyph_state = JObject [(ascii ''glyphs'', JObject [(ascii ''g'', JObject [(ascii ''kind'', JTrue)])])]"

lemma glyph_state_ok: "state_ok (Some glyph_state)"
  by (simp add: state_ok_def glyph_state_def storable_def kMaxDepth_def nul_free_ascii) (simp add: ascii_def)

lemma quiet_then: "\<forall>e. fst (a e) = None \<Longrightarrow> \<forall>e. fst (b e) = None \<Longrightarrow> \<forall>e. fst (ed_then a b e) = None"
  by (auto simp: ed_then_def split: prod.split option.split) (metis fst_conv option.distinct(1))

lemma quiet_each: "\<forall>x. \<forall>e. fst (f x e) = None \<Longrightarrow> \<forall>e. fst (ed_each f xs e) = None"
  by (induction xs) (auto simp: ed_ok_def intro: quiet_then [rule_format])

lemma quiet_steps:
  "fst (make_present i p b e) = None" "fst (sync_register i policy p field new e) = None" "fst (ed_remove p dead e) = None"
  by (simp_all add: make_present_def sync_register_def ed_remove_def Let_def)

lemma glyph_observed: "\<exists>n sent r'. observe note_replica (Some glyph_state) = (Inr (n, sent), r')"
proof -
  let ?g = "JObject [(ascii ''g'', JObject [(ascii ''kind'', JTrue)])]"
  have st: "get (Some glyph_state) (ascii ''glyphs'') = Some ?g" "get (Some glyph_state) (ascii ''mantles'') = None"
    "is_JObject (Some glyph_state)"
    by (simp_all add: glyph_state_def)
  obtain m where m: "file_glyphs (members (Some ?g)) = Inr m"
  proof -
    have "canon_ok (file_glyphs (members (Some ?g)))" by code_simp
    then show ?thesis using that by (auto simp: canon_ok_Inr)
  qed
  have "fst (observe_into i policy (Some glyph_state) e) = None" for i policy e
    unfolding observe_into_def Let_def st using st(3) m
    by (simp add: ed_canon_def, intro quiet_then [rule_format] quiet_each [rule_format])
       (auto simp: remove_gone_def Let_def quiet_steps ed_ok_def intro!: quiet_then [rule_format] quiet_each [rule_format])
  from this [of "r_id note_replica" "r_policy note_replica" "start_edit note_replica"]
  show ?thesis
    by (cases "observe_into (r_id note_replica) (r_policy note_replica) (Some glyph_state) (start_edit note_replica)")
       (simp add: observe_def)
qed

theorem observe_delta_witness:
  "\<exists>n sent r'. observe note_replica (Some glyph_state) = (Inr (n, sent), r') \<and> validate (Some sent) = None \<and>
    orset_at (join_node (\<lambda>_. []) (r_doc note_replica) sent) [ascii ''glyphs'', ascii ''g'', ascii ''present''] =
    orset_at (r_doc r') [ascii ''glyphs'', ascii ''g'', ascii ''present'']"
proof -
  obtain n sent r' where o: "observe note_replica (Some glyph_state) = (Inr (n, sent), r')"
    using glyph_observed by blast
  have "state_cost (Some glyph_state) = 2" by code_simp
  then have "has_room note_replica (state_cost (Some glyph_state))"
    by (simp add: has_room_def note_replica_def mint_limit_def)
  moreover have "set_path AnyBytes [ascii ''glyphs'', ascii ''g'', ascii ''present'']"
  proof -
    have "kind_at KRoot [ascii ''glyphs'', ascii ''g'', ascii ''present''] = Some (KSet AnyBytes)" by code_simp
    then show ?thesis by (simp add: set_path_def nul_free_ascii del: kind_at.simps)
  qed
  ultimately show ?thesis
    using observe_delta [OF note_replica_ok glyph_state_ok _ o, of "\<lambda>_. []"] o by blast
qed

theorem merge_keeps_witness:
  "replica_ok (snd (merge (\<lambda>_. []) note_replica (Some note_doc)))"
proof -
  obtain res r' where m: "merge (\<lambda>_. []) note_replica (Some note_doc) = (res, r')"
    by (cases "merge (\<lambda>_. []) note_replica (Some note_doc)")
  show ?thesis using merge_keeps [OF note_replica_ok note_wf m] m by simp
qed

text \<open>A replica that reuses the id \<^verbatim>\<open>a\<close> of the note and has written nothing yet.\<close>

definition twin_replica :: replica where
  "twin_replica = note_replica\<lparr> r_id := ascii ''a'' \<rparr>"

theorem merge_finds_twin_witness:
  "\<exists>u \<in> tags_in note_doc. merge (\<lambda>_. []) twin_replica (Some note_doc) = (identity_collision u, twin_replica) \<and>
    own_counter u (r_id twin_replica) \<noteq> None"
proof (rule merge_finds_twin [OF note_valid, of "ascii ''a_1''"])
  let ?s = "orset_add (ascii ''a_1'') (ascii ''1'') orset_new"
  have "kind_at KRoot [ascii ''mantles'', ascii ''m'', ascii ''present''] = Some (KSet AnyBytes)"
    by code_simp
  moreover have "node_at (Some note_doc) [ascii ''mantles'', ascii ''m'', ascii ''present''] = Some (orset_to_json ?s)"
    by (simp add: note_doc_def nul_free_ascii)
  ultimately have "orset_tags (orset_from_json (Some (orset_to_json ?s))) \<subseteq> tags_in note_doc"
    using orset_at_good [of note_doc "[ascii ''mantles'', ascii ''m'', ascii ''present'']" AnyBytes] note_valid note_wf
    by (simp add: orset_at_def valid_doc_def nul_free_ascii)
  moreover have "ascii ''a_1'' \<in> orset_tags (orset_from_json (Some (orset_to_json ?s)))"
    unfolding orset_tags_def by code_simp
  ultimately show "ascii ''a_1'' \<in> tags_in note_doc" by blast
  have "own_counter (ascii ''a_1'') (ascii ''a'') \<noteq> None" by code_simp
  then show "own_counter (ascii ''a_1'') (r_id twin_replica) \<noteq> None"
    by (simp add: twin_replica_def)
  show "ascii ''a_1'' \<notin> tags_in (r_doc twin_replica)"
    by (simp add: twin_replica_def note_replica_def empty_doc)
qed

lemma note_replica_loads:
  "from_bytes (\<lambda>_. Some (replica_json note_replica)) (to_bytes (\<lambda>_. []) note_replica) =
   Inr (note_replica\<lparr> r_revision := 0, r_policy := default_policy \<rparr>)"
  using note_replica_ok by (rule save_load) (simp_all add: note_replica_def)

theorem restored_good_witness:
  "replica_ok (note_replica\<lparr> r_revision := 0, r_policy := default_policy \<rparr>)"
proof -
  have "json_wf empty_root" using empty_doc(1) by (simp add: valid_doc_def)
  then have "json_wf (replica_json note_replica)"
    by (simp add: replica_json_def note_replica_def mk_int_def mk_string_def nul_free_ascii)
  then show ?thesis using restored_good [OF note_replica_loads] by simp
qed

theorem saved_restored_witness:
  "from_bytes (\<lambda>_. Some (replica_json note_replica)) (to_bytes (\<lambda>_. []) note_replica) =
   Inr (note_replica\<lparr> r_revision := 0, r_policy := default_policy \<rparr>)"
  using note_replica_ok by (rule saved_restored) (simp_all add: note_replica_def)

end
