(* ===== verification/Sharing.thy ===== *)
theory Sharing
  imports Device
begin

text \<open>
  The shareable projection of a replica's document (\<^verbatim>\<open>src/sync/export.cpp\<close>). The host's
  \<^verbatim>\<open>ExportSet\<close> is a function the host supplies, or null: \<open>share\<close> is an option. A loop over the
  children of an object visits its members.
\<close>

type_synonym export_set = "(bytes \<Rightarrow> bytes \<Rightarrow> bool) option"

definition share_everything :: export_set where
  "share_everything = Some (\<lambda>_ _. True)"

definition allowed :: "export_set \<Rightarrow> bytes \<Rightarrow> bytes \<Rightarrow> bool" where
  "allowed share m r = (case share of None \<Rightarrow> True | Some f \<Rightarrow> f m r)"

definition was_removed :: "json option \<Rightarrow> bool" where
  "was_removed n \<longleftrightarrow>
     (let p = orset_from_json (get n (ascii ''present'')) in orset_empty p \<and> removes p \<noteq> [])"

definition shown_name :: "json option \<Rightarrow> join_policy \<Rightarrow> bytes" where
  "shown_name rune policy =
     (case lvalues (resolve (get (get rune (ascii ''fields'')) (ascii ''spirit.name'')) (lookup policy (ascii ''spirit.name''))) of
        [] \<Rightarrow> []
      | v # _ \<Rightarrow> str_or (decode v) [])"

definition removal_only :: "json option \<Rightarrow> json" where
  "removal_only node = JObject (add_opt [] (ascii ''present'') (get node (ascii ''present'')))"

type_synonym names_by_mantle = "(bytes, bytes list) omap"

definition names_withheld :: "json option \<Rightarrow> bytes \<Rightarrow> bytes list \<Rightarrow> names_by_mantle \<Rightarrow> bool" where
  "names_withheld e own wm wn =
     (let hidden = (\<lambda>mantle rune. mantle \<in> set wm \<or>
             (case map_of wn mantle of None \<Rightarrow> False | Some names \<Rightarrow> rune \<in> set names))
      in case as_string e of Some s \<Rightarrow> hidden own s
         | None \<Rightarrow>
             if is_JObject e then hidden (str_or (get e (ascii ''mantle'')) own) (str_or (get e (ascii ''rune'')) [])
             else False)"

text \<open>Pass 1: the withheld mantles, and in each other mantle the names its withheld runes show.\<close>

definition hidden_names :: "export_set \<Rightarrow> join_policy \<Rightarrow> bytes \<Rightarrow> json option \<Rightarrow> bytes list \<Rightarrow> bytes list" where
  "hidden_names share policy mname m names =
     foldl (\<lambda>ns r. if allowed share mname (fst r) then ns else os_insert (shown_name (Some (snd r)) policy) ns)
       names (members (get m (ascii ''runes'')))"

definition withhold_step ::
    "export_set \<Rightarrow> join_policy \<Rightarrow> bytes list \<times> names_by_mantle \<Rightarrow> bytes \<times> json \<Rightarrow> bytes list \<times> names_by_mantle" where
  "withhold_step share policy st m =
     (if \<not> allowed share (fst m) [] then (os_insert (fst m) (fst st), snd st)
      else let names = (case map_of (snd st) (fst m) of None \<Rightarrow> [] | Some ns \<Rightarrow> ns)
           in (fst st, om_put (fst m) (hidden_names share policy (fst m) (Some (snd m)) names) (snd st)))"

definition withheld :: "export_set \<Rightarrow> join_policy \<Rightarrow> (bytes \<times> json) list \<Rightarrow> bytes list \<times> names_by_mantle" where
  "withheld share policy ms = foldl (withhold_step share policy) ([], []) ms"

text \<open>Pass 2: what may leave.\<close>

definition export_rune :: "export_set \<Rightarrow> bytes \<Rightarrow> bytes \<times> json \<Rightarrow> (bytes \<times> json) option" where
  "export_rune share mname r =
     (if allowed share mname (fst r) then Some r
      else if was_removed (Some (snd r)) then Some (fst r, removal_only (Some (snd r)))
      else None)"

definition edge_leaks :: "bytes \<Rightarrow> bytes list \<Rightarrow> names_by_mantle \<Rightarrow> bytes \<Rightarrow> bool" where
  "edge_leaks mname wm wn v =
     (let e = decode v in
      e \<noteq> None \<and> (names_withheld (get e (ascii ''from'')) mname wm wn \<or>
                   names_withheld (get e (ascii ''to'')) mname wm wn))"

definition export_edges :: "bytes \<Rightarrow> bytes list \<Rightarrow> names_by_mantle \<Rightarrow> json option \<Rightarrow> orset" where
  "export_edges mname wm wn edges =
     (let s = orset_from_json edges in s\<lparr> adds := filter (\<lambda>kv. \<not> edge_leaks mname wm wn (snd kv)) (adds s) \<rparr>)"

definition export_mantle ::
    "export_set \<Rightarrow> bytes list \<Rightarrow> names_by_mantle \<Rightarrow> bytes \<times> json \<Rightarrow> (bytes \<times> json) option" where
  "export_mantle share wm wn m =
     (let n = Some (snd m) in
      if fst m \<in> set wm then
        if was_removed n then Some (fst m, removal_only n) else None
      else
        let mo = add_opt [] (ascii ''present'') (get n (ascii ''present''));
            mo = add_opt mo (ascii ''fields'') (get n (ascii ''fields''));
            mo = add_member mo (ascii ''runes'')
                   (JObject (List.map_filter (export_rune share (fst m)) (members (get n (ascii ''runes'')))));
            edges = get n (ascii ''edges'')
        in Some (fst m, JObject (if edges = None then mo
             else add_member mo (ascii ''edges'') (orset_to_json (export_edges (fst m) wm wn edges)))))"

definition exportable :: "doc \<Rightarrow> export_set \<Rightarrow> join_policy \<Rightarrow> doc" where
  "exportable doc share policy =
     (let ms = members (get doc (ascii ''mantles''));
          (wm, wn) = withheld share policy ms
      in Some (JObject (add_opt
           [(ascii ''palabra'', mk_int 1),
            (ascii ''mantles'', JObject (List.map_filter (export_mantle share wm wn) ms))]
           (ascii ''glyphs'') (get doc (ascii ''glyphs'')))))"

section \<open>Nothing withheld leaves\<close>








lemma names_apart:
  "ascii ''present'' \<noteq> ascii ''fields''" "ascii ''present'' \<noteq> ascii ''runes''" "ascii ''fields'' \<noteq> ascii ''runes''"
  "ascii ''edges'' \<noteq> ascii ''runes''" "ascii ''glyphs'' \<noteq> ascii ''mantles''" "ascii ''palabra'' \<noteq> ascii ''mantles''"
  by code_simp+

lemma add_opt_get:
  "nul_free k \<Longrightarrow> map_of (add_opt ms k v) q = (if q = k \<and> map_of ms k = None then v else map_of ms q)"
  by (auto simp: add_opt_def add_member_def map_add_def split: option.split)







lemma withheld_mantles: "set (fst (foldl (withhold_step share policy) st ms)) =
    set (fst st) \<union> {fst m |m. m \<in> set ms \<and> \<not> allowed share (fst m) []}"
  by (induction ms arbitrary: st) (auto simp: withhold_step_def Let_def set_os_insert)





section \<open>What leaves can be merged\<close>

lemma export_edges_good:
  assumes "set_ok CanonicalValue n" "json_wf n"
  shows "good_set CanonicalValue (export_edges mname wm wn (Some n))"
proof -
  have "om_ok (filter P m)" if "om_ok m" for P and m :: "(bytes, bytes) omap" using that by simp
  then show ?thesis
    using good_set_from_json [OF assms]
    by (auto simp: good_set_def export_edges_def Let_def orset_wf_def tags_printable_def)
qed

lemma removal_only_conforms:
  assumes "conforms K n" "json_wf n" "is_object_kind K" "child K (ascii ''present'') = Some (KSet AnyBytes)"
  shows "conforms K (removal_only (Some n)) \<and> json_wf (removal_only (Some n))"
proof (cases "get (Some n) (ascii ''present'')")
  case None
  then show ?thesis using assms(3) empty_object by (simp add: removal_only_def add_opt_def)
next
  case (Some p)
  then show ?thesis
    using conforms_get [OF assms(1,3) Some] get_wf [OF Some assms(2)] assms(3,4)
    by (auto simp: removal_only_def add_opt_def add_member_def conforms_object distinct_members_def nul_free_ascii)
qed

lemma fst_map_filter:
  assumes "\<And>kv kv'. f kv = Some kv' \<Longrightarrow> fst kv' = fst kv"
  shows "map fst (List.map_filter f ms) = map fst (filter (\<lambda>kv. f kv \<noteq> None) ms)"
proof (induction ms)
  case (Cons kv ms)
  then show ?case using assms [of kv] by (cases "f kv") (simp_all add: List.map_filter_simps)
qed (simp add: List.map_filter_simps)

lemma map_filter_conforms:
  assumes L: "is_object_kind L" "\<And>k. k \<noteq> [] \<Longrightarrow> child L k = Some K" and n: "conforms L (JObject ms)" "json_wf (JObject ms)"
    and f: "\<And>kv kv'. f kv = Some kv' \<Longrightarrow> fst kv' = fst kv"
      "\<And>k v kv'. conforms K v \<Longrightarrow> json_wf v \<Longrightarrow> f (k, v) = Some kv' \<Longrightarrow> conforms K (snd kv') \<and> json_wf (snd kv')"
    and e: "child L [] = None"
  shows "conforms L (JObject (List.map_filter f ms)) \<and> json_wf (JObject (List.map_filter f ms))"
proof -
  have d: "distinct (map fst ms)" using n(1) by (simp add: conforms_object [OF L(1)] distinct_members_def)
  have "distinct (map fst (List.map_filter f ms))"
    using distinct_map_filter [OF d, of "\<lambda>kv. f kv \<noteq> None"] fst_map_filter [of f ms, OF f(1)] by simp
  moreover have "child L (fst kv) = Some K \<and> conforms K (snd kv) \<and> json_wf (snd kv) \<and> nul_free (fst kv)"
    if kv: "kv \<in> set (List.map_filter f ms)" for kv
  proof -
    obtain x where x: "x \<in> set ms" "f x = Some kv" using kv by (auto simp: List.map_filter_def)
    have "(fst x, snd x) \<in> set ms" using x(1) by simp
    moreover have "\<forall>k v. (k, v) \<in> set ms \<longrightarrow> (\<exists>K'. child L k = Some K' \<and> conforms K' v)"
      using n(1) unfolding conforms_object [OF L(1)] by simp
    ultimately obtain K' where K': "child L (fst x) = Some K'" "conforms K' (snd x)" by blast
    have "K' = K" using K'(1) L(2) [of "fst x"] e by (cases "fst x = []") auto
    moreover have "json_wf (snd x)" "nul_free (fst x)" using n(2) x(1) by auto
    ultimately show ?thesis using K' f(1) [OF x(2)] f(2) [of "snd x" "fst x" kv] x(2) by simp
  qed
  ultimately show ?thesis
    by (auto simp: conforms_object [OF L(1)] distinct_members_def)
qed

lemma export_rune_conforms:
  assumes "conforms KRune v" "json_wf v" "export_rune share mname (k, v) = Some kv'"
  shows "conforms KRune (snd kv') \<and> json_wf (snd kv')"
  using assms removal_only_conforms [OF assms(1,2)] by (auto simp: export_rune_def split: if_splits)

lemma member_conforms:
  assumes "conforms K n" "json_wf n" "is_object_kind K" "get (Some n) k = Some v" "child K k = Some K'"
  shows "conforms K' v \<and> json_wf v"
  using conforms_get [OF assms(1,3,4)] get_wf [OF assms(4,2)] assms(5) by auto

lemma export_mantle_conforms:
  assumes m: "conforms KMantle v" "json_wf v" and e: "export_mantle share wm wn (k, v) = Some kv'"
  shows "conforms KMantle (snd kv') \<and> json_wf (snd kv')"
proof (cases "k \<in> set wm")
  case True
  then show ?thesis using e removal_only_conforms [OF m] by (auto simp: export_mantle_def Let_def split: if_splits)
next
  case False
  let ?runes = "JObject (List.map_filter (export_rune share k) (members (get (Some v) (ascii ''runes''))))"
  let ?edges = "map_option (\<lambda>n. orset_to_json (export_edges k wm wn (Some n))) (get (Some v) (ascii ''edges''))"
  note mem = member_conforms [OF m]
  have r: "conforms KRunes ?runes \<and> json_wf ?runes"
  proof (cases "get (Some v) (ascii ''runes'')")
    case None
    then show ?thesis using empty_object [of KRunes] by (simp add: List.map_filter_simps)
  next
    case (Some rs)
    have rs: "conforms KRunes rs \<and> json_wf rs" using mem [OF _ Some] by simp
    then obtain ms where ms: "rs = JObject ms" by (meson conforms_json_object is_object_kind.simps)
    have "conforms KRunes (JObject (List.map_filter (export_rune share k) ms)) \<and>
        json_wf (JObject (List.map_filter (export_rune share k) ms))"
    proof (rule map_filter_conforms [where K = KRune])
      show "fst kv' = fst kv" if "export_rune share k kv = Some kv'" for kv kv'
        using that by (auto simp: export_rune_def split: if_splits)
    qed (use rs ms export_rune_conforms in simp_all)
    then show ?thesis by (simp add: Some ms)
  qed
  have ed: "conforms (KSet CanonicalValue) j \<and> json_wf j" if j: "?edges = Some j" for j
  proof -
    obtain n where n: "get (Some v) (ascii ''edges'') = Some n" "j = orset_to_json (export_edges k wm wn (Some n))"
      using j by auto
    have "conforms (KSet CanonicalValue) n \<and> json_wf n" using mem [OF _ n(1)] by simp
    then show ?thesis using good_set_to_json [OF export_edges_good] n(2) by simp
  qed
  let ?out = "add_opt (add_member (add_opt (add_opt [] (ascii ''present'') (get (Some v) (ascii ''present'')))
      (ascii ''fields'') (get (Some v) (ascii ''fields''))) (ascii ''runes'') ?runes) (ascii ''edges'') ?edges"
  have out: "snd kv' = JObject ?out"
    using e False by (cases "get (Some v) (ascii ''edges'')") (auto simp: export_mantle_def Let_def add_opt_def)
  have "conforms KMantle (JObject ?out) \<and> json_wf (JObject ?out)"
    using r ed mem [of "ascii ''present''" _ "KSet AnyBytes"] mem [of "ascii ''fields''" _ KMantleFields]
    by (cases "get (Some v) (ascii ''present'')"; cases "get (Some v) (ascii ''fields'')"; cases ?edges)
       (auto simp: add_opt_def add_member_def conforms_object [of KMantle] distinct_members_def nul_free_ascii)
  then show ?thesis unfolding out .
qed

lemma export_valid:
  assumes "valid_doc d"
  obtains out where "exportable (Some d) share policy = Some out" "valid_doc out"
proof -
  obtain wm wn where w: "withheld share policy (members (get (Some d) (ascii ''mantles''))) = (wm, wn)"
    by (cases "withheld share policy (members (get (Some d) (ascii ''mantles'')))")
  let ?ms = "JObject (List.map_filter (export_mantle share wm wn) (members (get (Some d) (ascii ''mantles''))))"
  let ?out = "JObject (add_opt [(ascii ''palabra'', mk_int 1), (ascii ''mantles'', ?ms)]
      (ascii ''glyphs'') (get (Some d) (ascii ''glyphs'')))"
  have d: "conforms KRoot d" "json_wf d" using assms by (auto simp: valid_doc_iff)
  note mem = member_conforms [OF d]
  have ms: "conforms KMantles ?ms \<and> json_wf ?ms"
  proof (cases "get (Some d) (ascii ''mantles'')")
    case None
    then show ?thesis using empty_object [of KMantles] by (simp add: List.map_filter_simps)
  next
    case (Some mo)
    have mo: "conforms KMantles mo \<and> json_wf mo" using mem [OF _ Some] by simp
    then obtain ms where ms: "mo = JObject ms" by (meson conforms_json_object is_object_kind.simps)
    have "conforms KMantles (JObject (List.map_filter (export_mantle share wm wn) ms)) \<and>
        json_wf (JObject (List.map_filter (export_mantle share wm wn) ms))"
    proof (rule map_filter_conforms [where K = KMantle])
      show "fst kv' = fst kv" if "export_mantle share wm wn kv = Some kv'" for kv kv'
        using that by (auto simp: export_mantle_def Let_def split: if_splits)
    qed (use mo ms export_mantle_conforms in simp_all)
    then show ?thesis by (simp add: Some ms)
  qed
  have v: "json_wf (mk_int 1)" by (simp add: mk_int_def)
  have "valid_doc ?out"
    using ms v mem [of "ascii ''glyphs''" _ KGlyphs]
    by (cases "get (Some d) (ascii ''glyphs'')")
       (auto simp: valid_doc_iff add_opt_def add_member_def conforms_object [of KRoot] distinct_members_def nul_free_ascii)
  then show ?thesis using that w by (simp add: exportable_def)
qed

lemma map_of_map_filter:
  assumes "distinct (map fst ms)" "\<And>kv kv'. f kv = Some kv' \<Longrightarrow> fst kv' = fst kv"
  shows "map_of (List.map_filter f ms) k = (case map_of ms k of None \<Rightarrow> None | Some v \<Rightarrow> map_option snd (f (k, v)))"
  using assms(1)
proof (induction ms)
  case (Cons kv ms)
  obtain a v where kv: "kv = (a, v)" by (cases kv)
  have "map_of ms a = None" using Cons.prems kv by (simp add: map_of_eq_None_iff)
  then show ?case
    using Cons assms(2) [of kv] kv
    by (cases "f kv") (auto simp: List.map_filter_simps split: option.splits)
qed (simp add: List.map_filter_simps)

text \<open>The mantle \<open>k\<close> of the export.\<close>

lemma export_at:
  assumes d: "valid_doc d" and out: "exportable (Some d) share policy = Some out"
    and w: "withheld share policy (members (get (Some d) (ascii ''mantles''))) = (wm, wn)" and k: "nul_free k"
  shows "node_at (Some out) (ascii ''mantles'' # k # p) =
    node_at (case node_at (Some d) [ascii ''mantles'', k] of None \<Rightarrow> None
             | Some m \<Rightarrow> map_option snd (export_mantle share wm wn (k, m))) p"
proof -
  let ?ms = "members (get (Some d) (ascii ''mantles''))"
  have r: "conforms KRoot d" "json_wf d" using d by (auto simp: valid_doc_iff)
  have distinct: "distinct (map fst ?ms)"
  proof (cases "get (Some d) (ascii ''mantles'')")
    case (Some mo)
    have "conforms KMantles mo" using member_conforms [OF r _ Some] by simp
    then show ?thesis using Some by (simp add: conforms_object distinct_members_def)
  qed simp
  have "get (Some out) (ascii ''mantles'') = Some (JObject (List.map_filter (export_mantle share wm wn) ?ms))"
    using out w names_apart by (auto simp: exportable_def Let_def add_opt_def add_member_def nul_free_ascii split: option.splits)
  moreover have "map_of (List.map_filter (export_mantle share wm wn) ?ms) k =
      (case map_of ?ms k of None \<Rightarrow> None | Some m \<Rightarrow> map_option snd (export_mantle share wm wn (k, m)))"
    using distinct by (rule map_of_map_filter) (auto simp: export_mantle_def Let_def split: if_splits)
  ultimately show ?thesis using k by (simp add: nul_free_ascii get_def split: option.split)
qed

lemma mantle_of_valid:
  assumes d: "valid_doc d" and k: "nul_free k" and m: "node_at (Some d) [ascii ''mantles'', k] = Some mv"
  shows "conforms KMantle mv \<and> json_wf mv"
proof -
  have r: "conforms KRoot d" "json_wf d" using d by (auto simp: valid_doc_iff)
  obtain mo where mo: "get (Some d) (ascii ''mantles'') = Some mo"
    using m by (cases "get (Some d) (ascii ''mantles'')") (auto simp: nul_free_ascii)
  have "conforms KMantles mo" using member_conforms [OF r _ mo] by simp
  moreover have "get (Some mo) k = Some mv" using m mo k by (simp add: nul_free_ascii)
  ultimately obtain K' where "child KMantles k = Some K'" using conforms_get by fastforce
  then have "k \<noteq> []" by (auto split: if_splits)
  then show ?thesis using node_at_kind [OF r _ _ m, of KMantle] k by (auto simp: nul_free_ascii)
qed

text \<open>Where an endpoint of a link points: the mantle and the name.\<close>

definition link_end :: "json option \<Rightarrow> bytes \<Rightarrow> (bytes \<times> bytes) option" where
  "link_end e own =
     (case as_string e of Some s \<Rightarrow> Some (own, s)
      | None \<Rightarrow> if is_JObject e then Some (str_or (get e (ascii ''mantle'')) own, str_or (get e (ascii ''rune'')) [])
                else None)"

text \<open>The mantle \<open>m\<close>, or every rune of it that shows the name \<open>s\<close>, may leave.\<close>

definition free_to_name :: "export_set \<Rightarrow> join_policy \<Rightarrow> json \<Rightarrow> bytes \<Rightarrow> bytes \<Rightarrow> bool" where
  "free_to_name share policy d m s \<longleftrightarrow>
     (\<forall>kv \<in> set (members (get (Some d) (ascii ''mantles''))). fst kv = m \<longrightarrow>
        allowed share m [] \<and>
        (\<forall>r \<in> set (members (get (Some (snd kv)) (ascii ''runes''))).
           shown_name (Some (snd r)) policy = s \<longrightarrow> allowed share m (fst r)))"

lemma hidden_names_set:
  "set (hidden_names share policy k m names) =
   set names \<union> (\<lambda>r. shown_name (Some (snd r)) policy) ` {r \<in> set (members (get m (ascii ''runes''))). \<not> allowed share k (fst r)}"
proof -
  let ?shown = "\<lambda>r :: bytes \<times> json. shown_name (Some (snd r)) policy"
  have "set (foldl (\<lambda>ns r. if allowed share k (fst r) then ns else os_insert (?shown r) ns) names rs) =
      set names \<union> ?shown ` {r \<in> set rs. \<not> allowed share k (fst r)}" for rs
  proof (induction rs arbitrary: names)
    case (Cons r rs)
    have "{x \<in> set (r # rs). \<not> allowed share k (fst x)} =
        (if allowed share k (fst r) then {} else {r}) \<union> {x \<in> set rs. \<not> allowed share k (fst x)}" by auto
    then show ?case using Cons.IH by (simp add: set_os_insert)
  qed simp
  then show ?thesis by (simp add: hidden_names_def)
qed

lemma withheld_names:
  "om_ok (snd st) \<Longrightarrow> kv \<in> set ms \<Longrightarrow> allowed share (fst kv) [] \<Longrightarrow> r \<in> set (members (get (Some (snd kv)) (ascii ''runes''))) \<Longrightarrow>
   \<not> allowed share (fst kv) (fst r) \<Longrightarrow>
   \<exists>names. map_of (snd (foldl (withhold_step share policy) st ms)) (fst kv) = Some names \<and>
     shown_name (Some (snd r)) policy \<in> set names"
proof (induction ms arbitrary: st)
  case (Cons m ms)
  have keep: "\<exists>names. map_of (snd (foldl (withhold_step share policy) st ms)) k = Some names \<and> s \<in> set names"
    if "om_ok (snd st)" "map_of (snd st) k = Some ns" "s \<in> set ns" for st k ns s
    using that
  proof (induction ms arbitrary: st ns)
    case (Cons m ms)
    let ?st = "withhold_step share policy st m"
    have "om_ok (snd ?st)" using Cons.prems(1) by (simp add: withhold_step_def Let_def)
    moreover have "\<exists>ns'. map_of (snd ?st) k = Some ns' \<and> s \<in> set ns'"
      using Cons.prems by (auto simp: withhold_step_def Let_def hidden_names_set)
    ultimately show ?case using Cons.IH [of ?st] by auto
  qed auto
  let ?st = "withhold_step share policy st m"
  have o: "om_ok (snd ?st)" using Cons.prems(1) by (simp add: withhold_step_def Let_def)
  show ?case
  proof (cases "m = kv")
    case True
    have "\<exists>ns'. map_of (snd ?st) (fst kv) = Some ns' \<and> shown_name (Some (snd r)) policy \<in> set ns'"
      using True Cons.prems(1,3-5) by (auto simp: withhold_step_def Let_def hidden_names_set)
    then show ?thesis using keep [OF o] by auto
  next
    case False
    then show ?thesis using Cons.IH [OF o] Cons.prems by simp
  qed
qed simp

text \<open>C35. No link that leaves names something withheld: for both ends of every link of the export, live
  or retired, the mantle it names may leave and so may every rune that shows that name there.\<close>

theorem exported_links:
  assumes d: "valid_doc d" and out: "exportable (Some d) share policy = Some out" and k: "nul_free k"
    and e: "(t, v) \<in> set (adds (orset_at out [ascii ''mantles'', k, ascii ''edges'']))" "decode v = Some e"
    and l: "link_end (get (Some e) which) k = Some (m, s)" "which \<in> {ascii ''from'', ascii ''to''}"
  shows "free_to_name share policy d m s"
proof -
  let ?ms = "members (get (Some d) (ascii ''mantles''))"
  obtain wm wn where w: "withheld share policy ?ms = (wm, wn)" by (cases "withheld share policy ?ms")
  have leaks: "\<not> edge_leaks k wm wn v"
  proof (cases "node_at (Some d) [ascii ''mantles'', k]")
    case None
    then have "orset_at out [ascii ''mantles'', k, ascii ''edges''] = orset_new"
      using export_at [OF d out w k, of "[ascii ''edges'']"] by (simp add: orset_at_def)
    with e(1) show ?thesis by (simp add: orset_new_def)
  next
    case (Some mv)
    have mv: "conforms KMantle mv" "json_wf mv" using mantle_of_valid [OF d k Some] by auto
    have at: "orset_at out [ascii ''mantles'', k, ascii ''edges''] =
        orset_from_json (get (map_option snd (export_mantle share wm wn (k, mv))) (ascii ''edges''))"
      using export_at [OF d out w k, of "[ascii ''edges'']"] Some by (simp add: orset_at_def nul_free_ascii)
    show ?thesis
    proof (cases "k \<in> set wm \<or> get (Some mv) (ascii ''edges'') = None")
      case True
      have "get (map_option snd (export_mantle share wm wn (k, mv))) (ascii ''edges'') = None"
        using True by (auto simp: export_mantle_def Let_def removal_only_def add_opt_get add_member_def add_opt_def nul_free_ascii split: option.split)
      then show ?thesis using e(1) at by (simp add: orset_new_def)
    next
      case False
      then obtain es where es: "k \<notin> set wm" "get (Some mv) (ascii ''edges'') = Some es" by blast
      have "set_ok CanonicalValue es" "json_wf es" using member_conforms [OF mv _ es(2)] by auto
      then have g: "good_set CanonicalValue (export_edges k wm wn (Some es))" by (rule export_edges_good)
      have "get (map_option snd (export_mantle share wm wn (k, mv))) (ascii ''edges'') =
          Some (orset_to_json (export_edges k wm wn (Some es)))"
        using es by (auto simp: export_mantle_def Let_def add_opt_def add_member_def nul_free_ascii split: option.split)
      then have "orset_at out [ascii ''mantles'', k, ascii ''edges''] = export_edges k wm wn (Some es)"
        using at g orset_from_to_json by (auto simp: good_set_def)
      then show ?thesis using e(1) by (simp add: export_edges_def Let_def)
    qed
  qed
  then have n: "\<not> names_withheld (get (Some e) which) k wm wn"
    using e(2) l(2) by (auto simp: edge_leaks_def)
  have hidden: "names_withheld x k wm wn \<longleftrightarrow> m \<in> set wm \<or> (case map_of wn m of None \<Rightarrow> False | Some names \<Rightarrow> s \<in> set names)"
    if "link_end x k = Some (m, s)" for x
    using that by (auto simp: names_withheld_def link_end_def Let_def split: option.splits if_splits)
  have m: "m \<notin> set wm" "\<And>names. map_of wn m = Some names \<Longrightarrow> s \<notin> set names"
    using n hidden [OF l(1)] by auto
  have wm: "set wm = {fst m |m. m \<in> set ?ms \<and> \<not> allowed share (fst m) []}"
    using withheld_mantles [of share policy "([], [])" ?ms] w by (simp add: withheld_def)
  show ?thesis
    unfolding free_to_name_def
  proof (intro ballI impI conjI)
    fix kv assume kv: "kv \<in> set ?ms" "fst kv = m"
    show a: "allowed share m []" using m(1) kv unfolding wm by blast
    fix r assume r: "r \<in> set (members (get (Some (snd kv)) (ascii ''runes'')))" "shown_name (Some (snd r)) policy = s"
    show "allowed share m (fst r)"
    proof (rule ccontr)
      assume "\<not> allowed share m (fst r)"
      then have "\<exists>names. map_of wn m = Some names \<and> s \<in> set names"
        using withheld_names [of "([], [])" kv ?ms share r policy] kv r a w by (simp add: withheld_def)
      then show False using m(2) by blast
    qed
  qed
qed

text \<open>What leaves a valid document is a valid document, so that no peer refuses it; and a removal is
  never withheld: the presence of a removed rune leaves whole, whatever the host says of it.\<close>

theorem export_accepted:
  assumes d: "valid_doc d" and k: "nul_free k" "allowed share k []" "nul_free r"
    and rune: "node_at (Some d) [ascii ''mantles'', k, ascii ''runes'', r] = Some n" "was_removed (Some n)"
  shows "\<exists>out. exportable (Some d) share policy = Some out \<and> validate (Some out) = None \<and>
    orset_at out [ascii ''mantles'', k, ascii ''runes'', r, ascii ''present''] =
    orset_at d [ascii ''mantles'', k, ascii ''runes'', r, ascii ''present'']"
proof -
  let ?ms = "members (get (Some d) (ascii ''mantles''))"
  obtain out where out: "exportable (Some d) share policy = Some out" "valid_doc out"
    using d by (rule export_valid)
  obtain wm wn where w: "withheld share policy ?ms = (wm, wn)" by (cases "withheld share policy ?ms")
  have "k \<notin> set wm"
    using withheld_mantles [of share policy "([], [])" ?ms] w k(2) by (auto simp: withheld_def)
  obtain mv where mv: "node_at (Some d) [ascii ''mantles'', k] = Some mv"
    using rune(1) k(1) by (cases "node_at (Some d) [ascii ''mantles'', k]") (auto simp: nul_free_ascii)
  then have "node_at (Some mv) [ascii ''runes'', r] = Some n" using rune(1) by (simp add: nul_free_ascii k)
  then obtain rs where rs: "get (Some mv) (ascii ''runes'') = Some rs" "get (Some rs) r = Some n"
    using k(3) by (cases "get (Some mv) (ascii ''runes'')") (auto simp: nul_free_ascii)
  have "conforms KRunes rs \<and> json_wf rs"
    using mantle_of_valid [OF d k(1) mv] member_conforms [OF _ _ _ rs(1), of KMantle KRunes] by simp
  then have "distinct (map fst (members (Some rs)))" by (simp add: conforms_object distinct_members_def)
  then have "map_of (List.map_filter (export_rune share k) (members (Some rs))) r =
      (case map_of (members (Some rs)) r of None \<Rightarrow> None | Some v \<Rightarrow> map_option snd (export_rune share k (r, v)))"
    by (rule map_of_map_filter) (auto simp: export_rune_def split: if_splits)
  then have ex: "map_of (List.map_filter (export_rune share k) (members (Some rs))) r =
      map_option snd (export_rune share k (r, n))"
    using rs(2) by (simp add: get_def)
  have left: "get (map_option snd (export_rune share k (r, n))) (ascii ''present'') = get (Some n) (ascii ''present'')"
    using rune(2) by (auto simp: export_rune_def removal_only_def add_opt_get nul_free_ascii)
  have "get (map_option snd (export_mantle share wm wn (k, mv))) (ascii ''runes'') =
      Some (JObject (List.map_filter (export_rune share k) (members (Some rs))))"
    using \<open>k \<notin> set wm\<close> rs(1) names_apart
    by (auto simp: export_mantle_def Let_def add_opt_def add_member_def nul_free_ascii split: option.split)
  then have "node_at (Some out) [ascii ''mantles'', k, ascii ''runes'', r, ascii ''present''] =
      get (Some n) (ascii ''present'')"
    using export_at [OF d out(1) w k(1), of "[ascii ''runes'', r, ascii ''present'']"] mv left k
    by (simp add: nul_free_ascii ex)
  moreover have "node_at (Some d) [ascii ''mantles'', k, ascii ''runes'', r, ascii ''present''] =
      get (Some n) (ascii ''present'')"
    using mv rs k by (simp add: nul_free_ascii)
  ultimately show ?thesis using out by (simp add: orset_at_def valid_doc_def)
qed

section \<open>At concrete inputs\<close>

text \<open>The private rune \<open>r\<close> was named twice at once and shows two names; the shared rune \<open>x\<close> links to
  the second of them. The rune \<open>q\<close> is private and was removed.\<close>

definition edge_to_b :: bytes where
  "edge_to_b = (case encode (JObject [(ascii ''from'', JString (ascii ''x'')), (ascii ''to'', JString (ascii ''b''))]) of
     Inr b \<Rightarrow> b | Inl _ \<Rightarrow> [])"

definition there :: orset where
  "there = orset_add (ascii ''p_1'') (ascii ''1'') orset_new"

definition named :: "bytes list \<Rightarrow> orset" where
  "named ns = foldl (\<lambda>s n. orset_add (n @ ascii ''_1'') (str_bytes n) s) orset_new ns"

definition a_rune :: "orset \<Rightarrow> bytes list \<Rightarrow> json" where
  "a_rune p ns = JObject [(ascii ''present'', orset_to_json p),
     (ascii ''fields'', JObject [(ascii ''spirit.name'', orset_to_json (named ns))])]"

definition leak_mantle :: json where
  "leak_mantle = JObject
     [(ascii ''runes'', JObject [(ascii ''q'', a_rune (remove_all there) [ascii ''q'']),
        (ascii ''r'', a_rune there [ascii ''a'', ascii ''b'']), (ascii ''x'', a_rune there [ascii ''x''])]),
      (ascii ''edges'', orset_to_json (orset_add (ascii ''e_1'') edge_to_b orset_new))]"

definition leak_doc :: json where
  "leak_doc = JObject [(ascii ''palabra'', mk_int 1), (ascii ''mantles'', JObject [(ascii ''m'', leak_mantle)])]"

definition only_x :: export_set where
  "only_x = Some (\<lambda>m r. r = [] \<or> r = ascii ''x'')"

lemma leak_withheld:
  "withheld only_x default_policy [(ascii ''m'', leak_mantle)] = ([], [(ascii ''m'', [ascii ''a'', ascii ''q''])])"
  by code_simp

lemma leak_edges:
  "export_edges (ascii ''m'') [] [(ascii ''m'', [ascii ''a'', ascii ''q''])]
     (Some (orset_to_json (orset_add (ascii ''e_1'') edge_to_b orset_new))) =
   orset_add (ascii ''e_1'') edge_to_b orset_new"
  by code_simp

lemma leak_sets:
  "set_ok AnyBytes (orset_to_json there)"
  "set_ok AnyBytes (orset_to_json (remove_all there))"
  "set_ok CanonicalValue (orset_to_json (named [ascii ''a'', ascii ''b'']))"
  "set_ok CanonicalValue (orset_to_json (named [ascii ''q'']))"
  "set_ok CanonicalValue (orset_to_json (named [ascii ''x'']))"
  "set_ok CanonicalValue (orset_to_json (orset_add (ascii ''e_1'') edge_to_b orset_new))"
  by code_simp+

lemma json_wf_orset: "json_wf (orset_to_json s)"
  by (auto simp: orset_to_json_def mk_string_def nul_free_ascii nul_free_hexify)

lemma leak_wf: "json_wf leak_doc"
  by (simp add: leak_doc_def leak_mantle_def a_rune_def mk_int_def json_wf_orset nul_free_ascii)

lemma leak_valid: "valid_doc leak_doc"
proof -
  have "conforms KRune (a_rune p ns)"
    if "set_ok AnyBytes (orset_to_json p)" "set_ok CanonicalValue (orset_to_json (named ns))" for p ns
  proof -
    have "rune_field_allowed (ascii ''spirit.name'')" by code_simp
    then show ?thesis using that by (simp add: a_rune_def conforms_object distinct_members_def)
  qed
  then show ?thesis
    using leak_sets leak_wf
    by (simp add: valid_doc_iff leak_doc_def leak_mantle_def conforms_object distinct_members_def)
qed

text \<open>The export of that document keeps the link.\<close>

lemma leak_exported:
  obtains out where "exportable (Some leak_doc) only_x default_policy = Some out"
    "orset_at out [ascii ''mantles'', ascii ''m'', ascii ''edges''] = orset_add (ascii ''e_1'') edge_to_b orset_new"
proof -
  obtain out where out: "exportable (Some leak_doc) only_x default_policy = Some out"
    using leak_valid by (rule export_valid)
  have m: "get (Some leak_doc) (ascii ''mantles'') = Some (JObject [(ascii ''m'', leak_mantle)])"
    by (simp add: leak_doc_def)
  let ?es = "orset_to_json (orset_add (ascii ''e_1'') edge_to_b orset_new)"
  have e: "get (Some leak_mantle) (ascii ''edges'') = Some ?es" by (simp add: leak_mantle_def)
  have g: "good_set CanonicalValue (orset_add (ascii ''e_1'') edge_to_b orset_new)"
    using export_edges_good [OF leak_sets(6), of "ascii ''m''" "[]" "[(ascii ''m'', [ascii ''a'', ascii ''q''])]"]
    by (simp add: leak_edges json_wf_orset)
  have "orset_at out [ascii ''mantles'', ascii ''m'', ascii ''edges''] =
      orset_from_json (get (map_option snd (export_mantle only_x [] [(ascii ''m'', [ascii ''a'', ascii ''q''])]
        (ascii ''m'', leak_mantle))) (ascii ''edges''))"
    using export_at [OF leak_valid out, of "[]" "[(ascii ''m'', [ascii ''a'', ascii ''q''])]" "ascii ''m''" "[ascii ''edges'']"]
    by (simp add: orset_at_def m leak_withheld nul_free_ascii)
  also have "get (map_option snd (export_mantle only_x [] [(ascii ''m'', [ascii ''a'', ascii ''q''])]
        (ascii ''m'', leak_mantle))) (ascii ''edges'') = Some ?es"
    using names_apart by (auto simp: export_mantle_def Let_def add_opt_def add_member_def nul_free_ascii e leak_edges split: option.split)
  also have "orset_from_json (Some ?es) = orset_add (ascii ''e_1'') edge_to_b orset_new"
    using g orset_from_to_json by (auto simp: good_set_def)
  finally show ?thesis using that out by blast
qed

theorem exported_links_witness: "free_to_name only_x default_policy leak_doc (ascii ''m'') (ascii ''b'')"
proof -
  obtain out where out: "exportable (Some leak_doc) only_x default_policy = Some out"
    "orset_at out [ascii ''mantles'', ascii ''m'', ascii ''edges''] = orset_add (ascii ''e_1'') edge_to_b orset_new"
    by (rule leak_exported)
  let ?e = "JObject [(ascii ''to'', JString (ascii ''b'')), (ascii ''from'', JString (ascii ''x''))]"
  show ?thesis
  proof (rule exported_links [OF leak_valid out(1)])
    show "nul_free (ascii ''m'')" by (simp add: nul_free_ascii)
    show "(ascii ''e_1'', edge_to_b) \<in> set (adds (orset_at out [ascii ''mantles'', ascii ''m'', ascii ''edges'']))"
      unfolding out(2) by (simp add: orset_add_def orset_new_def)
    show "decode edge_to_b = Some ?e" by code_simp
    show "link_end (get (Some ?e) (ascii ''to'')) (ascii ''m'') = Some (ascii ''m'', ascii ''b'')" by code_simp
    show "ascii ''to'' \<in> {ascii ''from'', ascii ''to''}" by blast
  qed
qed

theorem export_accepted_witness:
  "\<exists>out. exportable (Some leak_doc) only_x default_policy = Some out \<and> validate (Some out) = None \<and>
    orset_at out [ascii ''mantles'', ascii ''m'', ascii ''runes'', ascii ''q'', ascii ''present''] =
    orset_at leak_doc [ascii ''mantles'', ascii ''m'', ascii ''runes'', ascii ''q'', ascii ''present'']"
proof (rule export_accepted [OF leak_valid])
  show "allowed only_x (ascii ''m'') []" by (simp add: allowed_def only_x_def)
  show "node_at (Some leak_doc) [ascii ''mantles'', ascii ''m'', ascii ''runes'', ascii ''q''] =
      Some (a_rune (remove_all there) [ascii ''q''])"
    by (simp add: leak_doc_def leak_mantle_def nul_free_ascii)
  show "was_removed (Some (a_rune (remove_all there) [ascii ''q'']))" by code_simp
qed (simp_all add: nul_free_ascii)

text \<open>C36. The name a reader is asked about is not covered: a private rune that was named twice at once holds
  both names, the export withholds only the links to the first, and the link to the second leaves.\<close>

theorem second_name_leaves:
  "\<exists>out. valid_doc leak_doc \<and> exportable (Some leak_doc) only_x default_policy = Some out \<and>
     \<not> allowed only_x (ascii ''m'') (ascii ''r'') \<and>
     lvalues (resolve (Some (orset_to_json
        (orset_at leak_doc [ascii ''mantles'', ascii ''m'', ascii ''runes'', ascii ''r'', ascii ''fields'', ascii ''spirit.name''])))
        (lookup default_policy (ascii ''spirit.name''))) = [str_bytes (ascii ''a''), str_bytes (ascii ''b'')] \<and>
     (ascii ''e_1'', edge_to_b) \<in> set (adds (orset_at out [ascii ''mantles'', ascii ''m'', ascii ''edges'']))"
proof -
  obtain out where out: "exportable (Some leak_doc) only_x default_policy = Some out"
    "orset_at out [ascii ''mantles'', ascii ''m'', ascii ''edges''] = orset_add (ascii ''e_1'') edge_to_b orset_new"
    by (rule leak_exported)
  have "node_at (Some leak_doc) [ascii ''mantles'', ascii ''m'', ascii ''runes'', ascii ''r'', ascii ''fields'', ascii ''spirit.name''] =
      Some (orset_to_json (named [ascii ''a'', ascii ''b'']))"
    by (simp add: leak_doc_def leak_mantle_def a_rune_def nul_free_ascii)
  moreover have "orset_from_json (Some (orset_to_json (named [ascii ''a'', ascii ''b'']))) = named [ascii ''a'', ascii ''b'']"
    by code_simp
  moreover have "lvalues (resolve (Some (orset_to_json (named [ascii ''a'', ascii ''b''])))
      (lookup default_policy (ascii ''spirit.name''))) = [str_bytes (ascii ''a''), str_bytes (ascii ''b'')]"
    by code_simp
  ultimately show ?thesis
    using out leak_valid by (simp add: orset_at_def allowed_def only_x_def orset_add_def orset_new_def)
qed

end
