(* ===== verification/Anomaly.thy ===== *)
theory Anomaly
  imports Edits Codec "HOL-Library.Product_Lexorder"
begin

text \<open>
  Rules a merge broke (\<^verbatim>\<open>src/crdt/anomaly.cpp\<close>): every present mantle is indexed by who
  holds which name now, held it when it was removed, or was renamed away from it, and three
  rules are checked against the index. \<^verbatim>\<open>map[k].push_back(v)\<close> is \<open>om_push\<close>; a set of strings is
  a strictly sorted list.
\<close>

datatype anomaly_kind = duplicate_name | link_broken | type_removed

record anomaly =
  a_kind :: anomaly_kind
  a_mantle :: bytes
  a_subject :: bytes
  a_cause :: bytes
  a_runes :: "bytes list"

definition was_present_and_is_not :: "json option \<Rightarrow> bool" where
  "was_present_and_is_not node \<longleftrightarrow>
     (let p = orset_from_json (get node (ascii ''present'')) in orset_empty p \<and> removes p \<noteq> [])"

definition is_present :: "json option \<Rightarrow> bool" where
  "is_present node \<longleftrightarrow> \<not> orset_empty (orset_from_json (get node (ascii ''present'')))"

definition shown :: "json option \<Rightarrow> bytes \<Rightarrow> join_policy \<Rightarrow> bytes" where
  "shown reg field policy =
     (case lvalues (resolve reg (lookup policy field)) of
        [] \<Rightarrow> []
      | v # _ \<Rightarrow> str_or (decode v) [])"

definition former_values :: "json option \<Rightarrow> bytes list" where
  "former_values reg =
     (let s = orset_from_json reg; live = orset_values s
      in os_of (List.map_filter (\<lambda>kv. if fst kv \<notin> set (removes s) \<or> snd kv \<in> set live then None
                                  else as_string (decode (snd kv))) (adds s)))"

section \<open>The index of a mantle\<close>

record mantle_index =
  live_names :: "(bytes, bytes list) omap"
  removed_names :: "(bytes, bytes list) omap"
  renamed_from :: "(bytes, bytes list) omap"
  glyph_of :: "(bytes, bytes) omap"

definition index_rune :: "join_policy \<Rightarrow> mantle_index \<Rightarrow> bytes \<times> json \<Rightarrow> mantle_index" where
  "index_rune policy ix kv =
     (let r = Some (snd kv); f = get r (ascii ''fields''); name_reg = get f (ascii ''spirit.name'');
          name = shown name_reg (ascii ''spirit.name'') policy
      in if is_present r then
           ix\<lparr> live_names := om_push name (fst kv) (live_names ix),
               glyph_of := om_put (fst kv) (shown (get f (ascii ''glyph'')) (ascii ''glyph'') policy) (glyph_of ix),
               renamed_from := foldl (\<lambda>m old. if old \<noteq> name then om_push old (fst kv) m else m)
                 (renamed_from ix) (former_values name_reg) \<rparr>
         else if was_present_and_is_not r then
           ix\<lparr> removed_names := om_push name (fst kv) (removed_names ix) \<rparr>
         else ix)"

definition index_mantle :: "json option \<Rightarrow> join_policy \<Rightarrow> mantle_index" where
  "index_mantle m policy =
     foldl (index_rune policy) \<lparr> live_names = [], removed_names = [], renamed_from = [], glyph_of = [] \<rparr>
       (members (get m (ascii ''runes'')))"

definition endpoint :: "json option \<Rightarrow> bytes \<Rightarrow> (bytes \<times> bytes) option" where
  "endpoint e own =
     (case as_string e of Some s \<Rightarrow> Some (own, s)
      | None \<Rightarrow>
          if is_JObject e then
            (case as_string (get e (ascii ''rune'')) of None \<Rightarrow> None
             | Some r \<Rightarrow> Some (str_or (get e (ascii ''mantle'')) own, r))
          else None)"

section \<open>The three rules\<close>

type_synonym mantle_indexes = "(bytes, mantle_index) omap"

definition all_mantles :: "doc \<Rightarrow> join_policy \<Rightarrow> mantle_indexes" where
  "all_mantles doc policy =
     foldl (\<lambda>ix kv. if is_present (Some (snd kv)) then om_put (fst kv) (index_mantle (Some (snd kv)) policy) ix else ix)
       [] (members (get doc (ascii ''mantles'')))"

definition removed_glyphs :: "doc \<Rightarrow> bytes list" where
  "removed_glyphs doc =
     os_of (map fst (filter (\<lambda>kv. was_present_and_is_not (Some (snd kv))) (members (get doc (ascii ''glyphs'')))))"

definition duplicate_names :: "bytes \<Rightarrow> mantle_index \<Rightarrow> anomaly list" where
  "duplicate_names mname ix =
     map (\<lambda>kv. \<lparr> a_kind = duplicate_name, a_mantle = mname, a_subject = fst kv, a_cause = [],
                 a_runes = sort_unique (snd kv) \<rparr>)
       (filter (\<lambda>kv. \<not> (length (snd kv) < 2 \<or> fst kv = [])) (live_names ix))"

definition orphans :: "bytes list \<Rightarrow> mantle_index \<Rightarrow> (bytes, bytes list) omap" where
  "orphans gone ix = foldl (\<lambda>m kv. if snd kv \<in> set gone then om_push (snd kv) (fst kv) m else m) [] (glyph_of ix)"

definition removed_types :: "bytes list \<Rightarrow> bytes \<Rightarrow> mantle_index \<Rightarrow> anomaly list" where
  "removed_types gone mname ix =
     map (\<lambda>kv. \<lparr> a_kind = type_removed, a_mantle = mname, a_subject = fst kv, a_cause = [],
                 a_runes = sort_unique (snd kv) \<rparr>) (orphans gone ix)"

text \<open>Why the target of an endpoint is gone, and who held it; nothing when it resolves, or when
  nothing here explains it.\<close>

definition broken :: "mantle_indexes \<Rightarrow> bytes \<Rightarrow> json option \<Rightarrow> (bytes \<times> bytes \<times> bytes list) option" where
  "broken index own e =
     (case endpoint e own of None \<Rightarrow> None
      | Some (tm, tr) \<Rightarrow>
          (case map_of index tm of None \<Rightarrow> None
           | Some ix \<Rightarrow>
               if map_of (live_names ix) tr \<noteq> None then None
               else let subject = (if tm = own then tr else tm @ ascii ''/'' @ tr)
                    in case map_of (removed_names ix) tr of Some who \<Rightarrow> Some (subject, ascii ''removed'', who)
                       | None \<Rightarrow> (case map_of (renamed_from ix) tr of Some who \<Rightarrow> Some (subject, ascii ''renamed'', who)
                                  | None \<Rightarrow> None)))"

definition found_one ::
    "bytes \<Rightarrow> (bytes \<times> bytes, anomaly) omap \<Rightarrow> bytes \<times> bytes \<times> bytes list \<Rightarrow> (bytes \<times> bytes, anomaly) omap" where
  "found_one mname found b =
     (case b of (subject, cause, who) \<Rightarrow>
        let old = (case map_of found (subject, cause) of Some a \<Rightarrow> a_runes a | None \<Rightarrow> [])
        in om_put (subject, cause)
             \<lparr> a_kind = link_broken, a_mantle = mname, a_subject = subject, a_cause = cause, a_runes = old @ who \<rparr> found)"

definition link_ends :: "json option \<Rightarrow> json option list" where
  "link_ends edge = [get edge (ascii ''from''), get edge (ascii ''to'')]"

definition broken_ends :: "mantle_indexes \<Rightarrow> bytes \<times> json \<Rightarrow> (bytes \<times> bytes \<times> bytes list) list" where
  "broken_ends index m =
     concat (map (\<lambda>b. List.map_filter (broken index (fst m)) (link_ends (decode b)))
       (orset_values (orset_from_json (get (Some (snd m)) (ascii ''edges'')))))"

definition broken_links :: "mantle_indexes \<Rightarrow> bytes \<times> json \<Rightarrow> anomaly list" where
  "broken_links index m =
     (if is_present (Some (snd m)) then
        map (\<lambda>kv. (snd kv)\<lparr> a_runes := sort_unique (a_runes (snd kv)) \<rparr>)
          (foldl (found_one (fst m)) [] (broken_ends index m))
      else [])"

definition kind_rank :: "anomaly_kind \<Rightarrow> nat" where
  "kind_rank k = (case k of duplicate_name \<Rightarrow> 0 | link_broken \<Rightarrow> 1 | type_removed \<Rightarrow> 2)"

definition anomaly_key :: "anomaly \<Rightarrow> nat \<times> bytes \<times> bytes \<times> bytes" where
  "anomaly_key a = (kind_rank (a_kind a), a_mantle a, a_subject a, a_cause a)"

definition anomalies :: "doc \<Rightarrow> join_policy \<Rightarrow> anomaly list" where
  "anomalies doc policy =
     (let index = all_mantles doc policy; gone = removed_glyphs doc
      in sort_key anomaly_key
           (concat (map (\<lambda>kv. duplicate_names (fst kv) (snd kv) @ removed_types gone (fst kv) (snd kv)) index) @
            concat (map (broken_links index) (members (get doc (ascii ''mantles''))))))"

section \<open>As a value\<close>

definition kind_name :: "anomaly_kind \<Rightarrow> bytes" where
  "kind_name k = ascii (case k of duplicate_name \<Rightarrow> ''duplicate_name'' | link_broken \<Rightarrow> ''link_broken''
                                | type_removed \<Rightarrow> ''type_removed'')"

definition anomaly_to_json :: "anomaly \<Rightarrow> json" where
  "anomaly_to_json a =
     JObject ([(ascii ''kind'', mk_string (kind_name (a_kind a))), (ascii ''mantle'', mk_string (a_mantle a)),
               (ascii ''subject'', mk_string (a_subject a))] @
              (if a_cause a \<noteq> [] then [(ascii ''cause'', mk_string (a_cause a))] else []) @
              [(ascii ''runes'', JArray (map mk_string (a_runes a)))])"

definition anomaly_hash :: "anomaly \<Rightarrow> digest canon" where
  "anomaly_hash a = cbind (encode (anomaly_to_json a)) (\<lambda>b. Inr (domain_digest (ascii ''anomaly'') b []))"

section \<open>What the index holds\<close>

definition opt_list :: "'a list \<Rightarrow> 'a list option" where
  "opt_list xs = (if xs = [] then None else Some xs)"

lemma got_opt_list [simp]: "got (opt_list xs) = xs"
  by (simp add: got_def opt_list_def)

lemma opt_list_got: "v \<noteq> Some [] \<Longrightarrow> opt_list (got v) = v"
  by (cases v) (simp_all add: opt_list_def)

lemma opt_list_None [simp]: "opt_list xs = None \<longleftrightarrow> xs = []"
  and opt_list_Some [simp]: "opt_list xs = Some ys \<longleftrightarrow> xs = ys \<and> ys \<noteq> []"
  by (auto simp: opt_list_def)

lemma pushes:
  "om_ok m \<Longrightarrow> om_ok (foldl (\<lambda>m x. if P x then om_push (k x) (v x) m else m) m xs) \<and>
    got (map_of (foldl (\<lambda>m x. if P x then om_push (k x) (v x) m else m) m xs) q) =
      got (map_of m q) @ map v (filter (\<lambda>x. P x \<and> k x = q) xs) \<and>
    (map_of m q \<noteq> Some [] \<longrightarrow> map_of (foldl (\<lambda>m x. if P x then om_push (k x) (v x) m else m) m xs) q \<noteq> Some [])"
proof (induction xs arbitrary: m)
  case (Cons x xs)
  let ?m = "if P x then om_push (k x) (v x) m else m"
  have "om_ok ?m" using Cons.prems by simp
  from Cons.IH [OF this] show ?case
    using Cons.prems by (auto simp: map_of_push)
qed simp

lemma map_of_pushes:
  "om_ok (foldl (\<lambda>m x. if P x then om_push (k x) (v x) m else m) [] xs)"
  "map_of (foldl (\<lambda>m x. if P x then om_push (k x) (v x) m else m) [] xs) q =
     opt_list (map v (filter (\<lambda>x. P x \<and> k x = q) xs))"
proof -
  note p = pushes [of "[]" P k v xs q]
  show "om_ok (foldl (\<lambda>m x. if P x then om_push (k x) (v x) m else m) [] xs)" using p by simp
  have "map_of (foldl (\<lambda>m x. if P x then om_push (k x) (v x) m else m) [] xs) q =
      opt_list (got (map_of (foldl (\<lambda>m x. if P x then om_push (k x) (v x) m else m) [] xs) q))"
    by (rule opt_list_got [symmetric]) (use p in simp)
  then show "map_of (foldl (\<lambda>m x. if P x then om_push (k x) (v x) m else m) [] xs) q =
     opt_list (map v (filter (\<lambda>x. P x \<and> k x = q) xs))" using p by simp
qed

text \<open>The runes of a mantle, by what they show.\<close>

definition rune_name :: "join_policy \<Rightarrow> json \<Rightarrow> bytes" where
  "rune_name policy r = shown (get (get (Some r) (ascii ''fields'')) (ascii ''spirit.name'')) (ascii ''spirit.name'') policy"

definition rune_glyph :: "join_policy \<Rightarrow> json \<Rightarrow> bytes" where
  "rune_glyph policy r = shown (get (get (Some r) (ascii ''fields'')) (ascii ''glyph'')) (ascii ''glyph'') policy"

definition old_names :: "json \<Rightarrow> bytes list" where
  "old_names r = former_values (get (get (Some r) (ascii ''fields'')) (ascii ''spirit.name''))"

definition runes_where :: "(json \<Rightarrow> bool) \<Rightarrow> json \<Rightarrow> bytes list" where
  "runes_where P m = map fst (filter (\<lambda>kv. P (snd kv)) (members (get (Some m) (ascii ''runes''))))"

definition holders :: "join_policy \<Rightarrow> json \<Rightarrow> bytes \<Rightarrow> bytes list" where
  "holders policy m name = runes_where (\<lambda>r. is_present (Some r) \<and> rune_name policy r = name) m"

definition removed_holders :: "join_policy \<Rightarrow> json \<Rightarrow> bytes \<Rightarrow> bytes list" where
  "removed_holders policy m name = runes_where (\<lambda>r. was_present_and_is_not (Some r) \<and> rune_name policy r = name) m"

definition former_holders :: "join_policy \<Rightarrow> json \<Rightarrow> bytes \<Rightarrow> bytes list" where
  "former_holders policy m name =
     runes_where (\<lambda>r. is_present (Some r) \<and> name \<in> set (old_names r) \<and> rune_name policy r \<noteq> name) m"

lemma not_both: "was_present_and_is_not r \<Longrightarrow> \<not> is_present r"
  by (simp add: was_present_and_is_not_def is_present_def Let_def)

lemma index_fields:
  "live_names (foldl (index_rune policy) ix rs) =
     foldl (\<lambda>m kv. if is_present (Some (snd kv)) then om_push (rune_name policy (snd kv)) (fst kv) m else m) (live_names ix) rs"
  "removed_names (foldl (index_rune policy) ix rs) =
     foldl (\<lambda>m kv. if was_present_and_is_not (Some (snd kv)) then om_push (rune_name policy (snd kv)) (fst kv) m else m) (removed_names ix) rs"
  "glyph_of (foldl (index_rune policy) ix rs) =
     foldl (\<lambda>m kv. if is_present (Some (snd kv)) then om_put (fst kv) (rune_glyph policy (snd kv)) m else m) (glyph_of ix) rs"
  by (induction rs arbitrary: ix)
    (auto simp: index_rune_def Let_def rune_name_def rune_glyph_def dest: not_both)

definition renames :: "join_policy \<Rightarrow> bytes \<times> json \<Rightarrow> (bytes \<times> bytes) list" where
  "renames policy kv =
     (if is_present (Some (snd kv)) then map (\<lambda>old. (old, fst kv)) (filter (\<lambda>old. old \<noteq> rune_name policy (snd kv)) (old_names (snd kv))) else [])"

lemma foldl_filter_push:
  "foldl (\<lambda>m old. if old \<noteq> name then om_push old i m else m) m olds =
   foldl (\<lambda>m x. if True then om_push (fst x) (snd x) m else m) m (map (\<lambda>old. (old, i)) (filter (\<lambda>old. old \<noteq> name) olds))"
  by (induction olds arbitrary: m) auto

lemma index_renamed:
  "renamed_from (foldl (index_rune policy) ix rs) =
     foldl (\<lambda>m x. if True then om_push (fst x) (snd x) m else m) (renamed_from ix) (concat (map (renames policy) rs))"
proof (induction rs arbitrary: ix)
  case (Cons kv rs)
  have "renamed_from (index_rune policy ix kv) =
      foldl (\<lambda>m x. if True then om_push (fst x) (snd x) m else m) (renamed_from ix) (renames policy kv)"
    by (simp add: index_rune_def Let_def renames_def rune_name_def old_names_def foldl_filter_push)
  with Cons.IH show ?case by simp
qed simp

lemma distinct_former: "distinct (former_values reg)"
proof -
  have "sorted_wrt (<) (fold os_insert xs ys)" if "sorted_wrt (<) ys" for xs and ys :: "bytes list"
    using that by (induction xs arbitrary: ys) auto
  then have "sorted_wrt (<) (former_values reg)" by (simp add: former_values_def Let_def os_of_def)
  then show ?thesis by (simp add: strict_sorted_iff)
qed

lemma renames_to:
  "map snd (filter (\<lambda>x. fst x = q) (renames policy kv)) =
     (if is_present (Some (snd kv)) \<and> q \<in> set (old_names (snd kv)) \<and> rune_name policy (snd kv) \<noteq> q then [fst kv] else [])"
proof -
  have "distinct xs \<Longrightarrow> map snd (filter (\<lambda>x. fst x = q) (map (\<lambda>old. (old, i)) (filter (\<lambda>old. old \<noteq> n) xs))) =
      (if q \<in> set xs \<and> n \<noteq> q then [i] else [])" for xs :: "bytes list" and i :: bytes and n
    by (induction xs) auto
  from this [OF distinct_former] show ?thesis
    by (cases "is_present (Some (snd kv))") (simp_all only: renames_def old_names_def if_True if_False simp_thms, simp)
qed

lemma index_mantle_maps:
  "om_ok (live_names (index_mantle (Some m) policy))"
  "map_of (live_names (index_mantle (Some m) policy)) q = opt_list (holders policy m q)"
  "map_of (removed_names (index_mantle (Some m) policy)) q = opt_list (removed_holders policy m q)"
  "map_of (renamed_from (index_mantle (Some m) policy)) q = opt_list (former_holders policy m q)"
proof -
  let ?rs = "members (get (Some m) (ascii ''runes''))"
  show "om_ok (live_names (index_mantle (Some m) policy))"
    by (simp add: index_mantle_def index_fields map_of_pushes)
  show "map_of (live_names (index_mantle (Some m) policy)) q = opt_list (holders policy m q)"
    "map_of (removed_names (index_mantle (Some m) policy)) q = opt_list (removed_holders policy m q)"
    by (simp_all add: index_mantle_def index_fields map_of_pushes holders_def removed_holders_def runes_where_def)
  have "map snd (filter (\<lambda>x. fst x = q) (concat (map (renames policy) rs))) =
      map fst (filter (\<lambda>kv. is_present (Some (snd kv)) \<and> q \<in> set (old_names (snd kv)) \<and> rune_name policy (snd kv) \<noteq> q) rs)" for rs
    by (induction rs) (auto simp: renames_to)
  then show "map_of (renamed_from (index_mantle (Some m) policy)) q = opt_list (former_holders policy m q)"
    using map_of_pushes(2) [of "\<lambda>_. True" fst snd "concat (map (renames policy) ?rs)" q]
    by (simp add: index_mantle_def index_renamed former_holders_def runes_where_def)
qed

section \<open>What is reported\<close>

lemma all_mantles_spec:
  assumes "distinct (map fst (members (get d (ascii ''mantles''))))"
  shows "om_ok (all_mantles d policy)"
    and "map_of (all_mantles d policy) q = Some ix \<longleftrightarrow>
      (\<exists>m. (q, m) \<in> set (members (get d (ascii ''mantles''))) \<and> is_present (Some m) \<and> ix = index_mantle (Some m) policy)"
proof -
  let ?f = "\<lambda>ix kv. if is_present (Some (snd kv)) then om_put (fst kv) (index_mantle (Some (snd kv)) policy) ix else ix"
  have "om_ok (foldl ?f m kvs) \<and>
      (distinct (map fst kvs) \<longrightarrow> fst ` set kvs \<inter> dom (map_of m) = {} \<longrightarrow>
        (map_of (foldl ?f m kvs) q = Some ix \<longleftrightarrow> map_of m q = Some ix \<or>
          (\<exists>j. (q, j) \<in> set kvs \<and> is_present (Some j) \<and> ix = index_mantle (Some j) policy)))"
    if "om_ok m" for m kvs q ix
    using that
  proof (induction kvs arbitrary: m)
    case (Cons kv kvs)
    obtain k j where kv: "kv = (k, j)" by (cases kv)
    have ok: "om_ok (?f m kv)" using Cons.prems by simp
    have "fst ` set kvs \<inter> dom (map_of (?f m kv)) = {}" if "distinct (map fst (kv # kvs))" "fst ` set (kv # kvs) \<inter> dom (map_of m) = {}"
      using that Cons.prems by (auto simp: kv)
    moreover have "map_of (?f m kv) q = Some ix \<longleftrightarrow> map_of m q = Some ix \<or> q = k \<and> is_present (Some j) \<and> ix = index_mantle (Some j) policy"
      if "fst ` set (kv # kvs) \<inter> dom (map_of m) = {}"
      using that Cons.prems by (auto simp: kv)
    ultimately show ?case using Cons.IH [OF ok] by (auto simp: kv)
  qed simp
  from this [of "[]" "members (get d (ascii ''mantles''))"] assms
  show "om_ok (all_mantles d policy)"
    and "map_of (all_mantles d policy) q = Some ix \<longleftrightarrow>
      (\<exists>m. (q, m) \<in> set (members (get d (ascii ''mantles''))) \<and> is_present (Some m) \<and> ix = index_mantle (Some m) policy)"
    by (simp_all add: all_mantles_def)
qed

lemma mem_om: "om_ok m \<Longrightarrow> (k, v) \<in> set m \<longleftrightarrow> map_of m k = Some v"
  by (simp add: om_ok_distinct)

lemma set_anomalies:
  "set (anomalies d policy) =
    (\<Union>kv \<in> set (all_mantles d policy). set (duplicate_names (fst kv) (snd kv)) \<union>
        set (removed_types (removed_glyphs d) (fst kv) (snd kv))) \<union>
    (\<Union>m \<in> set (members (get d (ascii ''mantles''))). set (broken_links (all_mantles d policy) m))"
  by (simp add: anomalies_def Let_def)

text \<open>The breaks of one subject and cause are one anomaly.\<close>

definition breaks_of :: "bytes \<Rightarrow> bytes \<Rightarrow> (bytes \<times> bytes \<times> bytes list) list \<Rightarrow> bytes list list" where
  "breaks_of s c bs = map (snd \<circ> snd) (filter (\<lambda>b. fst b = s \<and> fst (snd b) = c) bs)"

lemma found_map:
  "om_ok (foldl (found_one m) [] bs) \<and>
   map_of (foldl (found_one m) [] bs) (s, c) =
     (if breaks_of s c bs = [] then None
      else Some \<lparr> a_kind = link_broken, a_mantle = m, a_subject = s, a_cause = c, a_runes = concat (breaks_of s c bs) \<rparr>)"
proof (induction bs arbitrary: s c rule: rev_induct)
  case (snoc b bs)
  obtain s' c' w where b: "b = (s', c', w)" by (cases b)
  let ?found = "foldl (found_one m) [] bs"
  have ok: "om_ok ?found" using snoc.IH by blast
  have split: "breaks_of s c (bs @ [b]) = breaks_of s c bs @ (if s = s' \<and> c = c' then [w] else [])"
    by (auto simp: breaks_of_def b)
  have "om_ok (found_one m ?found b)" by (simp add: found_one_def b Let_def ok)
  moreover have "map_of (found_one m ?found b) (s, c) =
      (if s = s' \<and> c = c' then Some \<lparr> a_kind = link_broken, a_mantle = m, a_subject = s, a_cause = c,
         a_runes = concat (breaks_of s c bs) @ w \<rparr> else map_of ?found (s, c))"
  proof (cases "s = s' \<and> c = c'")
    case True
    have "(case map_of ?found (s, c) of Some a \<Rightarrow> a_runes a | None \<Rightarrow> []) = concat (breaks_of s c bs)"
      using snoc.IH [of s c] by simp
    with True show ?thesis by (simp add: found_one_def b Let_def ok)
  next
    case False
    then show ?thesis by (auto simp: found_one_def b Let_def ok)
  qed
  ultimately show ?case using snoc.IH [of s c] split by (cases "s = s' \<and> c = c'") auto
qed (simp add: breaks_of_def)

lemma set_broken_links:
  "a \<in> set (broken_links index m) \<longleftrightarrow> is_present (Some (snd m)) \<and>
     breaks_of (a_subject a) (a_cause a) (broken_ends index m) \<noteq> [] \<and>
     a = \<lparr> a_kind = link_broken, a_mantle = fst m, a_subject = a_subject a, a_cause = a_cause a,
           a_runes = sort_unique (concat (breaks_of (a_subject a) (a_cause a) (broken_ends index m))) \<rparr>"
    (is "?l \<longleftrightarrow> ?r")
proof
  let ?found = "foldl (found_one (fst m)) [] (broken_ends index m)"
  assume ?l
  then obtain k b where kb: "is_present (Some (snd m))" "(k, b) \<in> set ?found" "a = b\<lparr> a_runes := sort_unique (a_runes b) \<rparr>"
    by (auto simp: broken_links_def split: if_splits)
  moreover obtain s c where k: "k = (s, c)" by (cases k)
  moreover have ok: "om_ok ?found" using found_map by blast
  ultimately have "map_of ?found (s, c) = Some b" using mem_om [OF ok] by blast
  then have "breaks_of s c (broken_ends index m) \<noteq> []"
    "b = \<lparr> a_kind = link_broken, a_mantle = fst m, a_subject = s, a_cause = c, a_runes = concat (breaks_of s c (broken_ends index m)) \<rparr>"
    using found_map [of "fst m" "broken_ends index m" s c] by (auto split: if_splits)
  then show ?r using kb by simp
next
  let ?found = "foldl (found_one (fst m)) [] (broken_ends index m)"
  assume r: ?r
  let ?b = "\<lparr> a_kind = link_broken, a_mantle = fst m, a_subject = a_subject a, a_cause = a_cause a,
    a_runes = concat (breaks_of (a_subject a) (a_cause a) (broken_ends index m)) \<rparr>"
  have "map_of ?found (a_subject a, a_cause a) = Some ?b"
    using found_map [of "fst m" "broken_ends index m" "a_subject a" "a_cause a"] r by simp
  then have b: "((a_subject a, a_cause a), ?b) \<in> set ?found" by (rule map_of_SomeD)
  have "?b\<lparr> a_runes := sort_unique (a_runes ?b) \<rparr> \<in> set (map (\<lambda>kv. (snd kv)\<lparr> a_runes := sort_unique (a_runes (snd kv)) \<rparr>) ?found)"
    unfolding set_map by (rule image_eqI [OF _ b]) (simp only: snd_conv)
  moreover have "?b\<lparr> a_runes := sort_unique (a_runes ?b) \<rparr> = a" using r by simp
  ultimately show ?l using r unfolding broken_links_def by (simp only: if_True)
qed

lemma broken_links_kind: "a \<in> set (broken_links index m) \<Longrightarrow> a_kind a = link_broken \<and> a_mantle a = fst m"
proof -
  assume "a \<in> set (broken_links index m)"
  then have "a = \<lparr> a_kind = link_broken, a_mantle = fst m, a_subject = a_subject a, a_cause = a_cause a,
           a_runes = sort_unique (concat (breaks_of (a_subject a) (a_cause a) (broken_ends index m))) \<rparr>"
    using set_broken_links by blast
  then show ?thesis by (metis anomaly.select_convs(1,2))
qed

lemma removed_types_kind: "a \<in> set (removed_types gone m ix) \<Longrightarrow> a_kind a = type_removed \<and> a_mantle a = m"
  by (auto simp: removed_types_def)

lemma duplicate_names_kind: "a \<in> set (duplicate_names m ix) \<Longrightarrow> a_kind a = duplicate_name \<and> a_mantle a = m"
  by (auto simp: duplicate_names_def)

text \<open>Two runes of one name are reported, and nothing else is reported as such.\<close>

theorem duplicate_names_exact:
  assumes "distinct (map fst (members (get d (ascii ''mantles''))))"
  shows "a \<in> set (anomalies d policy) \<and> a_kind a = duplicate_name \<longleftrightarrow>
    (\<exists>m. (a_mantle a, m) \<in> set (members (get d (ascii ''mantles''))) \<and> is_present (Some m) \<and>
       a_subject a \<noteq> [] \<and> 2 \<le> length (holders policy m (a_subject a)) \<and>
       a = \<lparr> a_kind = duplicate_name, a_mantle = a_mantle a, a_subject = a_subject a, a_cause = [],
             a_runes = sort_unique (holders policy m (a_subject a)) \<rparr>)"
    (is "?l \<longleftrightarrow> ?r")
proof -
  have "?l \<longleftrightarrow> (\<exists>q ix. map_of (all_mantles d policy) q = Some ix \<and> a \<in> set (duplicate_names q ix))"
  proof
    assume ?l
    then obtain kv where "kv \<in> set (all_mantles d policy)" "a \<in> set (duplicate_names (fst kv) (snd kv))"
      unfolding set_anomalies by (auto dest: broken_links_kind removed_types_kind)
    then show "\<exists>q ix. map_of (all_mantles d policy) q = Some ix \<and> a \<in> set (duplicate_names q ix)"
      using mem_om [OF all_mantles_spec(1) [OF assms], of "fst kv" "snd kv"] by auto
  next
    assume "\<exists>q ix. map_of (all_mantles d policy) q = Some ix \<and> a \<in> set (duplicate_names q ix)"
    then obtain q ix where "(q, ix) \<in> set (all_mantles d policy)" "a \<in> set (duplicate_names q ix)"
      using mem_om [OF all_mantles_spec(1) [OF assms]] by blast
    then show ?l by (force simp: set_anomalies duplicate_names_def)
  qed
  also have "\<dots> \<longleftrightarrow> (\<exists>q m. (q, m) \<in> set (members (get d (ascii ''mantles''))) \<and> is_present (Some m) \<and>
      a \<in> set (duplicate_names q (index_mantle (Some m) policy)))"
    by (auto simp: all_mantles_spec(2) [OF assms])
  also have "\<dots> \<longleftrightarrow> ?r"
  proof -
    have "a \<in> set (duplicate_names q (index_mantle (Some m) policy)) \<longleftrightarrow>
        a_subject a \<noteq> [] \<and> 2 \<le> length (holders policy m (a_subject a)) \<and>
        a = \<lparr> a_kind = duplicate_name, a_mantle = q, a_subject = a_subject a, a_cause = [],
              a_runes = sort_unique (holders policy m (a_subject a)) \<rparr>" for q m
    proof -
      have "(n, ids) \<in> set (live_names (index_mantle (Some m) policy)) \<longleftrightarrow> ids = holders policy m n \<and> ids \<noteq> []" for n ids
        using mem_om [OF index_mantle_maps(1)] by (auto simp: index_mantle_maps(2))
      then show ?thesis
        by (cases a) (auto simp: duplicate_names_def image_iff not_less)
    qed
    then show ?thesis by (metis anomaly.select_convs(2))
  qed
  finally show ?thesis .
qed

text \<open>The target of an endpoint is gone, for a cause, and these runes held its name.\<close>

definition gone_target ::
    "doc \<Rightarrow> join_policy \<Rightarrow> bytes \<Rightarrow> json option \<Rightarrow> bytes \<Rightarrow> bytes \<Rightarrow> bytes list \<Rightarrow> bool" where
  "gone_target d policy own e s c who \<longleftrightarrow>
     (\<exists>tm tr m. endpoint e own = Some (tm, tr) \<and> (tm, m) \<in> set (members (get d (ascii ''mantles''))) \<and>
        is_present (Some m) \<and> holders policy m tr = [] \<and>
        s = (if tm = own then tr else tm @ ascii ''/'' @ tr) \<and> who \<noteq> [] \<and>
        (c = ascii ''removed'' \<and> who = removed_holders policy m tr \<or>
         c = ascii ''renamed'' \<and> removed_holders policy m tr = [] \<and> who = former_holders policy m tr))"

lemma broken_iff:
  assumes "distinct (map fst (members (get d (ascii ''mantles''))))"
  shows "broken (all_mantles d policy) own e = Some (s, c, who) \<longleftrightarrow> gone_target d policy own e s c who"
proof (cases "endpoint e own")
  case (Some tmr)
  obtain tm tr where tmr: "tmr = (tm, tr)" by (cases tmr)
  note spec = all_mantles_spec(2) [OF assms, where policy = policy and q = tm]
  have uniq: "m = m'" if "(tm, m) \<in> set (members (get d (ascii ''mantles'')))" "(tm, m') \<in> set (members (get d (ascii ''mantles'')))" for m m'
    using that assms by (metis map_of_eq_Some_iff option.inject)
  show ?thesis
  proof (cases "map_of (all_mantles d policy) tm")
    case None
    then have "\<not> (\<exists>m. (tm, m) \<in> set (members (get d (ascii ''mantles''))) \<and> is_present (Some m))" using spec by auto
    then show ?thesis using Some tmr None by (auto simp: broken_def gone_target_def)
  next
    case ix: (Some ix)
    then obtain m where m: "(tm, m) \<in> set (members (get d (ascii ''mantles'')))" "is_present (Some m)" "ix = index_mantle (Some m) policy"
      using spec by blast
    define R where "R tm tr m \<longleftrightarrow> holders policy m tr = [] \<and>
        s = (if tm = own then tr else tm @ ascii ''/'' @ tr) \<and> who \<noteq> [] \<and>
        (c = ascii ''removed'' \<and> who = removed_holders policy m tr \<or>
         c = ascii ''renamed'' \<and> removed_holders policy m tr = [] \<and> who = former_holders policy m tr)" for tm tr m
    have "gone_target d policy own e s c who \<longleftrightarrow>
        (\<exists>tm' tr' m'. endpoint e own = Some (tm', tr') \<and> (tm', m') \<in> set (members (get d (ascii ''mantles''))) \<and>
           is_present (Some m') \<and> R tm' tr' m')"
      unfolding gone_target_def R_def ..
    also have "\<dots> \<longleftrightarrow> R tm tr m" using Some tmr m(1,2) uniq by auto
    finally have "gone_target d policy own e s c who \<longleftrightarrow> R tm tr m" .
    moreover have "broken (all_mantles d policy) own e = Some (s, c, who) \<longleftrightarrow> R tm tr m"
      unfolding R_def by (simp add: broken_def Some tmr ix m(3) index_mantle_maps Let_def opt_list_def) blast
    ultimately show ?thesis by blast
  qed
qed (simp add: broken_def gone_target_def)

lemma sort_unique_set: "sort_unique xs = sorted_list_of_set (set xs)"
proof -
  have "sorted_wrt (<) (sort_unique xs)" by simp
  then have "sorted (sort_unique xs) \<and> distinct (sort_unique xs)" by (simp only: strict_sorted_iff)
  then show ?thesis by (intro sorted_distinct_set_unique) simp_all
qed

lemma set_breaks_of:
  assumes "distinct (map fst (members (get d (ascii ''mantles''))))"
  shows "set (breaks_of s c (broken_ends (all_mantles d policy) m)) =
    {who. \<exists>b \<in> set (orset_values (orset_from_json (get (Some (snd m)) (ascii ''edges'')))).
       \<exists>e \<in> set (link_ends (decode b)). gone_target d policy (fst m) e s c who}"
proof -
  have "who \<in> set (breaks_of s c bs) \<longleftrightarrow> (s, c, who) \<in> set bs" for who bs
    by (force simp: breaks_of_def)
  then show ?thesis by (simp add: broken_ends_def set_filter_Some broken_iff [OF assms] set_eq_iff)
qed

text \<open>C29. A live link is reported exactly when its target is gone and the document says why.\<close>

theorem broken_links_exact:
  assumes "distinct (map fst (members (get d (ascii ''mantles''))))"
  shows "a \<in> set (anomalies d policy) \<and> a_kind a = link_broken \<longleftrightarrow>
    (\<exists>m W. (a_mantle a, m) \<in> set (members (get d (ascii ''mantles''))) \<and> is_present (Some m) \<and> a_kind a = link_broken \<and>
       W = {who. \<exists>b \<in> set (orset_values (orset_from_json (get (Some m) (ascii ''edges'')))).
         \<exists>e \<in> set (link_ends (decode b)). gone_target d policy (a_mantle a) e (a_subject a) (a_cause a) who} \<and>
       W \<noteq> {} \<and> a_runes a = sorted_list_of_set (\<Union> (set ` W)))"
proof -
  have "a \<in> set (anomalies d policy) \<and> a_kind a = link_broken \<longleftrightarrow>
      (\<exists>kv \<in> set (members (get d (ascii ''mantles''))). a \<in> set (broken_links (all_mantles d policy) kv))"
    unfolding set_anomalies by (auto dest: broken_links_kind removed_types_kind duplicate_names_kind)
  also have "\<dots> \<longleftrightarrow> (\<exists>m. (a_mantle a, m) \<in> set (members (get d (ascii ''mantles''))) \<and>
      a \<in> set (broken_links (all_mantles d policy) (a_mantle a, m)))"
    using broken_links_kind by (metis prod.collapse)
  also have "\<dots> \<longleftrightarrow> (\<exists>m. (a_mantle a, m) \<in> set (members (get d (ascii ''mantles''))) \<and> is_present (Some m) \<and> a_kind a = link_broken \<and>
      set (breaks_of (a_subject a) (a_cause a) (broken_ends (all_mantles d policy) (a_mantle a, m))) \<noteq> {} \<and>
      a_runes a = sorted_list_of_set (\<Union> (set ` set (breaks_of (a_subject a) (a_cause a) (broken_ends (all_mantles d policy) (a_mantle a, m))))))"
    by (cases a) (auto simp: set_broken_links sort_unique_set)
  finally show ?thesis by (simp add: set_breaks_of [OF assms])
qed

section \<open>At concrete inputs\<close>

text \<open>Two live runes of one name, and a link to a rune that was removed.\<close>

definition set_of :: "bytes \<Rightarrow> bytes \<Rightarrow> json" where
  "set_of t v = orset_to_json (orset_add t v orset_new)"

definition named_rune :: "json \<Rightarrow> bytes \<Rightarrow> json" where
  "named_rune p name = JObject [(ascii ''present'', p),
     (ascii ''fields'', JObject [(ascii ''spirit.name'', set_of [8] (kStr # 1 # name))])]"

definition broken_edge :: json where
  "broken_edge = JObject [(ascii ''from'', JString [0x6e]), (ascii ''to'', JString [0x78])]"

definition broken_mantle :: json where
  "broken_mantle = JObject [(ascii ''present'', set_of [9] [2]),
     (ascii ''runes'', JObject
       [([2], named_rune (set_of [9] [2]) [0x6e]), ([3], named_rune (set_of [9] [2]) [0x6e]),
        ([4], named_rune (orset_to_json (remove_all (orset_add [9] [2] orset_new))) [0x78])]),
     (ascii ''edges'', set_of [7] (enc broken_edge))]"

definition broken_doc :: doc where
  "broken_doc = Some (JObject [(ascii ''mantles'', JObject [([1], broken_mantle)])])"

lemma broken_doc_mantles: "members (get broken_doc (ascii ''mantles'')) = [([1], broken_mantle)]"
  by (simp add: broken_doc_def)

lemma broken_mantle_present: "is_present (Some broken_mantle)"
  by code_simp

theorem duplicate_names_exact_witness:
  "\<lparr> a_kind = duplicate_name, a_mantle = [1], a_subject = [0x6e], a_cause = [], a_runes = [[2], [3]] \<rparr>
     \<in> set (anomalies broken_doc core_defaults)"
proof -
  have "holders core_defaults broken_mantle [0x6e] = [[2], [3]]" "sort_unique [[2], [3 :: byte]] = [[2], [3]]" by code_simp+
  then show ?thesis
    using duplicate_names_exact [of broken_doc "\<lparr> a_kind = duplicate_name, a_mantle = [1], a_subject = [0x6e], a_cause = [], a_runes = [[2], [3]] \<rparr>" core_defaults]
    by (simp add: broken_doc_mantles broken_mantle_present)
qed

theorem broken_links_exact_witness:
  "\<lparr> a_kind = link_broken, a_mantle = [1], a_subject = [0x78], a_cause = ascii ''removed'', a_runes = [[4]] \<rparr>
     \<in> set (anomalies broken_doc core_defaults)"
proof -
  let ?g = "gone_target broken_doc core_defaults [1]" and ?es = "[Some (JString [0x6e]), Some (JString [0x78])]"
  have d: "distinct (map fst (members (get broken_doc (ascii ''mantles''))))" by (simp add: broken_doc_mantles)
  have b: "broken (all_mantles broken_doc core_defaults) [1] (Some (JString [0x6e])) = None"
    "broken (all_mantles broken_doc core_defaults) [1] (Some (JString [0x78])) = Some ([0x78], ascii ''removed'', [[4]])"
    by code_simp+
  have v: "orset_values (orset_from_json (get (Some broken_mantle) (ascii ''edges''))) = [enc broken_edge]"
    "link_ends (decode (enc broken_edge)) = ?es" by code_simp+
  have w: "{[[4]]} = {who. \<exists>b \<in> set (orset_values (orset_from_json (get (Some broken_mantle) (ascii ''edges'')))).
      \<exists>e \<in> set (link_ends (decode b)). ?g e [0x78] (ascii ''removed'') who}"
    unfolding v(1) by (simp add: v(2) broken_iff [OF d, symmetric] b)
  have m: "([1], broken_mantle) \<in> set (members (get broken_doc (ascii ''mantles'')))" by (simp add: broken_doc_mantles)
  show ?thesis
    by (intro conjunct1 [OF iffD2 [OF broken_links_exact [OF d]]] exI [of _ broken_mantle] exI [of _ "{[[4]]}"] conjI)
      (simp_all only: anomaly.select_convs m broken_mantle_present w [symmetric], simp_all)
qed

end
