(* ===== verification/Session.thy ===== *)
theory Session
  imports Wire References Sharing Conflict Anomaly
begin

text \<open>
  One session with one peer (\<^verbatim>\<open>src/sync/session.cpp\<close>): a state machine that is handed frames and
  the time. The replica it refers to is the member \<open>s_replica\<close>; a host that changes its replica
  between two calls changes that member. The \<^verbatim>\<open>Step\<close> under construction is \<open>s_send\<close> and
  \<open>s_events\<close>, emptied when an operation begins. A \<^verbatim>\<open>CanonicalError\<close> that leaves an operation is its
  first result; the changes made before it stay, the step is lost. The functions of the host are
  functions of their arguments during one call. Times are integers.
\<close>

section \<open>What a session keeps\<close>

datatype content_state = Unknown | Held | Deferred | Wanted | Requested | Unavailable

datatype link_state = Connecting | Open | Closed

datatype fetch_policy = Automatic | Cautious

datatype event_type =
    Peer_identified | Merged | Merge_refused | Peer_refused_state | Content_arrived | Content_refused
  | Content_unavailable | Presence_seen | Presence_expired | Message_refused | Session_closed

record event =
  e_type :: event_type
  e_peer :: bytes
  e_detail :: bytes
  e_address :: bytes
  e_bytes :: bytes
  e_conflicts :: nat
  e_anomalies :: nat

record host =
  h_share :: export_set
  h_references :: reference_policy
  h_have :: "(bytes \<Rightarrow> bool) option"
  h_read :: "(bytes \<Rightarrow> bytes option) option"
  h_fetch :: fetch_policy
  h_sign :: "(bytes \<Rightarrow> bytes) option"
  h_verify :: "(bytes \<Rightarrow> bytes \<Rightarrow> bool) option"

record timing =
  t_resend :: int
  t_hello_timeout :: int
  t_silence_timeout :: int
  t_content_timeout :: int
  t_content_attempts :: int
  t_presence_ttl :: int
  t_keepalive :: int
  t_coalesce :: int

definition default_timing :: timing where
  "default_timing = \<lparr> t_resend = 2000, t_hello_timeout = 20000, t_silence_timeout = 60000, t_content_timeout = 15000,
     t_content_attempts = 4, t_presence_ttl = 30000, t_keepalive = 20000, t_coalesce = 0 \<rparr>"

record want =
  w_state :: content_state
  w_asked_at :: int
  w_attempts :: int

record session =
  s_replica :: replica
  s_host :: host
  s_timing :: timing
  s_limits :: limits
  s_state :: link_state
  s_nonce :: bytes
  s_peer :: bytes
  s_peer_session :: bytes
  s_started :: int
  s_last_heard :: int
  s_last_said :: int
  s_seen_revision :: nat
  s_export_json :: bytes
  s_export_digest :: bytes
  s_serveable :: "bytes list"
  s_acked :: bytes
  s_refused :: bytes
  s_sent :: bytes
  s_doc_sent_at :: int
  s_last_merged :: bytes
  s_wants :: "(bytes, want) omap"
  s_presence_out :: "64 word"
  s_presence_in :: "64 word"
  s_presence_seen :: int
  s_presence_live :: bool
  s_send :: "bytes list"
  s_events :: "event list"

type_synonym act = "session \<Rightarrow> canon_error option \<times> session"

definition new_session :: "replica \<Rightarrow> host \<Rightarrow> timing \<Rightarrow> limits \<Rightarrow> session" where
  "new_session r h t l =
     \<lparr> s_replica = r, s_host = h, s_timing = t, s_limits = l, s_state = Connecting, s_nonce = [], s_peer = [],
       s_peer_session = [], s_started = 0, s_last_heard = 0, s_last_said = 0, s_seen_revision = 2 ^ 64 - 1,
       s_export_json = [], s_export_digest = [], s_serveable = [], s_acked = [], s_refused = [], s_sent = [],
       s_doc_sent_at = - 1, s_last_merged = [], s_wants = [], s_presence_out = 0, s_presence_in = 0,
       s_presence_seen = - 1, s_presence_live = False, s_send = [], s_events = [] \<rparr>"

definition fresh_step :: "session \<Rightarrow> session" where
  "fresh_step ss = ss\<lparr> s_send := [], s_events := [] \<rparr>"

definition event_of :: "event_type \<Rightarrow> bytes \<Rightarrow> bytes \<Rightarrow> bytes \<Rightarrow> bytes \<Rightarrow> event" where
  "event_of t p d a b = \<lparr> e_type = t, e_peer = p, e_detail = d, e_address = a, e_bytes = b, e_conflicts = 0, e_anomalies = 0 \<rparr>"

definition report :: "event_type \<Rightarrow> bytes \<Rightarrow> bytes \<Rightarrow> bytes \<Rightarrow> session \<Rightarrow> session" where
  "report t d a b ss = ss\<lparr> s_events := s_events ss @ [event_of t (s_peer ss) d a b] \<rparr>"

section \<open>Sending\<close>

definition msg :: "message_kind \<Rightarrow> message" where
  "msg k = blank_message\<lparr> m_kind := k \<rparr>"

definition stamped :: "session \<Rightarrow> message \<Rightarrow> message" where
  "stamped ss m =
     (let m = m\<lparr> m_from := r_id (s_replica ss), m_session := s_nonce ss \<rparr>
      in if m_kind m = Hello then m\<lparr> m_seq := (if s_peer ss = [] then 0 else 1) \<rparr> else m)"

definition signed :: "(json \<Rightarrow> bytes) \<Rightarrow> session \<Rightarrow> message \<Rightarrow> message" where
  "signed pr ss m =
     (case h_sign (s_host ss) of None \<Rightarrow> m
      | Some sign \<Rightarrow> let m = m\<lparr> m_auth := [] \<rparr> in m\<lparr> m_auth := sign (encode_frame pr m) \<rparr>)"

definition send :: "(json \<Rightarrow> bytes) \<Rightarrow> message \<Rightarrow> session \<Rightarrow> session" where
  "send pr m ss = ss\<lparr> s_send := s_send ss @ [encode_frame pr (signed pr ss (stamped ss m))] \<rparr>"

definition finish :: "(json \<Rightarrow> bytes) \<Rightarrow> bytes \<Rightarrow> bool \<Rightarrow> session \<Rightarrow> session" where
  "finish pr why say_bye ss =
     (if s_state ss = Closed then ss
      else
        let ss = (if say_bye then send pr ((msg Bye)\<lparr> m_reason := why \<rparr>) ss else ss);
            ss = ss\<lparr> s_state := Closed \<rparr>
        in report Session_closed why [] [] ss)"

section \<open>What follows from the replica\<close>

definition refresh_export :: "(json \<Rightarrow> bytes) \<Rightarrow> act" where
  "refresh_export pr ss =
     (let r = s_replica ss; h = s_host ss in
      if s_seen_revision ss = r_revision r then (None, ss)
      else
        let exp = exportable (Some (r_doc r)) (h_share h) (r_policy r);
            ss = ss\<lparr> s_seen_revision := r_revision r,
                     s_export_json := (case exp of None \<Rightarrow> [] | Some j \<Rightarrow> pr j) \<rparr>
        in case canon_doc exp of
             Inl e \<Rightarrow> (Some e, ss)
           | Inr b \<Rightarrow>
               (None, ss\<lparr> s_export_digest := to_hex (sha256 b),
                          s_serveable := (if h_references h = [] then []
                            else os_of (map ref_address (references (flatten exp (r_policy r)) (h_references h)))) \<rparr>))"

definition ask_one :: "(json \<Rightarrow> bytes) \<Rightarrow> int \<Rightarrow> message \<times> session \<Rightarrow> bytes \<times> want \<Rightarrow> message \<times> session" where
  "ask_one pr now st aw =
     (if w_state (snd aw) \<noteq> Wanted then st
      else
        let (m, ss) = st;
            (m, ss) = (if length (m_addresses m) = max_addresses (s_limits ss)
                       then (m\<lparr> m_addresses := [] \<rparr>, send pr m ss) else (m, ss))
        in (m\<lparr> m_addresses := m_addresses m @ [fst aw] \<rparr>,
            ss\<lparr> s_wants := om_put (fst aw)
                 ((snd aw)\<lparr> w_state := Requested, w_asked_at := now, w_attempts := w_attempts (snd aw) + 1 \<rparr>)
                 (s_wants ss) \<rparr>))"

definition ask :: "(json \<Rightarrow> bytes) \<Rightarrow> int \<Rightarrow> session \<Rightarrow> session" where
  "ask pr now ss =
     (if s_state ss \<noteq> Open then ss
      else
        let (m, ss) = foldl (ask_one pr now) (msg Want, ss) (s_wants ss)
        in if m_addresses m \<noteq> [] then send pr m ss else ss)"

definition host_has :: "session \<Rightarrow> bytes \<Rightarrow> bool" where
  "host_has ss a \<longleftrightarrow> (case h_have (s_host ss) of None \<Rightarrow> False | Some have' \<Rightarrow> have' a)"

definition named_files :: "session \<Rightarrow> bytes list" where
  "named_files ss =
     (let r = s_replica ss
      in os_of (map ref_address (references (flatten (Some (r_doc r)) (r_policy r)) (h_references (s_host ss)))))"

definition new_wants :: "session \<Rightarrow> (bytes, want) omap" where
  "new_wants ss =
     foldl (\<lambda>ws a. if map_of ws a \<noteq> None \<or> host_has ss a then ws
                   else om_put a \<lparr> w_state = (if h_fetch (s_host ss) = Automatic then Wanted else Deferred),
                                   w_asked_at = 0, w_attempts = 0 \<rparr> ws)
       (filter (\<lambda>kv. fst kv \<in> set (named_files ss) \<and> \<not> host_has ss (fst kv)) (s_wants ss))
       (named_files ss)"

definition refresh_wants :: "(json \<Rightarrow> bytes) \<Rightarrow> int \<Rightarrow> session \<Rightarrow> session" where
  "refresh_wants pr now ss =
     (if h_references (s_host ss) = [] then ss
      else ask pr now (ss\<lparr> s_wants := new_wants ss \<rparr>))"

section \<open>Time\<close>

text \<open>\<^verbatim>\<open>std::to_string\<close> of a signed number.\<close>

definition int_string :: "int \<Rightarrow> bytes" where
  "int_string n = (if n < 0 then ascii ''-'' @ to_string (nat (- n)) else to_string (nat n))"

definition start :: "(json \<Rightarrow> bytes) \<Rightarrow> int \<Rightarrow> session \<Rightarrow> session" where
  "start pr now ss =
     (let ss = (fresh_step ss)\<lparr> s_nonce := r_id (s_replica ss) @ ascii ''@'' @ int_string now,
                 s_started := now, s_last_heard := now, s_state := Connecting \<rparr>
      in (send pr (msg Hello) ss)\<lparr> s_last_said := now \<rparr>)"

definition send_state :: "(json \<Rightarrow> bytes) \<Rightarrow> int \<Rightarrow> bool \<Rightarrow> session \<Rightarrow> session" where
  "send_state pr now settling ss =
     (let ss = (if \<not> settling \<and> s_export_digest ss \<noteq> [] \<and> s_export_digest ss = s_last_merged ss
                then ss\<lparr> s_acked := s_export_digest ss \<rparr> else ss);
          changed = (s_export_digest ss \<noteq> s_sent ss)
      in if \<not> settling \<and> s_export_digest ss \<noteq> s_acked ss \<and> s_export_digest ss \<noteq> s_refused ss \<and>
            (changed \<or> now - s_doc_sent_at ss \<ge> t_resend (s_timing ss))
         then (send pr ((msg Doc)\<lparr> m_digest := s_export_digest ss, m_payload := s_export_json ss \<rparr>) ss)
                \<lparr> s_sent := s_export_digest ss, s_doc_sent_at := now, s_last_said := now \<rparr>
         else ss)"

definition expire_want :: "int \<Rightarrow> session \<Rightarrow> bytes \<times> want \<Rightarrow> session" where
  "expire_want now ss aw =
     (let w = snd aw in
      if w_state w \<noteq> Requested \<or> now - w_asked_at w < t_content_timeout (s_timing ss) then ss
      else if w_attempts w \<ge> t_content_attempts (s_timing ss)
      then report Content_unavailable (ascii ''no answer'') (fst aw) []
             (ss\<lparr> s_wants := om_put (fst aw) (w\<lparr> w_state := Unavailable \<rparr>) (s_wants ss) \<rparr>)
      else ss\<lparr> s_wants := om_put (fst aw) (w\<lparr> w_state := Wanted \<rparr>) (s_wants ss) \<rparr>)"

definition expire_wants :: "int \<Rightarrow> session \<Rightarrow> session" where
  "expire_wants now ss = foldl (expire_want now) ss (s_wants ss)"

definition expire_presence :: "int \<Rightarrow> session \<Rightarrow> session" where
  "expire_presence now ss =
     (if s_presence_live ss \<and> now - s_presence_seen ss \<ge> t_presence_ttl (s_timing ss)
      then report Presence_expired [] [] [] (ss\<lparr> s_presence_live := False \<rparr>) else ss)"

definition said_now :: "int \<Rightarrow> session \<Rightarrow> session" where
  "said_now now ss = (if s_send ss \<noteq> [] then ss\<lparr> s_last_said := now \<rparr> else ss)"

definition keep_alive :: "(json \<Rightarrow> bytes) \<Rightarrow> int \<Rightarrow> session \<Rightarrow> session" where
  "keep_alive pr now ss =
     (if now - s_last_said ss \<ge> t_keepalive (s_timing ss)
      then (send pr (msg Hello) ss)\<lparr> s_last_said := now \<rparr> else ss)"

definition tick_open :: "(json \<Rightarrow> bytes) \<Rightarrow> int \<Rightarrow> bool \<Rightarrow> session \<Rightarrow> session" where
  "tick_open pr now settling ss =
     keep_alive pr now (said_now now (expire_presence now (ask pr now (expire_wants now (send_state pr now settling ss)))))"

definition tick :: "(json \<Rightarrow> bytes) \<Rightarrow> int \<Rightarrow> act" where
  "tick pr now ss0 =
     (let ss = fresh_step ss0; t = s_timing ss in
      if s_state ss = Closed then (None, ss)
      else if s_state ss = Connecting then
        (None,
         if now - s_started ss \<ge> t_hello_timeout t then finish pr (ascii ''the peer never said hello'') False ss
         else if now - s_last_said ss \<ge> t_resend t then (send pr (msg Hello) ss)\<lparr> s_last_said := now \<rparr>
         else ss)
      else if now - s_last_heard ss \<ge> t_silence_timeout t
      then (None, finish pr (ascii ''the peer went silent'') False ss)
      else
        let settling = (t_coalesce t > 0 \<and> s_doc_sent_at ss \<ge> 0 \<and> now - s_doc_sent_at ss < t_coalesce t)
        in if settling then (None, tick_open pr now True ss)
           else (case refresh_export pr ss of
               (Some e, ss) \<Rightarrow> (Some e, ss)
             | (None, ss') \<Rightarrow>
                 (None, tick_open pr now False
                    (if s_seen_revision ss' \<noteq> s_seen_revision ss then refresh_wants pr now ss' else ss'))))"

section \<open>Messages\<close>

text \<open>A hello that opens the session, or opens it again because the peer has restarted.\<close>

definition hello_opens :: "message \<Rightarrow> session \<Rightarrow> bool" where
  "hello_opens m ss \<longleftrightarrow> s_state ss = Connecting \<or> m_session m \<noteq> s_peer_session ss"

definition greet :: "(json \<Rightarrow> bytes) \<Rightarrow> message \<Rightarrow> int \<Rightarrow> session \<Rightarrow> session" where
  "greet pr m now ss0 =
     (let ss = ss0\<lparr> s_last_heard := now \<rparr>;
          ss = (if s_peer ss = [] then report Peer_identified [] [] [] (ss\<lparr> s_peer := m_from m \<rparr>) else ss);
          ss = (if m_session m \<noteq> s_peer_session ss
                then ss\<lparr> s_peer_session := m_session m, s_acked := [], s_refused := [], s_sent := [],
                         s_doc_sent_at := - 1, s_last_merged := [] \<rparr> else ss);
          ss = (if hello_opens m ss0 then ss\<lparr> s_state := Open \<rparr> else ss)
      in if m_seq m = 0 \<or> hello_opens m ss0 then send pr (msg Hello) ss else ss)"

definition then_tick :: "(json \<Rightarrow> bytes) \<Rightarrow> int \<Rightarrow> act" where
  "then_tick pr now ss =
     (case tick pr now ss of
        (Some e, told) \<Rightarrow> (Some e, told)
      | (None, told) \<Rightarrow>
          (None, told\<lparr> s_send := s_send ss @ s_send told, s_events := s_events ss @ s_events told \<rparr>))"

definition on_hello :: "(json \<Rightarrow> bytes) \<Rightarrow> message \<Rightarrow> int \<Rightarrow> act" where
  "on_hello pr m now ss =
     (if m_from m = r_id (s_replica ss)
      then (None, finish pr (ascii ''the peer is using this replica's id; one of the two must fork'') True ss)
      else if s_peer ss \<noteq> [] \<and> m_from m \<noteq> s_peer ss
      then (None, report Message_refused (ascii ''a different replica on this session'') [] [] ss)
      else if hello_opens m ss then then_tick pr now (greet pr m now ss)
      else (None, greet pr m now ss))"

text \<open>The text of \<^verbatim>\<open>merge\<close> for a tag it trips on.\<close>

definition collision_text :: "replica \<Rightarrow> bytes \<Rightarrow> bytes" where
  "collision_text r tag =
     ascii ''tag '' @ tag @ ascii '' '' @
     (if tag \<notin> set (collect_all_tags (Some (r_doc r)) [])
      then ascii ''was minted under this replica's id and this replica has no record of it (restored from an older copy, or crashed after sending)''
      else ascii ''names something different here and there '' @ [0xE2, 0x80, 0x94] @
           ascii '' another device is minting under this replica's id'') @
     ascii ''. Fork to a new id.''"

definition refuse_doc :: "(json \<Rightarrow> bytes) \<Rightarrow> message \<Rightarrow> bytes \<Rightarrow> session \<Rightarrow> session" where
  "refuse_doc pr m why ss =
     report Merge_refused why [] [] (send pr ((msg Refuse)\<lparr> m_digest := m_digest m, m_reason := take 1000 why \<rparr>) ss)"

definition accept_doc :: "(json \<Rightarrow> bytes) \<Rightarrow> message \<Rightarrow> int \<Rightarrow> bytes \<Rightarrow> session \<Rightarrow> session" where
  "accept_doc pr m now dg ss =
     (let ss = send pr ((msg Ack)\<lparr> m_digest := m_digest m \<rparr>) (ss\<lparr> s_last_merged := dg \<rparr>);
          r = s_replica ss;
          e = (event_of Merged (s_peer ss) [] [] [])
                \<lparr> e_conflicts := length (conflicts (Some (r_doc r)) (r_policy r)),
                  e_anomalies := length (anomalies (Some (r_doc r)) (r_policy r)) \<rparr>
      in refresh_wants pr now (ss\<lparr> s_events := s_events ss @ [e] \<rparr>))"

definition on_doc :: "(json \<Rightarrow> bytes) \<Rightarrow> (bytes \<Rightarrow> json option) \<Rightarrow> message \<Rightarrow> int \<Rightarrow> act" where
  "on_doc pr ps m now ss =
     (if m_digest m \<noteq> [] \<and> m_digest m = s_last_merged ss
      then (None, send pr ((msg Ack)\<lparr> m_digest := m_digest m \<rparr>) ss)
      else case ps (m_payload m) of
        None \<Rightarrow> (None, refuse_doc pr m (ascii ''the state is not JSON'') ss)
      | Some j \<Rightarrow>
          (case validate (Some j) of
             Some why \<Rightarrow> (None, refuse_doc pr m (ascii ''the state failed validation: '' @ why) ss)
           | None \<Rightarrow>
               (case canon_doc (Some j) of
                  Inl e \<Rightarrow> (Some e, ss)
                | Inr b \<Rightarrow>
                    if to_hex (sha256 b) \<noteq> m_digest m
                    then (None, refuse_doc pr m (ascii ''the state does not match its digest'') ss)
                    else (None,
                      case merge pr (s_replica ss) (Some j) of
                        (merged, r') \<Rightarrow> accept_doc pr m now (to_hex (sha256 b)) (ss\<lparr> s_replica := r' \<rparr>)
                      | (invalid why, r') \<Rightarrow> refuse_doc pr m why (ss\<lparr> s_replica := r' \<rparr>)
                      | (identity_collision tag, r') \<Rightarrow>
                          let why = collision_text (s_replica ss) tag
                          in finish pr (ascii ''identity collision: '' @ why) True
                               (refuse_doc pr m why (ss\<lparr> s_replica := r' \<rparr>))))))"

definition on_ack :: "(json \<Rightarrow> bytes) \<Rightarrow> message \<Rightarrow> act" where
  "on_ack pr m ss =
     (case refresh_export pr ss of
        (Some e, ss) \<Rightarrow> (Some e, ss)
      | (None, ss) \<Rightarrow> (None, if m_digest m = s_export_digest ss then ss\<lparr> s_acked := m_digest m \<rparr> else ss))"

fun serve_each :: "(json \<Rightarrow> bytes) \<Rightarrow> bytes list \<Rightarrow> bytes list \<Rightarrow> session \<Rightarrow> canon_error option \<times> bytes list \<times> session" where
  "serve_each pr [] absent ss = (None, absent, ss)"
| "serve_each pr (a # as) absent ss =
     (case refresh_export pr ss of
        (Some e, ss) \<Rightarrow> (Some e, absent, ss)
      | (None, ss) \<Rightarrow>
          (case (if a \<in> set (s_serveable ss) then Option.bind (h_read (s_host ss)) (\<lambda>read. read a) else None) of
             Some b \<Rightarrow> serve_each pr as absent (send pr ((msg Content)\<lparr> m_address := a, m_payload := b \<rparr>) ss)
           | None \<Rightarrow> serve_each pr as (absent @ [a]) ss))"

definition on_want :: "(json \<Rightarrow> bytes) \<Rightarrow> message \<Rightarrow> act" where
  "on_want pr m ss =
     (case serve_each pr (m_addresses m) [] ss of
        (Some e, _, ss) \<Rightarrow> (Some e, ss)
      | (None, absent, ss) \<Rightarrow>
          (None, if absent \<noteq> [] then send pr ((msg Absent)\<lparr> m_addresses := absent \<rparr>) ss else ss))"

definition on_content :: "message \<Rightarrow> session \<Rightarrow> session" where
  "on_content m ss =
     (case map_of (s_wants ss) (m_address m) of
        None \<Rightarrow> report Message_refused (ascii ''a file nobody asked for'') (m_address m) [] ss
      | Some w \<Rightarrow>
          if w_state w \<noteq> Requested then report Message_refused (ascii ''a file nobody asked for'') (m_address m) [] ss
          else if \<not> content_matches (m_address m) (m_payload m)
          then report Content_refused (ascii ''bytes did not match their address'') (m_address m) []
                 (ss\<lparr> s_wants := om_put (m_address m) (w\<lparr> w_state := Wanted \<rparr>) (s_wants ss) \<rparr>)
          else report Content_arrived [] (m_address m) (m_payload m)
                 (ss\<lparr> s_wants := om_erase (m_address m) (s_wants ss) \<rparr>))"

definition absent_one :: "session \<Rightarrow> bytes \<Rightarrow> session" where
  "absent_one ss a =
     (case map_of (s_wants ss) a of None \<Rightarrow> ss
      | Some w \<Rightarrow>
          if w_state w \<noteq> Requested then ss
          else report Content_unavailable (ascii ''the peer does not serve it'') a []
                 (ss\<lparr> s_wants := om_put a (w\<lparr> w_state := Unavailable \<rparr>) (s_wants ss) \<rparr>))"

definition on_presence :: "message \<Rightarrow> int \<Rightarrow> session \<Rightarrow> session" where
  "on_presence m now ss =
     (if m_seq m \<le> s_presence_in ss then ss
      else report Presence_seen [] [] (m_payload m)
             (ss\<lparr> s_presence_in := m_seq m, s_presence_seen := now, s_presence_live := True \<rparr>))"

definition on_bye :: "(json \<Rightarrow> bytes) \<Rightarrow> message \<Rightarrow> session \<Rightarrow> session" where
  "on_bye pr m ss =
     finish pr (if m_reason m = [] then ascii ''the peer said goodbye''
                else ascii ''the peer said goodbye: '' @ m_reason m) False ss"

definition on_message :: "(json \<Rightarrow> bytes) \<Rightarrow> (bytes \<Rightarrow> json option) \<Rightarrow> message \<Rightarrow> int \<Rightarrow> act" where
  "on_message pr ps m now ss =
     (if m_kind m = Hello then on_hello pr m now ss
      else if s_peer ss = [] \<or> m_from m \<noteq> s_peer ss then (None, ss)
      else
        let ss = ss\<lparr> s_last_heard := now \<rparr>
        in case m_kind m of
             Doc \<Rightarrow> on_doc pr ps m now ss
           | Ack \<Rightarrow> on_ack pr m ss
           | Refuse \<Rightarrow> (None, report Peer_refused_state (m_reason m) [] [] (ss\<lparr> s_refused := m_digest m \<rparr>))
           | Want \<Rightarrow> on_want pr m ss
           | Content \<Rightarrow> (None, on_content m ss)
           | Absent \<Rightarrow> (None, foldl absent_one ss (m_addresses m))
           | Presence \<Rightarrow> (None, on_presence m now ss)
           | Bye \<Rightarrow> (None, on_bye pr m ss)
           | Hello \<Rightarrow> (None, ss))"

definition receive_frame :: "(json \<Rightarrow> bytes) \<Rightarrow> (bytes \<Rightarrow> json option) \<Rightarrow> bytes \<Rightarrow> int \<Rightarrow> act" where
  "receive_frame pr ps frame now ss0 =
     (let ss = fresh_step ss0 in
      if s_state ss = Closed then (None, ss)
      else case decode_frame ps (s_limits ss) frame of
        Inl why \<Rightarrow> (None, report Message_refused why [] [] ss)
      | Inr m \<Rightarrow>
          if (case h_verify (s_host ss) of None \<Rightarrow> False | Some verify \<Rightarrow> \<not> verify (auth_blank pr m) (m_auth m))
          then (None, report Message_refused (ascii ''signature did not verify'') [] [] ss)
          else (case on_message pr ps m now ss of
              (Some e, ss) \<Rightarrow> (Some e, ss)
            | (None, ss) \<Rightarrow> (None, said_now now ss)))"

section \<open>What the host starts\<close>

definition publish_presence :: "(json \<Rightarrow> bytes) \<Rightarrow> bytes \<Rightarrow> int \<Rightarrow> session \<Rightarrow> session" where
  "publish_presence pr payload now ss0 =
     (let ss = fresh_step ss0 in
      if s_state ss \<noteq> Open then ss
      else if length payload > max_presence (s_limits ss)
      then report Message_refused (ascii ''presence larger than max_presence'') [] [] ss
      else
        let ss = ss\<lparr> s_presence_out := s_presence_out ss + 1 \<rparr>
        in (send pr ((msg Presence)\<lparr> m_seq := s_presence_out ss, m_payload := payload \<rparr>) ss)\<lparr> s_last_said := now \<rparr>)"

definition fetch_file :: "(json \<Rightarrow> bytes) \<Rightarrow> bytes \<Rightarrow> int \<Rightarrow> session \<Rightarrow> session" where
  "fetch_file pr address now ss0 =
     (let ss = fresh_step ss0 in
      case map_of (s_wants ss) address of None \<Rightarrow> ss
      | Some w \<Rightarrow>
          let ss = (if w_state w = Deferred \<or> w_state w = Unavailable
                    then ss\<lparr> s_wants := om_put address (w\<lparr> w_state := Wanted, w_attempts := 0 \<rparr>) (s_wants ss) \<rparr>
                    else ss)
          in said_now now (ask pr now ss))"

definition refetch :: "fetch_policy \<Rightarrow> want \<Rightarrow> want" where
  "refetch policy w =
     (if policy = Automatic \<and> w_state w = Deferred then w\<lparr> w_state := Wanted, w_attempts := 0 \<rparr>
      else if policy = Cautious \<and> w_state w = Wanted then w\<lparr> w_state := Deferred \<rparr>
      else w)"

definition set_fetch :: "(json \<Rightarrow> bytes) \<Rightarrow> fetch_policy \<Rightarrow> int \<Rightarrow> session \<Rightarrow> session" where
  "set_fetch pr policy now ss0 =
     (let ss = fresh_step ss0;
          ss = ss\<lparr> s_host := (s_host ss)\<lparr> h_fetch := policy \<rparr>,
                   s_wants := map (\<lambda>kv. (fst kv, refetch policy (snd kv))) (s_wants ss) \<rparr>
      in said_now now (ask pr now ss))"

definition close_session :: "(json \<Rightarrow> bytes) \<Rightarrow> bytes \<Rightarrow> session \<Rightarrow> session" where
  "close_session pr reason ss = finish pr reason True (fresh_step ss)"

definition content_state_of :: "session \<Rightarrow> bytes \<Rightarrow> content_state" where
  "content_state_of ss address =
     (case map_of (s_wants ss) address of Some w \<Rightarrow> w_state w
      | None \<Rightarrow> if host_has ss address then Held else Unknown)"

definition in_sync :: "session \<Rightarrow> bool" where
  "in_sync ss \<longleftrightarrow> s_state ss = Open \<and> s_export_digest ss \<noteq> [] \<and> s_acked ss = s_export_digest ss \<and>
     s_seen_revision ss = r_revision (s_replica ss)"

end
