(* ===== verification/Syncing.thy ===== *)
theory Syncing
  imports Session Device
begin

text \<open>
  What a session does with the replica, the peer, the files and the clock, for
  \<^verbatim>\<open>src/sync/session.cpp\<close> as modelled in \<open>Session\<close>. The two locales say once which parts of a
  session the sending and the bookkeeping operations leave alone; every part that must stay is an
  interpretation.
\<close>

section \<open>What an operation leaves alone\<close>

locale output_view =
  fixes view :: "session \<Rightarrow> 'a"
  assumes view_sent: "view (ss\<lparr> s_send := fs \<rparr>) = view ss"
    and view_report: "t \<noteq> Content_arrived \<Longrightarrow> view (report t d a b ss) = view ss"
    and view_wants: "view (ss\<lparr> s_wants := ws \<rparr>) = view ss"
begin

lemma send: "view (send pr m ss) = view ss"
  by (simp add: send_def view_sent)

lemma ask_one: "view (snd (ask_one pr now st aw)) = view (snd st)"
  by (auto simp: ask_one_def view_wants send split: prod.split)

lemma ask_each: "view (snd (foldl (ask_one pr now) st ws)) = view (snd st)"
  by (induction ws arbitrary: st) (simp_all add: ask_one)

lemma ask: "view (ask pr now ss) = view ss"
  using ask_each [of pr now "(msg Want, ss)" "s_wants ss"]
  by (simp add: ask_def send case_prod_beta)

lemma refresh_wants: "view (refresh_wants pr now ss) = view ss"
  by (simp add: refresh_wants_def ask view_wants)

lemma expire_wants: "view (expire_wants now ss) = view ss"
proof -
  have "view (foldl (expire_want now) ss ws) = view ss" for ws
    by (induction ws arbitrary: ss) (simp_all add: expire_want_def view_report view_wants Let_def)
  then show ?thesis by (simp add: expire_wants_def)
qed

lemma absent: "view (foldl absent_one ss as) = view ss"
  by (induction as arbitrary: ss) (simp_all add: absent_one_def view_report view_wants split: option.split)

lemma refuse_doc: "view (refuse_doc pr m why ss) = view ss"
  by (simp add: refuse_doc_def send view_report)

end

locale derived_view = output_view +
  assumes view_export: "view (ss\<lparr> s_seen_revision := n, s_export_json := j \<rparr>) = view ss"
    and view_digest: "view (ss\<lparr> s_export_digest := d, s_serveable := as \<rparr>) = view ss"
    and view_acked: "view (ss\<lparr> s_acked := d \<rparr>) = view ss"
    and view_doc: "view (ss\<lparr> s_sent := d, s_doc_sent_at := t, s_last_said := t \<rparr>) = view ss"
    and view_said: "view (ss\<lparr> s_last_said := t \<rparr>) = view ss"
    and view_live: "view (ss\<lparr> s_presence_live := l \<rparr>) = view ss"
begin

lemma refresh_export: "view (snd (refresh_export pr ss)) = view ss"
  by (simp add: refresh_export_def Let_def view_export view_digest split: sum.split)

lemma send_state: "view (send_state pr now settling ss) = view ss"
  by (simp add: send_state_def Let_def view_acked view_doc send)

lemma expire_presence: "view (expire_presence now ss) = view ss"
  by (simp add: expire_presence_def view_report view_live)

lemma said_now: "view (said_now now ss) = view ss"
  by (simp add: said_now_def view_said)

lemma keep_alive: "view (keep_alive pr now ss) = view ss"
  by (simp add: keep_alive_def view_said send)

lemma tick_open: "view (tick_open pr now settling ss) = view ss"
  by (simp add: tick_open_def keep_alive said_now expire_presence ask expire_wants send_state)

lemma on_ack: "view (snd (on_ack pr m ss)) = view ss"
  using refresh_export [of pr ss] by (auto simp: on_ack_def view_acked split: prod.split option.split)

lemma serve_each: "view (snd (snd (serve_each pr as absent ss))) = view ss"
proof (induction as arbitrary: absent ss)
  case (Cons a as)
  obtain x ss' where e: "Session.refresh_export pr ss = (x, ss')" by fastforce
  then have "view ss' = view ss" using refresh_export [of pr ss] by simp
  then show ?case using Cons e by (simp add: send split: option.split)
qed simp

lemma on_want: "view (snd (on_want pr m ss)) = view ss"
  using serve_each [of pr "m_addresses m" "[]" ss] by (auto simp: on_want_def send split: prod.split option.split)

end

locale steady_view = derived_view +
  assumes view_events: "view (ss\<lparr> s_events := es \<rparr>) = view ss"
begin

lemma fresh: "view (fresh_step ss) = view ss"
proof -
  have "fresh_step ss = (ss\<lparr> s_send := [] \<rparr>)\<lparr> s_events := [] \<rparr>" by (simp add: fresh_step_def)
  then show ?thesis by (simp add: view_sent view_events)
qed

lemma on_content: "view (on_content m ss) = view ss"
  by (simp add: on_content_def report_def view_events view_wants split: option.split)

end

interpretation host: steady_view s_host by unfold_locales (simp_all add: report_def)
interpretation timing: steady_view s_timing by unfold_locales (simp_all add: report_def)
interpretation limits: steady_view s_limits by unfold_locales (simp_all add: report_def)
interpretation link: steady_view s_state by unfold_locales (simp_all add: report_def)
interpretation peer: steady_view s_peer by unfold_locales (simp_all add: report_def)
interpretation newest: steady_view s_presence_in by unfold_locales (simp_all add: report_def)
interpretation heard: steady_view s_last_heard by unfold_locales (simp_all add: report_def)

text \<open>The files an operation has handed to the host.\<close>

definition arrived :: "session \<Rightarrow> event list" where
  "arrived ss = filter (\<lambda>e. e_type e = Content_arrived) (s_events ss)"

interpretation arrivals: derived_view arrived
  by unfold_locales (simp_all add: arrived_def report_def event_of_def)

section \<open>The replica\<close>


lemma finish_same [simp]:
  "s_replica (finish pr why bye ss) = s_replica ss" "s_presence_in (finish pr why bye ss) = s_presence_in ss"
  "s_wants (finish pr why bye ss) = s_wants ss" "s_peer (finish pr why bye ss) = s_peer ss"
  by (simp_all add: finish_def Let_def report_def send_def)









lemma wants_ask: "om_ok (s_wants ss) \<Longrightarrow> om_ok (s_wants (ask pr now ss))"
proof -
  have one: "om_ok (s_wants (snd st)) \<Longrightarrow> om_ok (s_wants (snd (ask_one pr now st aw)))" for st aw
    by (auto simp: ask_one_def send_def split: prod.split)
  have "om_ok (s_wants (snd st)) \<Longrightarrow> om_ok (s_wants (snd (foldl (ask_one pr now) st ws)))" for st ws
    by (induction ws arbitrary: st) (simp_all add: one)
  from this [of "(msg Want, ss)"] show "om_ok (s_wants ss) \<Longrightarrow> om_ok (s_wants (ask pr now ss))"
    by (simp add: ask_def case_prod_beta send_def)
qed




section \<open>The end\<close>

text \<open>A closed session is final: it sends nothing, reports nothing, and only its step is emptied,
  whatever arrives, however late, and however often it is closed.\<close>

theorem closed_is_final:
  assumes "s_state ss = Closed"
  shows "tick pr now ss = (None, fresh_step ss) \<and> receive_frame pr ps frame now ss = (None, fresh_step ss) \<and>
    publish_presence pr payload now ss = fresh_step ss \<and> close_session pr reason ss = fresh_step ss \<and>
    s_send (fetch_file pr address now ss) = [] \<and> s_send (set_fetch pr policy now ss) = [] \<and>
    s_state (fetch_file pr address now ss) = Closed \<and> s_state (set_fetch pr policy now ss) = Closed"
proof -
  have c: "s_state (fresh_step ss) = Closed" "s_send (fresh_step ss) = []" using assms by (simp_all add: fresh_step_def)
  have a: "ask pr now a = a" if "s_state a = Closed" for a now using that by (simp add: ask_def)
  show ?thesis
    using c by (simp add: tick_def receive_frame_def publish_presence_def close_session_def finish_def fetch_file_def
        set_fetch_def said_now_def Let_def a split: option.split)
qed

section \<open>Files\<close>

lemma arrived_fresh: "arrived (fresh_step ss) = []"
  by (simp add: arrived_def fresh_step_def)

lemma arrived_finish: "arrived (finish pr why bye ss) = arrived ss"
proof -
  have "arrived (ss\<lparr> s_state := st \<rparr>) = arrived ss" for ss st by (simp add: arrived_def)
  then show ?thesis by (simp add: finish_def Let_def arrivals.view_report arrivals.send)
qed

lemma arrived_tick: "arrived (snd (tick pr now ss)) = []"
proof -
  obtain x a where a: "refresh_export pr (fresh_step ss) = (x, a)" by fastforce
  have "arrived a = []" using arrivals.refresh_export [of pr "fresh_step ss"] a by (simp add: arrived_fresh)
  then show ?thesis
    unfolding tick_def Let_def a
    by (cases x) (simp_all add: arrivals.tick_open arrivals.refresh_wants arrived_fresh arrivals.send arrivals.view_said arrived_finish)
qed

lemma arrived_on_hello: "arrived ss = [] \<Longrightarrow> arrived (snd (on_hello pr m now ss)) = []"
proof -
  assume ss: "arrived ss = []"
  have k: "arrived (a\<lparr> s_last_heard := now \<rparr>) = arrived a" "arrived (a\<lparr> s_peer := p \<rparr>) = arrived a"
    "arrived (a\<lparr> s_state := st \<rparr>) = arrived a"
    "arrived (a\<lparr> s_peer_session := n, s_acked := [], s_refused := [], s_sent := [], s_doc_sent_at := - 1, s_last_merged := [] \<rparr>) = arrived a"
    for a p st n by (simp_all add: arrived_def)
  have g: "arrived (greet pr m now ss) = []"
    using ss by (simp add: greet_def Let_def arrivals.view_report arrivals.send k)
  obtain x a where a: "tick pr now (greet pr m now ss) = (x, a)" by fastforce
  have "arrived a = []" using arrived_tick [of pr now "greet pr m now ss"] a by simp
  then have "arrived (snd (then_tick pr now (greet pr m now ss))) = []"
    using g unfolding then_tick_def a by (cases x) (simp_all add: arrived_def)
  then show ?thesis using g ss by (simp add: on_hello_def arrivals.view_report arrived_finish)
qed

lemma arrived_accept: "arrived (accept_doc pr m now dg ss) = arrived ss"
proof -
  have k: "arrived (a\<lparr> s_last_merged := d \<rparr>) = arrived a" for a d by (simp add: arrived_def)
  have "arrived (a\<lparr> s_events := s_events a @ [(event_of Merged p [] [] [])\<lparr> e_conflicts := n, e_anomalies := n' \<rparr>] \<rparr>) = arrived a"
    for a p n n' by (simp add: arrived_def event_of_def)
  then show ?thesis by (simp add: accept_doc_def Let_def arrivals.refresh_wants arrivals.send k)
qed

lemma arrived_on_doc: "arrived (snd (on_doc pr ps m now ss)) = arrived ss"
proof -
  have k: "arrived (a\<lparr> s_replica := r \<rparr>) = arrived a" for a r by (simp add: arrived_def)
  have "arrived (case merge pr (s_replica ss) (Some j) of
      (merged, r') \<Rightarrow> accept_doc pr m now dg (ss\<lparr> s_replica := r' \<rparr>)
    | (invalid why, r') \<Rightarrow> refuse_doc pr m why (ss\<lparr> s_replica := r' \<rparr>)
    | (identity_collision tag, r') \<Rightarrow>
        let why = collision_text (s_replica ss) tag
        in finish pr (ascii ''identity collision: '' @ why) True (refuse_doc pr m why (ss\<lparr> s_replica := r' \<rparr>))) = arrived ss" for j dg
    by (auto simp: arrived_accept arrivals.refuse_doc arrived_finish k Let_def split: prod.split merge_result.split)
  then show ?thesis
    by (simp add: on_doc_def arrivals.send arrivals.refuse_doc split: option.split sum.split)
qed

lemma arrived_on_message:
  assumes "arrived ss = []" "e \<in> set (arrived (snd (on_message pr ps m now ss)))"
  shows "m_kind m = Content \<and> e_address e = m_address m \<and> e_bytes e = m_payload m \<and>
    (\<exists>w. map_of (s_wants ss) (m_address m) = Some w \<and> w_state w = Requested) \<and>
    content_matches (m_address m) (m_payload m) \<and>
    map_of (s_wants (snd (on_message pr ps m now ss))) (m_address m) = None"
proof -
  have k: "arrived (a\<lparr> s_last_heard := now \<rparr>) = arrived a" "arrived (a\<lparr> s_refused := d \<rparr>) = arrived a"
      "arrived (a\<lparr> s_presence_in := n, s_presence_seen := now, s_presence_live := True \<rparr>) = arrived a" for a d n
    by (simp_all add: arrived_def)
  show ?thesis
  proof (cases "m_kind m = Content \<and> \<not> (s_peer ss = [] \<or> m_from m \<noteq> s_peer ss)")
    case True
    let ?a = "ss\<lparr> s_last_heard := now \<rparr>"
    have a: "snd (on_message pr ps m now ss) = on_content m ?a" using True by (simp add: on_message_def)
    have "arrived ?a = []" using assms(1) k by simp
    then have "e \<in> set (arrived (on_content m ?a)) - set (arrived ?a)" using assms(2) a by simp
    then show ?thesis
      using True unfolding a
      by (auto simp: on_content_def arrived_def report_def event_of_def map_of_om_erase split: option.splits if_splits)
  next
    case False
    have "arrived (snd (on_message pr ps m now ss)) = []"
      using False assms(1) arrived_on_hello [OF assms(1), of pr m now]
      by (cases "m_kind m") (auto simp: on_message_def arrived_on_doc arrivals.on_ack arrivals.on_want arrivals.absent
          arrivals.view_report on_presence_def on_bye_def arrived_finish k Let_def)
    then show ?thesis using assms(2) by simp
  qed
qed

text \<open>C8. Only what was asked for is stored, and only after its bytes match its address: an event that
  hands a file to the host comes from a frame with content for a want that was waiting, the bytes
  hash to the address, and the want is settled. Time alone never brings a file.\<close>

theorem files_are_asked_for:
  assumes r: "receive_frame pr ps frame now ss = (x, ss')" and e: "e \<in> set (s_events ss')" "e_type e = Content_arrived"
  shows "(\<exists>w. map_of (s_wants ss) (e_address e) = Some w \<and> w_state w = Requested) \<and>
    content_matches (e_address e) (e_bytes e) \<and> map_of (s_wants ss') (e_address e) = None"
proof -
  have f: "s_limits (fresh_step ss) = s_limits ss" "s_state (fresh_step ss) = s_state ss" "s_wants (fresh_step ss) = s_wants ss"
    by (simp_all add: fresh_step_def)
  have e': "e \<in> set (arrived ss')" using e by (simp add: arrived_def)
  then have "arrived ss' \<noteq> []" by auto
  then obtain m where m: "s_state ss \<noteq> Closed" "decode_frame ps (s_limits ss) frame = Inr m"
      "\<not> (case h_verify (s_host (fresh_step ss)) of None \<Rightarrow> False | Some verify \<Rightarrow> \<not> verify (auth_blank pr m) (m_auth m))"
    using r by (auto simp: receive_frame_def Let_def f arrived_fresh arrivals.view_report split: if_splits sum.splits)
  obtain y a where a: "on_message pr ps m now (fresh_step ss) = (y, a)" by fastforce
  have "receive_frame pr ps frame now ss = (case (y, a) of (Some e, b) \<Rightarrow> (Some e, b) | (None, b) \<Rightarrow> (None, said_now now b))"
    using m(1,2) f unfolding receive_frame_def Let_def a [symmetric] by (simp add: if_not_P [OF m(3)])
  then have "ss' = a \<or> ss' = said_now now a" using r by (cases y) auto
  then have s: "arrived ss' = arrived a" "s_wants ss' = s_wants a"
    by (auto simp: arrivals.said_now) (simp add: said_now_def)
  show ?thesis
    using arrived_on_message [OF arrived_fresh, of e pr ps m now ss] e' a s f by auto
qed

section \<open>The clock\<close>

text \<open>A loop that rewrites the entries of a map one after the other.\<close>

lemma each_entry:
  assumes step: "\<And>s kv. om_ok (W s) \<Longrightarrow> map_of (W s) (fst kv) = Some (snd kv) \<Longrightarrow>
      om_ok (W (g s kv)) \<and> map_of (W (g s kv)) = (map_of (W s))(fst kv \<mapsto> f (snd kv))"
    and s: "om_ok (W s)" "distinct (map fst ms)" "\<forall>kv \<in> set ms. map_of (W s) (fst kv) = Some (snd kv)"
  shows "om_ok (W (foldl g s ms)) \<and>
    map_of (W (foldl g s ms)) a = (case map_of ms a of Some w \<Rightarrow> Some (f w) | None \<Rightarrow> map_of (W s) a)"
  using s
proof (induction ms arbitrary: s)
  case (Cons kv ms)
  have st: "om_ok (W (g s kv))" "map_of (W (g s kv)) = (map_of (W s))(fst kv \<mapsto> f (snd kv))"
    using step [OF Cons.prems(1)] Cons.prems(3) by auto
  have "fst kv \<notin> fst ` set ms" using Cons.prems(2) by simp
  then have "fst kv' \<noteq> fst kv" if "kv' \<in> set ms" for kv' using that by (metis imageI)
  then have "\<forall>kv' \<in> set ms. map_of (W (g s kv)) (fst kv') = Some (snd kv')" using st(2) Cons.prems(3) by simp
  from Cons.IH [OF st(1) _ this] Cons.prems(2)
  have ih: "om_ok (W (foldl g (g s kv) ms))" "map_of (W (foldl g (g s kv) ms)) a =
      (case map_of ms a of Some w \<Rightarrow> Some (f w) | None \<Rightarrow> map_of (W (g s kv)) a)" by simp_all
  show ?case
  proof (cases "a = fst kv")
    case True
    then have "map_of ms a = None" using \<open>fst kv \<notin> fst ` set ms\<close> by (simp add: map_of_eq_None_iff)
    then show ?thesis using ih st True by (cases kv) simp
  next
    case False
    then have "map_of (W (g s kv)) a = map_of (W s) a" "map_of (kv # ms) a = map_of ms a"
      using st by (cases kv, simp)+
    then show ?thesis using ih by (cases "map_of ms a") simp_all
  qed
qed simp

lemma whole_map:
  assumes "\<And>s kv. om_ok (W s) \<Longrightarrow> map_of (W s) (fst kv) = Some (snd kv) \<Longrightarrow>
      om_ok (W (g s kv)) \<and> map_of (W (g s kv)) = (map_of (W s))(fst kv \<mapsto> f (snd kv))"
    and "om_ok (W s)"
  shows "om_ok (W (foldl g s (W s))) \<and> map_of (W (foldl g s (W s))) a = map_option f (map_of (W s) a)"
proof -
  have d: "distinct (map fst (W s))" using assms(2) by (rule om_ok_distinct)
  then have "\<forall>kv \<in> set (W s). map_of (W s) (fst kv) = Some (snd kv)" by simp
  from each_entry [of W g f, OF assms(1) assms(2) d this, of a] show ?thesis
    by (auto split: option.splits)
qed

definition asked :: "int \<Rightarrow> want \<Rightarrow> want" where
  "asked now w =
     (if w_state w = Wanted then w\<lparr> w_state := Requested, w_asked_at := now, w_attempts := w_attempts w + 1 \<rparr> else w)"

definition overdue :: "timing \<Rightarrow> int \<Rightarrow> want \<Rightarrow> bool" where
  "overdue t now w \<longleftrightarrow> w_state w = Requested \<and> now - w_asked_at w \<ge> t_content_timeout t"

definition expired :: "timing \<Rightarrow> int \<Rightarrow> want \<Rightarrow> want" where
  "expired t now w =
     (if overdue t now w
      then w\<lparr> w_state := (if w_attempts w \<ge> t_content_attempts t then Unavailable else Wanted) \<rparr> else w)"

lemma wants_ask_map:
  assumes "om_ok (s_wants ss)" "s_state ss = Open"
  shows "om_ok (s_wants (ask pr now ss)) \<and> map_of (s_wants (ask pr now ss)) a = map_option (asked now) (map_of (s_wants ss) a)"
proof -
  let ?W = "\<lambda>st :: message \<times> session. s_wants (snd st)"
  have "om_ok (?W (foldl (ask_one pr now) (msg Want, ss) (?W (msg Want, ss)))) \<and>
      map_of (?W (foldl (ask_one pr now) (msg Want, ss) (?W (msg Want, ss)))) a = map_option (asked now) (map_of (?W (msg Want, ss)) a)"
  proof (rule whole_map)
    fix st :: "message \<times> session" and kv :: "bytes \<times> want"
    assume o: "om_ok (?W st)" "map_of (?W st) (fst kv) = Some (snd kv)"
    show "om_ok (?W (ask_one pr now st kv)) \<and>
        map_of (?W (ask_one pr now st kv)) = (map_of (?W st))(fst kv \<mapsto> asked now (snd kv))"
    proof (cases "w_state (snd kv) = Wanted")
      case True
      obtain m s where st: "st = (m, s)" by fastforce
      have "?W (ask_one pr now st kv) = om_put (fst kv) (asked now (snd kv)) (s_wants s)"
        using True by (simp add: ask_one_def st asked_def send_def split: prod.split)
      then show ?thesis using o st by (simp add: map_of_om_put)
    next
      case False
      then show ?thesis using o by (simp add: ask_one_def asked_def fun_upd_idem)
    qed
  qed (use assms(1) in simp)
  then show ?thesis using assms(2) by (simp add: ask_def case_prod_beta send_def)
qed

lemma wants_expire_map:
  assumes "om_ok (s_wants ss)"
  shows "om_ok (s_wants (expire_wants now ss)) \<and>
    map_of (s_wants (expire_wants now ss)) a = map_option (expired (s_timing ss) now) (map_of (s_wants ss) a)"
proof -
  let ?t = "s_timing ss"
  let ?W = "\<lambda>st :: session. if s_timing st = ?t then s_wants st else s_wants st"
  define g where "g st kv = (if s_timing st = ?t then expire_want now st kv
      else st\<lparr> s_wants := om_put (fst kv) (expired ?t now (snd kv)) (s_wants st) \<rparr>)" for st kv
  have step: "s_timing (expire_want now st kv) = s_timing st" for st kv
    by (simp add: expire_want_def Let_def report_def)
  have e: "foldl (expire_want now) st ms = foldl g st ms" if "s_timing st = ?t" for st ms
    using that by (induction ms arbitrary: st) (simp_all add: g_def step)
  have "om_ok (s_wants (foldl g ss (s_wants ss))) \<and>
      map_of (s_wants (foldl g ss (s_wants ss))) a = map_option (expired ?t now) (map_of (s_wants ss) a)"
  proof (rule whole_map)
    fix st :: session and kv :: "bytes \<times> want"
    assume o: "om_ok (s_wants st)" "map_of (s_wants st) (fst kv) = Some (snd kv)"
    show "om_ok (s_wants (g st kv)) \<and> map_of (s_wants (g st kv)) = (map_of (s_wants st))(fst kv \<mapsto> expired ?t now (snd kv))"
    proof (cases "s_timing st = ?t \<and> \<not> overdue ?t now (snd kv)")
      case True
      then have "s_wants (g st kv) = s_wants st" by (auto simp: g_def expire_want_def overdue_def Let_def)
      then show ?thesis using True o by (simp add: expired_def fun_upd_idem)
    next
      case False
      then have "s_wants (g st kv) = om_put (fst kv) (expired ?t now (snd kv)) (s_wants st)"
        by (auto simp: g_def expire_want_def overdue_def expired_def Let_def report_def)
      then show ?thesis using o by (simp add: map_of_om_put)
    qed
  qed (use assms in simp)
  then show ?thesis using e [of ss] by (simp add: expire_wants_def)
qed

lemma wants_new: "om_ok (s_wants ss) \<Longrightarrow> om_ok (new_wants ss)"
proof -
  have one: "om_ok ws \<Longrightarrow> om_ok (foldl (\<lambda>ws a. if map_of ws a \<noteq> None \<or> host_has ss a then ws
      else om_put a (v :: want) ws) ws as)" for ws as v
    by (induction as arbitrary: ws) simp_all
  show "om_ok (s_wants ss) \<Longrightarrow> om_ok (new_wants ss)" unfolding new_wants_def by (rule one) simp
qed

lemma wants_refresh: "om_ok (s_wants ss) \<Longrightarrow> om_ok (s_wants (refresh_wants pr now ss))"
  by (simp add: refresh_wants_def wants_ask wants_new)

lemma sending_keeps:
  "s_wants (send pr m ss) = s_wants ss" "s_presence_live (send pr m ss) = s_presence_live ss"
  "s_presence_seen (send pr m ss) = s_presence_seen ss" "s_last_said (send pr m ss) = s_last_said ss"
  "s_wants (report t d a b ss) = s_wants ss" "s_presence_live (report t d a b ss) = s_presence_live ss"
  "s_presence_seen (report t d a b ss) = s_presence_seen ss"
  by (simp_all add: send_def report_def)

lemma tick_open_clock:
  assumes o: "om_ok (s_wants ss)" "s_state ss = Open"
    and t: "0 < t_content_timeout (s_timing ss)" "0 < t_keepalive (s_timing ss)"
    and out': "out = tick_open pr now settling ss"
  shows "om_ok (s_wants out) \<and>
    (\<forall>a w. map_of (s_wants out) a = Some w \<longrightarrow> w_state w \<noteq> Wanted \<and> \<not> overdue (s_timing ss) now w) \<and>
    \<not> (s_presence_live out \<and> now - s_presence_seen out \<ge> t_presence_ttl (s_timing ss)) \<and>
    now - s_last_said out < t_keepalive (s_timing ss)"
proof -
  define a where "a = send_state pr now settling ss"
  define b where "b = expire_wants now a"
  define c where "c = ask pr now b"
  define d where "d = said_now now (expire_presence now c)"
  have out: "out = keep_alive pr now d" by (simp add: out' tick_open_def a_def b_def c_def d_def)
  have t': "s_timing a = s_timing ss" "s_timing b = s_timing ss" "s_timing c = s_timing ss" "s_timing d = s_timing ss"
    by (simp_all add: a_def b_def c_def d_def timing.send_state timing.expire_wants timing.ask timing.said_now timing.expire_presence)
  have st: "s_state b = Open" using o(2) by (simp add: a_def b_def link.send_state link.expire_wants)
  have wa: "s_wants a = s_wants ss" by (simp add: a_def send_state_def Let_def sending_keeps)
  have wb: "om_ok (s_wants b)" "map_of (s_wants b) x = map_option (expired (s_timing ss) now) (map_of (s_wants ss) x)" for x
    using wants_expire_map [of a now x] o(1) wa t'(1) by (simp_all add: b_def)
  have wc: "om_ok (s_wants c)" "map_of (s_wants c) x = map_option (asked now) (map_of (s_wants b) x)" for x
    using wants_ask_map [OF wb(1) st] by (simp_all add: c_def)
  have w: "s_wants out = s_wants c"
    by (simp add: out d_def keep_alive_def said_now_def expire_presence_def sending_keeps)
  have fine: "w_state (asked now (expired (s_timing ss) now v)) \<noteq> Wanted \<and>
      \<not> overdue (s_timing ss) now (asked now (expired (s_timing ss) now v))" for v
    using t(1) by (auto simp: asked_def expired_def overdue_def)
  have p: "\<not> (s_presence_live d \<and> now - s_presence_seen d \<ge> t_presence_ttl (s_timing ss))"
    using t'(3) by (auto simp: d_def said_now_def expire_presence_def sending_keeps)
  have "s_presence_live out = s_presence_live d" "s_presence_seen out = s_presence_seen d"
    by (simp_all add: out keep_alive_def sending_keeps)
  moreover have "now - s_last_said out < t_keepalive (s_timing ss)"
    using t(2) t'(4) by (simp add: out keep_alive_def)
  ultimately show ?thesis using w wc wb fine p by auto
qed

text \<open>C7. Every state that waits has a transition on elapsed time. After a tick a session that waited for
  a hello too long is closed, one that heard nothing too long is closed, and one that is open has
  no want that is still to be asked for or was asked for too long ago, shows no presence that is
  too old, and has said something recently enough. Only a failure of the canonical form stops a
  tick.\<close>

theorem nothing_overdue:
  assumes o: "om_ok (s_wants ss)" and k: "tick pr now ss = (None, ss')" and tm: "t = s_timing ss"
    and t: "0 < t_content_timeout t" "0 < t_keepalive t"
  shows "(s_state ss = Connecting \<and> now - s_started ss \<ge> t_hello_timeout t \<longrightarrow> s_state ss' = Closed) \<and>
    (s_state ss = Open \<and> now - s_last_heard ss \<ge> t_silence_timeout t \<longrightarrow> s_state ss' = Closed) \<and>
    (s_state ss' = Open \<longrightarrow>
      (\<forall>a w. map_of (s_wants ss') a = Some w \<longrightarrow> w_state w \<noteq> Wanted \<and> \<not> overdue t now w) \<and>
      \<not> (s_presence_live ss' \<and> now - s_presence_seen ss' \<ge> t_presence_ttl t) \<and>
      now - s_last_said ss' < t_keepalive t)"
proof -
  let ?f = "fresh_step ss"
  have f: "s_timing ?f = t" "s_state ?f = s_state ss" "s_started ?f = s_started ss" "s_last_heard ?f = s_last_heard ss"
      "s_wants ?f = s_wants ss"
    using tm by (simp_all add: fresh_step_def)
  have fin: "s_state (finish pr why False ss) = Closed" for why ss by (simp add: finish_def Let_def report_def)
  consider (closed) "s_state ss = Closed" | (connecting) "s_state ss = Connecting"
    | (silent) "s_state ss = Open" "now - s_last_heard ss \<ge> t_silence_timeout t"
    | (heard) "s_state ss = Open" "\<not> now - s_last_heard ss \<ge> t_silence_timeout t"
    by (cases "s_state ss") auto
  then show ?thesis
  proof cases
    case closed
    then show ?thesis using k f by (simp add: tick_def Let_def)
  next
    case connecting
    then have "ss' = (if now - s_started ss \<ge> t_hello_timeout t then finish pr (ascii ''the peer never said hello'') False ?f
         else if now - s_last_said ?f \<ge> t_resend t then (send pr (msg Hello) ?f)\<lparr> s_last_said := now \<rparr> else ?f)"
      using k f by (auto simp: tick_def Let_def)
    moreover have "s_state (send pr (msg Hello) ?f) = Connecting" using connecting f by (simp add: link.send)
    ultimately show ?thesis using connecting f(2) fin by (simp split: if_splits)
  next
    case silent
    then have "ss' = finish pr (ascii ''the peer went silent'') False ?f" using k f by (simp add: tick_def Let_def)
    then show ?thesis using fin silent by simp
  next
    case heard
    have "\<exists>settling a. ss' = tick_open pr now settling a \<and> om_ok (s_wants a) \<and> s_state a = Open \<and> s_timing a = t"
    proof (cases "t_coalesce t > 0 \<and> s_doc_sent_at ?f \<ge> 0 \<and> now - s_doc_sent_at ?f < t_coalesce t")
      case True
      then have "ss' = tick_open pr now True ?f" using k heard f by (simp add: tick_def Let_def)
      then show ?thesis using o f heard by (intro exI [of _ True] exI [of _ ?f]) simp
    next
      case False
      obtain x a where a: "refresh_export pr ?f = (x, a)" by fastforce
      have wa: "s_wants a = s_wants ss" using a f(5) by (auto simp: refresh_export_def Let_def split: if_splits sum.splits)
      have sa: "s_state a = Open" "s_timing a = t"
        using link.refresh_export [of pr ?f] timing.refresh_export [of pr ?f] a f heard by simp_all
      have "ss' = tick_open pr now False (if s_seen_revision a \<noteq> s_seen_revision ?f then refresh_wants pr now a else a)"
        using k heard f a unfolding tick_def Let_def by (cases x) (simp_all add: if_not_P [OF False])
      then show ?thesis using o wa sa
        by (intro exI [of _ False] exI [of _ "if s_seen_revision a \<noteq> s_seen_revision ?f then refresh_wants pr now a else a"])
           (simp add: wants_refresh link.refresh_wants timing.refresh_wants)
    qed
    then obtain settling a where a: "ss' = tick_open pr now settling a" "om_ok (s_wants a)" "s_state a = Open" "s_timing a = t"
      by blast
    then have "s_state ss' = Open" by (simp add: link.tick_open)
    then show ?thesis using tick_open_clock [OF a(2,3) _ _ a(1)] a(4) t heard by auto
  qed
qed

section \<open>What leaves\<close>


definition frame_of :: "(json \<Rightarrow> bytes) \<Rightarrow> session \<Rightarrow> message \<Rightarrow> bytes" where
  "frame_of pr ss m = encode_frame pr (signed pr ss (stamped ss m))"


lemma send_frame: "send pr m ss = ss\<lparr> s_send := s_send ss @ [frame_of pr ss m] \<rparr>"
  by (simp add: send_def frame_of_def)





section \<open>One state from one device to the other\<close>





section \<open>What goes wrong\<close>

text \<open>A valid document whose canonical form does not exist: the name of its mantle is not UTF-8.\<close>

definition nameless_doc :: json where
  "nameless_doc = JObject [(ascii ''palabra'', mk_int 1), (ascii ''mantles'', JObject [([0xFF], JObject [])])]"

lemma nameless_valid: "valid_doc nameless_doc"
proof -
  have "nul_free [0xFF]" by (simp add: nul_free_def)
  then show ?thesis
    by (simp add: valid_doc_iff nameless_doc_def conforms_object distinct_members_def mk_int_def nul_free_ascii)
qed

lemma nameless: "canon_doc (Some nameless_doc) \<noteq> Inr b"
proof
  have set: "\<not> is_orset (Some (JObject [([0xFF], JObject [])]))" "\<not> is_orset (Some nameless_doc)"
    by (simp_all add: is_orset_def nameless_doc_def)
  have n: "normalize_node (JObject [([0xFF], JObject [])]) = JObject [([0xFF], normalize_node (JObject []))]"
    using set(1) by (simp add: normalize_node.simps [of "JObject [([0xFF], JObject [])]"])
  have "normalize_node nameless_doc = JObject [(ascii ''palabra'', normalize_node (mk_int 1)),
      (ascii ''mantles'', JObject [([0xFF], normalize_node (JObject []))])]"
    using set(2) n by (simp add: normalize_node.simps [of nameless_doc]) (simp add: nameless_doc_def)
  moreover assume "canon_doc (Some nameless_doc) = Inr b"
  ultimately have "encode (JObject [(ascii ''palabra'', normalize_node (mk_int 1)),
      (ascii ''mantles'', JObject [([0xFF], normalize_node (JObject []))])]) = Inr b"
    by (simp only: canon_doc_def option.map encode_opt_def option.case)
  from this [unfolded encode_JObject_iff Let_def]
  have "encode (JObject [([0xFF], normalize_node (JObject []))]) = Inr (enc (JObject [([0xFF], normalize_node (JObject []))]))"
    by (simp del: encode.simps)
  from this [unfolded encode_JObject_iff Let_def] have "valid_utf8 [0xFF]" by simp
  moreover have "\<not> valid_utf8 [0xFF]" by code_simp
  ultimately show False by simp
qed

text \<open>C16. A hostile state is not refused: a document that passes the check and cannot be encoded, since
  nothing checks that its names are UTF-8, leaves \<^verbatim>\<open>Session::receive\<close> as an exception.\<close>

theorem hostile_state_throws:
  assumes "m_kind m = Doc" "ps (m_payload m) = Some nameless_doc" "m_digest m \<noteq> s_last_merged ss"
  shows "validate (Some nameless_doc) = None \<and> fst (on_doc pr ps m now ss) \<noteq> None"
proof -
  obtain x where x: "canon_doc (Some nameless_doc) = Inl x" using nameless by (cases "canon_doc (Some nameless_doc)") auto
  have v: "validate (Some nameless_doc) = None" using nameless_valid by (simp add: valid_doc_def)
  have n: "\<not> (m_digest m \<noteq> [] \<and> m_digest m = s_last_merged ss)" using assms(3) by simp
  show ?thesis using v unfolding on_doc_def if_not_P [OF n] by (simp add: assms(2) x)
qed

lemma newest_on_hello: "s_presence_in (snd (on_hello pr m now ss)) = s_presence_in ss"
proof -
  have g: "s_presence_in (greet pr m now ss) = s_presence_in ss"
    by (simp add: greet_def Let_def report_def newest.send)
  obtain x a where a: "tick pr now (greet pr m now ss) = (x, a)" by fastforce
  let ?f = "fresh_step (greet pr m now ss)"
  obtain y e where e: "refresh_export pr ?f = (y, e)" by fastforce
  have "s_presence_in e = s_presence_in ss" using newest.refresh_export [of pr ?f] e g by (simp add: newest.fresh)
  then have "s_presence_in (snd (tick pr now (greet pr m now ss))) = s_presence_in ss"
    using g unfolding tick_def Let_def e
    by (cases y) (simp_all add: newest.tick_open newest.refresh_wants newest.fresh newest.send)
  then have "s_presence_in (snd (then_tick pr now (greet pr m now ss))) = s_presence_in ss"
    using g a unfolding then_tick_def a by (cases x) simp_all
  then show ?thesis using g by (simp add: on_hello_def report_def)
qed

text \<open>C17. The presence of a peer that has restarted is dropped: a hello with a new session forgets what the
  peer had acknowledged but not how far its presence had counted, and the restarted peer counts from
  one again.\<close>

theorem restarted_presence_dropped:
  assumes "s_peer ss = m_from h" "m_from h \<noteq> []" "m_from h \<noteq> r_id (s_replica ss)" "m_session h \<noteq> s_peer_session ss"
    and "m_seq p \<le> s_presence_in ss" "on_hello pr h now ss = (None, ss')"
  shows "s_peer_session (greet pr h now ss) = m_session h \<and> on_presence p now' ss' = ss'"
proof -
  have "s_presence_in ss' = s_presence_in ss" using newest_on_hello [of pr h now ss] assms(6) by simp
  moreover have "s_peer_session (greet pr h now ss) = m_session h"
    by (simp add: greet_def Let_def report_def send_def)
  ultimately show ?thesis using assms(5) by (simp add: on_presence_def)
qed

text \<open>A private rune that names a picture this device does not hold.\<close>

definition picture :: bytes where
  "picture = replicate 64 0x61"

definition photo_mantles :: json where
  "photo_mantles = JObject [(ascii ''m'', JObject [(ascii ''present'', orset_to_json there),
     (ascii ''runes'', JObject [(ascii ''r'', JObject [(ascii ''present'', orset_to_json there),
        (ascii ''fields'', JObject [(ascii ''content.photo'',
           orset_to_json (orset_add (ascii ''c_1'') (str_bytes picture) orset_new))])])])])]"

definition photo_doc :: json where
  "photo_doc = JObject [(ascii ''palabra'', mk_int 1), (ascii ''mantles'', photo_mantles)]"

definition photo_host :: host where
  "photo_host = \<lparr> h_share = Some (\<lambda>m r. r = []), h_references = [(ascii ''content.photo'', Some sha256_hex_anywhere)],
     h_have = None, h_read = None, h_fetch = Automatic, h_sign = None, h_verify = None \<rparr>"

definition photo_session :: session where
  "photo_session = (new_session \<lparr> r_id = ascii ''0123456789abcdef'', r_issued = 9, r_revision = 3, r_doc = photo_doc,
      r_policy = default_policy \<rparr> photo_host default_timing default_limits)
    \<lparr> s_state := Open, s_peer := ascii ''fedcba9876543210'' \<rparr>"

lemma photo_named:
  "os_of (map ref_address (references (flatten (Some (JObject [(ascii ''palabra'', v), (ascii ''mantles'', photo_mantles)])) default_policy)
     [(ascii ''content.photo'', Some sha256_hex_anywhere)])) = [picture]"
  by code_simp

lemma photo_exported:
  "List.map_filter (export_rune (Some (\<lambda>m r. r = [])) (ascii ''m''))
     [(ascii ''r'', JObject [(ascii ''present'', orset_to_json there),
        (ascii ''fields'', JObject [(ascii ''content.photo'',
           orset_to_json (orset_add (ascii ''c_1'') (str_bytes picture) orset_new))])])] = []"
  by code_simp

lemma photo_valid: "valid_doc photo_doc"
proof -
  have s: "set_ok AnyBytes (orset_to_json there)"
    "set_ok CanonicalValue (orset_to_json (orset_add (ascii ''c_1'') (str_bytes picture) orset_new))"
    by code_simp+
  have f: "rune_field_allowed (ascii ''content.photo'')" by code_simp
  have "json_wf photo_doc"
    by (simp add: photo_doc_def photo_mantles_def mk_int_def json_wf_orset nul_free_ascii)
  then show ?thesis
    using s f by (simp add: valid_doc_iff photo_doc_def photo_mantles_def conforms_object distinct_members_def)
qed

text \<open>C15. A private file is asked for: the files a session asks its peer for are those the whole document
  names, and not those its export names, so the address of a file that only a private rune names
  leaves the device, although the export holds nothing of that rune.\<close>

theorem private_file_asked_for:
  "\<exists>out. valid_doc photo_doc \<and> \<not> allowed (h_share photo_host) (ascii ''m'') (ascii ''r'') \<and>
     exportable (Some photo_doc) (h_share photo_host) default_policy = Some out \<and>
     node_at (Some out) [ascii ''mantles'', ascii ''m'', ascii ''runes'', ascii ''r''] = None \<and>
     s_send (refresh_wants pr now photo_session) =
       [frame_of pr photo_session ((msg Want)\<lparr> m_addresses := [picture] \<rparr>)]"
proof -
  obtain out where out: "exportable (Some photo_doc) (h_share photo_host) default_policy = Some out"
    using photo_valid by (rule export_valid)
  obtain wm wn where w: "withheld (h_share photo_host) default_policy (members (get (Some photo_doc) (ascii ''mantles''))) = (wm, wn)"
    by fastforce
  have "set wm = {}"
    using withheld_mantles [of "h_share photo_host" default_policy "([], [])" "members (get (Some photo_doc) (ascii ''mantles''))"] w
    by (simp add: withheld_def photo_host_def allowed_def)
  then have wm: "wm = []" by simp
  let ?rs = "[(ascii ''r'', JObject [(ascii ''present'', orset_to_json there),
        (ascii ''fields'', JObject [(ascii ''content.photo'',
           orset_to_json (orset_add (ascii ''c_1'') (str_bytes picture) orset_new))])])]"
  let ?m = "JObject [(ascii ''present'', orset_to_json there), (ascii ''runes'', JObject ?rs)]"
  have m: "node_at (Some photo_doc) [ascii ''mantles'', ascii ''m''] = Some ?m"
    by (simp add: photo_doc_def photo_mantles_def nul_free_ascii)
  have g: "get (Some ?m) (ascii ''runes'') = Some (JObject ?rs)" by simp
  have "export_mantle (h_share photo_host) wm wn (ascii ''m'', ?m) =
      Some (ascii ''m'', JObject [(ascii ''present'', orset_to_json there), (ascii ''runes'', JObject [])])"
    using photo_exported by (simp add: export_mantle_def Let_def wm photo_host_def add_opt_def add_member_def nul_free_ascii)
  then have n: "node_at (Some out) [ascii ''mantles'', ascii ''m'', ascii ''runes'', ascii ''r''] = None"
    using export_at [OF photo_valid out w, of "ascii ''m''" "[ascii ''runes'', ascii ''r'']"] m by (simp add: nul_free_ascii)
  have named: "named_files photo_session = [picture]"
    using photo_named [of "mk_int 1"]
    by (simp add: named_files_def photo_session_def new_session_def photo_doc_def photo_host_def)
  then have "new_wants photo_session = [(picture, \<lparr> w_state = Wanted, w_asked_at = 0, w_attempts = 0 \<rparr>)]"
    unfolding new_wants_def named by (simp add: host_has_def photo_session_def new_session_def photo_host_def)
  then have "s_send (refresh_wants pr now photo_session) =
      [frame_of pr photo_session ((msg Want)\<lparr> m_addresses := [picture] \<rparr>)]"
    by (simp add: refresh_wants_def ask_def ask_one_def msg_def blank_message_def send_frame frame_of_def signed_def
        stamped_def photo_session_def new_session_def photo_host_def default_limits_def)
  then show ?thesis using photo_valid out n by (auto simp: allowed_def photo_host_def)
qed

section \<open>At concrete inputs\<close>

definition note_host :: host where
  "note_host = \<lparr> h_share = share_everything, h_references = [], h_have = None, h_read = None, h_fetch = Automatic,
     h_sign = None, h_verify = None \<rparr>"

definition note_session :: session where
  "note_session = new_session note_replica note_host default_timing default_limits"

definition no_text :: "json \<Rightarrow> bytes" where "no_text j = []"



theorem closed_is_final_witness:
  "tick no_text 7 (close_session no_text [] note_session) = (None, fresh_step (close_session no_text [] note_session))"
proof -
  have "s_state (close_session no_text [] note_session) = Closed"
    by (simp add: close_session_def finish_def Let_def report_def note_session_def new_session_def fresh_step_def)
  from closed_is_final [OF this] show ?thesis by blast
qed

text \<open>A peer that sends the empty file that was asked for.\<close>

definition empty_address :: bytes where
  "empty_address = to_hex (sha256 [])"

definition waiting_session :: session where
  "waiting_session = note_session\<lparr> s_state := Open, s_peer := ascii ''b'',
     s_wants := [(empty_address, \<lparr> w_state = Requested, w_asked_at = 0, w_attempts = 1 \<rparr>)] \<rparr>"

definition the_file :: message where
  "the_file = (msg Content)\<lparr> m_from := ascii ''b'', m_address := empty_address \<rparr>"

definition parse_file :: "bytes \<Rightarrow> json option" where
  "parse_file b = Some (header_of the_file)"

lemma file_frame:
  "decode_frame parse_file default_limits (encode_frame no_text the_file) = Inr the_file"
proof (rule frame_back)
  show "message_ok default_limits the_file"
    by (simp add: message_ok_def the_file_def msg_def blank_message_def default_limits_def empty_address_def length_to_hex)
      (simp add: ascii_def)
  have "nul_free (to_hex d)" for d using nul_free_hexify [of d] by (simp add: hexify_to_hex)
  then show "\<forall>s \<in> set (message_texts the_file). nul_free s"
    by (simp add: message_texts_def the_file_def msg_def blank_message_def nul_free_ascii empty_address_def)
  show "parse_file (no_text (header_of the_file)) = Some (header_of the_file)" by (simp add: parse_file_def)
  show "length (encode_frame no_text the_file) \<le> max_frame default_limits"
    by (simp add: encode_frame_def no_text_def the_file_def msg_def blank_message_def default_limits_def put_u32_def)
      (simp add: ascii_def)
  show "max_frame default_limits < 2 ^ 32" by (simp add: default_limits_def)
qed

theorem files_are_asked_for_witness:
  "content_matches empty_address [] \<and>
   map_of (s_wants (snd (receive_frame no_text parse_file (encode_frame no_text the_file) 9 waiting_session))) empty_address = None"
proof -
  obtain x ss' where r: "receive_frame no_text parse_file (encode_frame no_text the_file) 9 waiting_session = (x, ss')"
    by fastforce
  have c: "content_matches empty_address []" using own_address [of "[]"] by (simp add: empty_address_def)
  have "event_of Content_arrived (ascii ''b'') [] empty_address [] \<in> set (s_events ss')"
    using r c file_frame
    by (simp add: receive_frame_def Let_def waiting_session_def note_session_def new_session_def fresh_step_def note_host_def
        on_message_def the_file_def msg_def blank_message_def on_content_def report_def said_now_def)
       (auto simp: event_of_def)
  from files_are_asked_for [OF r this] show ?thesis using r by (simp add: event_of_def)
qed

text \<open>A device that has nothing yet, in session with another.\<close>

definition bare_bytes :: bytes where
  "bare_bytes = enc (normalize_node empty_root)"

definition bare_session :: session where
  "bare_session = note_session\<lparr> s_state := Open, s_peer := ascii ''fedcba9876543210'' \<rparr>"

definition bare_export :: "session \<Rightarrow> session" where
  "bare_export ss = ss\<lparr> s_seen_revision := 0, s_export_json := [], s_export_digest := to_hex (sha256 bare_bytes) \<rparr>"


lemma bare_canon: "canon_doc (Some empty_root) = Inr bare_bytes"
proof -
  have o: "\<not> is_orset (Some empty_root)" "\<not> is_orset (Some (JObject []))" "\<not> is_orset (Some (mk_int 1))"
    by (simp_all add: is_orset_def empty_root_def mk_int_def)
  have n: "normalize_node (JObject []) = JObject []" "normalize_node (mk_int 1) = mk_int 1"
    using o(2,3) by (simp_all add: normalize_node.simps [of "JObject []"] normalize_node.simps [of "mk_int 1"])
      (simp add: mk_int_def)
  then have e: "normalize_node empty_root = empty_root"
    using o(1) by (simp add: normalize_node.simps [of empty_root]) (simp add: empty_root_def)
  have k: "valid_utf8 (ascii ''palabra'') \<and> valid_utf8 (ascii ''mantles'') \<and>
      str_bytes (ascii ''palabra'') \<noteq> str_bytes (ascii ''mantles'')"
    by code_simp
  have i: "encode (mk_int 1) = Inr (enc (mk_int 1))"
    using dbl_of_int_exact [of 1] by (simp add: mk_int_def encode_number_def folds_to_int_def enc_def)
  have "\<exists>b. encode empty_root = Inr b"
    unfolding empty_root_def encode_JObject_iff Let_def using k i by (simp add: enc_def encode_map_def)
  then show ?thesis
    using e by (auto simp: canon_doc_def encode_opt_def bare_bytes_def enc_def)
qed

lemma bare_exported: "exportable (Some (r_doc note_replica)) share_everything default_policy = Some empty_root"
  by (simp add: exportable_def Let_def withheld_def note_replica_def empty_root_def add_opt_def)

lemma bare_refreshed:
  assumes "s_replica ss = note_replica" "s_host ss = note_host" "s_seen_revision ss \<noteq> 0" "s_serveable ss = []"
  shows "refresh_export no_text ss = (None, bare_export ss)"
proof -
  have r: "r_revision note_replica = 0" "r_policy note_replica = default_policy" "h_share note_host = share_everything"
    "h_references note_host = []"
    by (simp_all add: note_replica_def note_host_def)
  show ?thesis
    using assms(3,4) unfolding refresh_export_def Let_def assms(1,2) r bare_exported option.case bare_canon sum.case
    by (simp add: bare_export_def no_text_def)
qed


theorem nothing_overdue_witness:
  "s_state (snd (tick no_text 30000 (start no_text 5 note_session))) = Closed"
proof -
  let ?a = "start no_text 5 note_session"
  have a: "s_timing ?a = default_timing" "s_state ?a = Connecting" "s_started ?a = 5" "s_wants ?a = []"
    by (simp_all add: start_def Let_def send_def note_session_def new_session_def fresh_step_def)
  obtain x b where b: "tick no_text 30000 ?a = (x, b)" by fastforce
  then have "x = None" using a by (auto simp: tick_def Let_def fresh_step_def)
  then show ?thesis
    using nothing_overdue [of ?a no_text 30000 b default_timing] a b by (simp add: default_timing_def)
qed

theorem hostile_state_throws_witness:
  "fst (on_doc no_text (\<lambda>b. Some nameless_doc) ((msg Doc)\<lparr> m_digest := ascii ''d'' \<rparr>) 9 bare_session) \<noteq> None"
  using hostile_state_throws [of "(msg Doc)\<lparr> m_digest := ascii ''d'' \<rparr>" "\<lambda>b. Some nameless_doc" bare_session no_text 9]
  by (simp add: msg_def blank_message_def bare_session_def note_session_def new_session_def)

definition back_again :: message where
  "back_again = (msg Hello)\<lparr> m_from := ascii ''fedcba9876543210'', m_session := ascii ''second'', m_seq := 1 \<rparr>"

definition seen_session :: session where
  "seen_session = bare_session\<lparr> s_peer_session := ascii ''first'', s_presence_in := 7 \<rparr>"

theorem restarted_presence_dropped_witness:
  "\<exists>ss'. on_hello no_text back_again 9 seen_session = (None, ss') \<and>
     on_presence ((msg Presence)\<lparr> m_seq := 1 \<rparr>) 10 ss' = ss'"
proof -
  have k: "s_peer seen_session = m_from back_again" "m_from back_again \<noteq> []" "m_from back_again \<noteq> r_id (s_replica seen_session)"
    "m_session back_again \<noteq> s_peer_session seen_session" "m_seq ((msg Presence)\<lparr> m_seq := 1 \<rparr>) \<le> s_presence_in seen_session"
    by (simp_all add: seen_session_def bare_session_def back_again_def note_session_def new_session_def note_replica_def)
  let ?g = "greet no_text back_again 9 seen_session"
  obtain x ss' where h: "on_hello no_text back_again 9 seen_session = (x, ss')" by fastforce
  have g: "s_state ?g = Open" "s_replica ?g = note_replica" "s_host ?g = note_host" "s_seen_revision ?g = 2 ^ 64 - 1"
    "s_serveable ?g = []" "s_timing ?g = default_timing" "s_last_heard ?g = 9"
    using k(4) by (simp_all add: greet_def Let_def report_def hello_opens_def send_def)
      (simp_all add: seen_session_def bare_session_def note_session_def new_session_def)
  have "refresh_export no_text (fresh_step ?g) = (None, bare_export (fresh_step ?g))"
    by (rule bare_refreshed) (use g in \<open>simp_all add: fresh_step_def\<close>)
  then obtain told where tk: "tick no_text 9 ?g = (None, told)"
    using g by (simp add: tick_def Let_def fresh_step_def default_timing_def)
  then have "x = None"
    using h k g by (simp add: on_hello_def then_tick_def hello_opens_def)
  then show ?thesis using restarted_presence_dropped [OF k, of no_text 9 ss' 10] h by blast
qed


end
