(* ===== verification/Spec2Isabelle.thy ===== *)
theory Spec2Isabelle
  imports Codec Shapes Ordered History Syncing
begin

text \<open>
  VoidPalabra keeps the state of a Void Core application in step between devices that are
  offline most of the time. Three layers are modelled, from the bytes up.

  \<^bold>\<open>Names.\<close> Everything is compared and identified by canonical bytes. A cJSON value becomes
  bytes in one way (\<^verbatim>\<open>src/encoding/encode.cpp\<close>: theories \<open>Dbl\<close>, \<open>Json\<close>, \<open>Encode\<close>), the bytes are
  read back by a decoder that faces hostile input (\<^verbatim>\<open>src/encoding/decode.cpp\<close>: \<open>Decode\<close>), their
  SHA-256 under a domain is a name (\<^verbatim>\<open>src/encoding/sha256.cpp\<close>: \<open>Sha256\<close>), and the shapes of Void
  Core - edges, runes, mantles, glyph declarations, slices - have names of their own
  (\<^verbatim>\<open>src/canonical/bindings.cpp\<close>: \<open>Bindings\<close>). \<open>Codec\<close> relates the two directions; \<open>Shapes\<close>
  shows which orders a name depends on and which it does not.

  \<^bold>\<open>State.\<close> The one replicated primitive is a set of tagged values with retired tags
  (\<^verbatim>\<open>src/crdt/orset.cpp\<close>: \<open>OrSet\<close>); a register is such a set, read under a declared policy
  (\<^verbatim>\<open>src/crdt/policy.cpp\<close>: \<open>Policy\<close>). A document is a JSON tree whose leaves are such sets; two
  documents are merged node by node (\<^verbatim>\<open>join_node\<close>, \<^verbatim>\<open>canon_doc\<close> of \<^verbatim>\<open>src/crdt/document.cpp\<close>:
  \<open>Join\<close>), built from a state, edited and flattened to one (the rest of that file: \<open>Document\<close>,
  with its lemmas in \<open>Edits\<close>). A peer's document passes a check first
  (\<^verbatim>\<open>src/crdt/validate.cpp\<close>: \<open>Validate\<close>; \<open>Kinds\<close> is the grammar it enforces). Ordered content is
  a Fugue tree in one set (\<^verbatim>\<open>src/crdt/sequence.cpp\<close>: \<open>Sequence\<close>, lemmas in \<open>Fugue\<close>, \<open>Ordered\<close>).
  What a reader is asked about and told is computed from the document: conflicts and writers
  (\<^verbatim>\<open>src/crdt/conflict.cpp\<close>, \<^verbatim>\<open>provenance.cpp\<close>: \<open>Conflict\<close>) and the rules a merge broke
  (\<^verbatim>\<open>src/crdt/anomaly.cpp\<close>: \<open>Anomaly\<close>). A device's copy mints the tags, observes states, merges
  documents and is saved and loaded (\<^verbatim>\<open>src/crdt/replica.cpp\<close>: \<open>Replica\<close>, lemmas in \<open>Editing\<close> and
  \<open>Minting\<close>).

  \<^bold>\<open>Change.\<close> The undo slice of Void Core's journal becomes a chain of utterances, each named by
  its content (\<^verbatim>\<open>src/utterance/journal.cpp\<close>, \<^verbatim>\<open>utterance.cpp\<close>: \<open>Utterance\<close>); the utterances of all
  devices form a graph that grows by records, arrivals in any order and whole graphs
  (\<^verbatim>\<open>src/utterance/history.cpp\<close>: \<open>History\<close>).

  \<^bold>\<open>Exchange.\<close> Bytes too large for a document live in a store of blocks under their hash, cut by a
  rolling hash and packed into containers (\<^verbatim>\<open>src/store/chunk.cpp\<close>: \<open>Chunking\<close>; \<^verbatim>\<open>blocks.cpp\<close>,
  \<^verbatim>\<open>container.cpp\<close>: \<open>Store\<close>); which files a state names is read off it by declared finders
  (\<^verbatim>\<open>src/canonical/references.cpp\<close>: \<open>References\<close>). What may leave a device is a projection of its
  document (\<^verbatim>\<open>src/sync/export.cpp\<close>: \<open>Sharing\<close>). Two devices talk in frames, whole or over a stream
  (\<^verbatim>\<open>src/sync/wire.cpp\<close>: \<open>Wire\<close>), and a session for each peer turns frames and elapsed time into
  frames and events (\<^verbatim>\<open>src/sync/session.cpp\<close>: \<open>Session\<close>). The session owns the wants, the timers and
  the digests; it shares the replica with the application, calls its merge for a state that
  arrives, the export for a state that leaves, and the references for the files of both.
  \<open>Observing\<close> and \<open>Device\<close> prove what a device promises over all its operations, \<open>Syncing\<close> what a
  session does.

  \<^bold>\<open>How data is modelled.\<close> A byte is an \<open>8 word\<close> and \<^verbatim>\<open>std::string\<close> a list of them; a C string is cut
  at its first zero (\<open>c_str\<close>). A \<^verbatim>\<open>double\<close> is its 64-bit pattern with the comparisons and the
  conversions the code uses (\<open>Dbl\<close>); \<^verbatim>\<open>uint64_t\<close> is \<open>64 word\<close>. A cJSON node is the datatype \<open>json\<close>, a
  pointer that may be null a \<open>json option\<close>. \<^verbatim>\<open>std::map\<close> and \<^verbatim>\<open>std::set\<close> are strictly sorted lists with
  the operations of \<open>Prelude\<close>. An exception is the \<open>Inl\<close> of a sum; what a throwing operation has
  already changed stays changed where it does in the code (\<open>step\<close> of \<open>Replica\<close>). JSON text is
  printed and parsed by cJSON, which is not part of the repository: the printer \<open>pr\<close> and the
  parser \<open>ps\<close> are arguments of the definitions that use them. The functions an application
  supplies - what is shared, which files it has, how it signs - are fields of the record \<open>host\<close> and
  give one answer within a call. A time in milliseconds is an \<open>int\<close>, the revision of a replica a
  \<open>nat\<close>. The frames and events a step of a session returns are the last two fields of \<open>session\<close>,
  emptied when a step begins.

  \<^bold>\<open>Fuel.\<close> \<open>decode_at\<close> and \<open>encode\<close> recurse on the nesting the code limits to \<open>max_depth\<close>; beyond it
  the code returns an error, and so does the model. The traversal of a sequence
  (\<open>Fugue.enough_fuel\<close>) and the walks and the linear extension of a history
  (\<open>History.walk_total\<close>, \<open>History.kahn_spec\<close>) run on fuel computed from the number of nodes, and are
  proved to return a result for every document and every well formed history.

  \<^bold>\<open>What is proved.\<close> The interface \<open>join_laws\<close> of \<open>Prelude\<close> states what a merge promises, and that a
  fold of it converges; it is interpreted on the sets, on the abstract nodes and - through
  \<open>join_refines\<close> - on the documents of the code. The resulting theorem is that the
  merged document has one name whatever the order of arrival. \<open>Validate\<close> and \<open>Kinds\<close> show
  that the check at the door is exactly a grammar and puts a document into the carrier of those
  laws. \<open>Device\<close> shows that every operation keeps a replica good, so that what a device observes,
  merges, saves and loads stays mergeable. \<open>Sharing\<close> shows that an export is a function of what is
  not withheld. \<open>Wire\<close> shows that a stream may be cut anywhere, and \<open>Syncing\<close> that no peer brings a
  replica out of shape or a file that was not asked for, that nothing waits for ever, and that a
  state owed is a state merged. The interfaces of \<open>Syncing\<close> - \<open>output_view\<close>, \<open>derived_view\<close>,
  \<open>steady_view\<close> - state which part of a session the sending, the derived and the waiting operations
  leave alone; each is interpreted on the parts of the session the lemmas are about. Each
  component's other theorems say what its operations return on every branch.

  \<^bold>\<open>Not modelled.\<close> \<^verbatim>\<open>src/canonical/links.cpp\<close>, which nothing else calls; the archive, whose code reads
  and writes files; the Reticulum adapter (sockets, and glue around cryptographic code outside
  the repository); the conformance runner and the tools. Time does not wrap: \<^verbatim>\<open>Millis\<close> of 64 bits
  would after 292 million years.
\<close>

end
